(* ===== verification/Prelude.thy ===== *)
theory Prelude
  imports Main "HOL-Library.Multiset" "HOL-Library.Word"
begin

text \<open>
  What every component shares: Go errors and panics as values, Go's truncating remainder,
  and generic facts on lists.
\<close>

section \<open>Errors\<close>

text \<open>
  A Go function that returns \<^verbatim>\<open>error\<close> returns \<open>Err option\<close> here (\<open>None\<close> is Go's \<open>nil\<close>), one that
  returns a value and an error returns \<open>Err + 'a\<close>. \<open>InvalidMove\<close> is an error that wraps
  \<^verbatim>\<open>ErrInvalidMove\<close> of internal/game/rules.go, \<open>PlainError\<close> any other error value. A run-time
  panic (nil dereference, index out of range) is \<open>Panic\<close>, and a loop that never ends is \<open>Diverges\<close>:
  both are outcomes of the model, so that their absence is a theorem.
\<close>

datatype Err = InvalidMove string | PlainError string | Panic string | Diverges

abbreviation (input) index_panic :: Err where
  "index_panic \<equiv> Panic ''index out of range''"

abbreviation (input) nil_panic :: Err where
  "nil_panic \<equiv> Panic ''nil pointer dereference''"

definition graceful :: "Err \<Rightarrow> bool" where
  "graceful e = (case e of InvalidMove _ \<Rightarrow> True | PlainError _ \<Rightarrow> True | Panic _ \<Rightarrow> False | Diverges \<Rightarrow> False)"

lemma graceful_simps [simp]:
  "graceful (InvalidMove s)" "graceful (PlainError s)"
  "\<not> graceful (Panic s)" "\<not> graceful Diverges"
  by (simp_all add: graceful_def)

definition bindE :: "Err + 'a \<Rightarrow> ('a \<Rightarrow> Err + 'b) \<Rightarrow> Err + 'b" where
  "bindE m f = (case m of Inl e \<Rightarrow> Inl e | Inr x \<Rightarrow> f x)"

lemma bindE_simps [simp]: "bindE (Inl e) f = Inl e" "bindE (Inr x) f = f x"
  by (simp_all add: bindE_def)

lemma bindE_eq_Inr [simp]: "bindE m f = Inr y \<longleftrightarrow> (\<exists>x. m = Inr x \<and> f x = Inr y)"
  by (cases m) auto

section \<open>Integers\<close>

text \<open>Go's \<^verbatim>\<open>%\<close> truncates towards zero: the remainder has the sign of the dividend.\<close>

definition go_rem :: "int \<Rightarrow> int \<Rightarrow> int" where
  "go_rem a b = sgn a * (\<bar>a\<bar> mod \<bar>b\<bar>)"

lemma go_rem_nonneg [simp]: "0 \<le> a \<Longrightarrow> 0 \<le> b \<Longrightarrow> go_rem a b = a mod b"
  by (cases "a = 0") (auto simp: go_rem_def)

text \<open>Decimal text of a natural number (Go's \<^verbatim>\<open>%d\<close>).\<close>

fun itoa :: "nat \<Rightarrow> string" where
  "itoa n = (if n < 10 then [char_of (48 + n)] else itoa (n div 10) @ [char_of (48 + n mod 10)])"

declare itoa.simps [simp del]

lemma itoa_digit [simp]: "n < 10 \<Longrightarrow> itoa n = [char_of (48 + n)]"
  by (subst itoa.simps) simp

section \<open>Lists\<close>

lemma filter_neq_length:
  "distinct xs \<Longrightarrow> a \<in> set xs \<Longrightarrow> Suc (length (filter (\<lambda>x. x \<noteq> a) xs)) = length xs"
proof (induction xs)
  case (Cons x xs)
  show ?case
  proof (cases "x = a")
    case True
    with Cons.prems have "filter (\<lambda>x. x \<noteq> a) xs = xs" by (auto intro: filter_True)
    with True show ?thesis by simp
  next
    case False
    with Cons show ?thesis by auto
  qed
qed simp

lemma mset_filter_neq:
  "distinct xs \<Longrightarrow> a \<in> set xs \<Longrightarrow> add_mset a (mset (filter (\<lambda>x. x \<noteq> a) xs)) = mset xs"
proof (induction xs)
  case (Cons x xs)
  show ?case
  proof (cases "x = a")
    case True
    with Cons.prems have "filter (\<lambda>x. x \<noteq> a) xs = xs" by (auto intro: filter_True)
    with True show ?thesis by simp
  next
    case False
    with Cons show ?thesis by (auto simp: add_mset_commute)
  qed
qed simp

lemma mset_filter_split:
  "mset (filter P xs) + mset (filter (\<lambda>x. \<not> P x) xs) = mset xs"
  by (induction xs) auto

end
