(* ===== verification/Cards.thy ===== *)
theory Cards
  imports Prelude
begin

text \<open>
  internal/game/card.go: suits, ranks, cards, the two decks, shuffling and dealing.

  Go declares \<^verbatim>\<open>Suit\<close> and \<^verbatim>\<open>Rank\<close> as named string types. The constants of the file are the
  constructors here; \<open>OtherSuit s\<close> and \<open>OtherRank s\<close> are the strings that are none of the constants
  (a client may send any string, and the zero value is the empty string). \<open>suit_of_string\<close> and
  \<open>suit_string\<close> translate between the two views without loss.
\<close>

section \<open>Suits, ranks, cards\<close>

datatype Suit = Spades | Diamonds | Hearts | Clubs | NoneSuit | OtherSuit string

datatype Rank = Ace | King | Queen | Jack | Ten | Nine | Eight | Seven | Six | Five
  | Four | Three | Two | Joker | OtherRank string

abbreviation EmptySuit :: Suit where "EmptySuit \<equiv> OtherSuit ''''"

fun suit_string :: "Suit \<Rightarrow> string" where
  "suit_string Spades = ''spades''"
| "suit_string Diamonds = ''diamonds''"
| "suit_string Hearts = ''hearts''"
| "suit_string Clubs = ''clubs''"
| "suit_string NoneSuit = ''none''"
| "suit_string (OtherSuit s) = s"

definition suit_of_string :: "string \<Rightarrow> Suit" where
  "suit_of_string s =
     (if s = ''spades'' then Spades else if s = ''diamonds'' then Diamonds
      else if s = ''hearts'' then Hearts else if s = ''clubs'' then Clubs
      else if s = ''none'' then NoneSuit else OtherSuit s)"

fun rank_string :: "Rank \<Rightarrow> string" where
  "rank_string Ace = ''A''"
| "rank_string King = ''K''"
| "rank_string Queen = ''Q''"
| "rank_string Jack = ''J''"
| "rank_string Ten = ''10''"
| "rank_string Nine = ''9''"
| "rank_string Eight = ''8''"
| "rank_string Seven = ''7''"
| "rank_string Six = ''6''"
| "rank_string Five = ''5''"
| "rank_string Four = ''4''"
| "rank_string Three = ''3''"
| "rank_string Two = ''2''"
| "rank_string Joker = ''Joker''"
| "rank_string (OtherRank s) = s"

record Card =
  Suit :: Suit
  Rank :: Rank

abbreviation mkCard :: "Suit \<Rightarrow> Rank \<Rightarrow> Card" where
  "mkCard s r \<equiv> \<lparr>Suit = s, Rank = r\<rparr>"

definition Card_String :: "Card \<Rightarrow> string" where
  "Card_String c =
     (if Rank c = Joker then ''Joker''
      else (let s = suit_string (Suit c); prefix = (if length s > 0 then take 1 s else '''')
            in prefix @ rank_string (Rank c)))"

fun point_rank :: "Rank \<Rightarrow> bool" where
  "point_rank Ace = True"
| "point_rank King = True"
| "point_rank Queen = True"
| "point_rank Jack = True"
| "point_rank Ten = True"
| "point_rank _ = False"

definition IsPointCard :: "Card \<Rightarrow> bool" where
  "IsPointCard c = point_rank (Rank c)"

section \<open>Decks\<close>

definition deck_suits :: "Suit list" where
  "deck_suits = [Spades, Diamonds, Hearts, Clubs]"

definition deck_ranks :: "Rank list" where
  "deck_ranks = [Ace, King, Queen, Jack, Ten, Nine, Eight, Seven, Six, Five, Four, Three, Two]"

text \<open>The two \<^verbatim>\<open>continue\<close> guards of the inner loop.\<close>

definition deck_skips :: "int \<Rightarrow> Suit \<Rightarrow> Rank \<Rightarrow> bool" where
  "deck_skips numPlayers s r =
     (numPlayers = 4 \<and>
       ((r = Two \<or> r = Four) \<or> (r = Three \<and> (s = Hearts \<or> s = Diamonds))))"

definition NewDeckFor :: "int \<Rightarrow> Card list" where
  "NewDeckFor numPlayers =
     concat (map (\<lambda>s. map (\<lambda>r. mkCard s r) (filter (\<lambda>r. \<not> deck_skips numPlayers s r) deck_ranks))
       deck_suits) @ [mkCard NoneSuit Joker]"

definition NewDeck :: "Card list" where
  "NewDeck = NewDeckFor 5"

text \<open>
  Go's \<^verbatim>\<open>rand.Shuffle(n, swap)\<close> runs \<open>i\<close> from \<open>n - 1\<close> down to \<open>1\<close> and swaps \<open>i\<close> with a random
  \<open>j \<le> i\<close>. The random draws are a parameter \<open>draw\<close>; reducing each modulo \<open>i + 1\<close> gives every
  legal sequence of choices.
\<close>

definition swap :: "'a list \<Rightarrow> nat \<Rightarrow> nat \<Rightarrow> 'a list" where
  "swap d i j = d[i := d ! j, j := d ! i]"

fun shuffle_from :: "(nat \<Rightarrow> nat) \<Rightarrow> nat \<Rightarrow> 'a list \<Rightarrow> 'a list" where
  "shuffle_from draw 0 d = d"
| "shuffle_from draw (Suc i) d =
     shuffle_from draw i (swap d (Suc i) (draw (Suc i) mod (Suc (Suc i))))"

definition Shuffle :: "(nat \<Rightarrow> nat) \<Rightarrow> 'a list \<Rightarrow> 'a list" where
  "Shuffle draw d = shuffle_from draw (length d - 1) d"

text \<open>\<^verbatim>\<open>Deal\<close>: the nested loops copy ten cards to each hand and advance through the deck.\<close>

fun deal_hands :: "nat \<Rightarrow> Card list \<Rightarrow> Card list list \<times> Card list" where
  "deal_hands 0 d = ([], d)"
| "deal_hands (Suc n) d = (let (hs, rest) = deal_hands n (drop 10 d) in (take 10 d # hs, rest))"

definition Deal :: "Card list \<Rightarrow> int \<Rightarrow> Card list list \<times> Card list" where
  "Deal d numPlayers =
     (if int (length d) \<noteq> numPlayers * 10 + 3 then ([], [])
      else (let (hands, rest) = deal_hands (nat numPlayers) d in (hands, take 3 rest)))"

section \<open>Correctness\<close>

lemma suit_of_string_string [simp]: "suit_string (suit_of_string s) = s"
  by (simp add: suit_of_string_def)

lemma deck_facts:
  "distinct (NewDeckFor n)" "length (NewDeckFor n) = (if n = 4 then 43 else 53)"
  "length (filter IsPointCard (NewDeckFor n)) = 20"
  by (cases "n = 4";
      simp add: NewDeckFor_def deck_suits_def deck_ranks_def deck_skips_def IsPointCard_def)+

text \<open>
  Both decks are what the variant rules ask for: 53 distinct cards, or 43 for four players, and
  in both cases exactly the twenty point cards that the scoring scale counts.
\<close>

lemma deck_complete:
  "distinct (NewDeckFor n) \<and> length (NewDeckFor n) = (if n = 4 then 43 else 53) \<and>
   length (filter IsPointCard (NewDeckFor n)) = 20"
  by (intro conjI deck_facts)

lemma in_deck:
  "c \<in> set (NewDeckFor n) \<longleftrightarrow>
     c = mkCard NoneSuit Joker \<or>
     Suit c \<in> {Spades, Diamonds, Hearts, Clubs} \<and> Rank c \<noteq> Joker \<and> (\<forall>s. Rank c \<noteq> OtherRank s)
       \<and> \<not> deck_skips n (Suit c) (Rank c)"
proof -
  have "r \<in> set deck_ranks \<longleftrightarrow> r \<noteq> Joker \<and> (\<forall>s. r \<noteq> OtherRank s)" for r
    by (cases r) (simp_all add: deck_ranks_def)
  then show ?thesis
    by (cases c) (auto simp: NewDeckFor_def deck_suits_def)
qed

lemma swap_simps [simp]:
  "length (swap d i j) = length d"
  "i < length d \<Longrightarrow> j < length d \<Longrightarrow> mset (swap d i j) = mset d"
  by (simp_all add: swap_def mset_swap)

lemma length_shuffle_from [simp]: "length (shuffle_from r i d) = length d"
  by (induction r i d rule: shuffle_from.induct) simp_all

lemma mset_shuffle_from: "i < length d \<Longrightarrow> mset (shuffle_from r i d) = mset d"
proof (induction r i d rule: shuffle_from.induct)
  case (2 r i d)
  have "r (Suc i) mod Suc (Suc i) < Suc (Suc i)" by simp
  with "2.prems" have "r (Suc i) mod Suc (Suc i) < length d" by linarith
  with 2 show ?case by simp
qed simp

lemma mset_Shuffle [simp]: "mset (Shuffle r d) = mset d"
  by (cases d) (simp_all add: Shuffle_def mset_shuffle_from)

lemma length_Shuffle [simp]: "length (Shuffle r d) = length d"
  by (simp add: Shuffle_def)

lemma shuffle_from_cong:
  "(\<And>k. k \<le> i \<Longrightarrow> r k = r' k) \<Longrightarrow> shuffle_from r i d = shuffle_from r' i d"
  by (induction i arbitrary: d) simp_all

text \<open>Every permutation that leaves the positions above \<open>i\<close> alone is the outcome of some draws.\<close>

lemma shuffle_from_onto:
  "i < length d \<Longrightarrow> mset d' = mset d \<Longrightarrow> (\<forall>k > i. k < length d \<longrightarrow> d' ! k = d ! k) \<Longrightarrow>
   \<exists>r. shuffle_from r i d = d'"
proof (induction i arbitrary: d)
  case 0
  have len: "length d' = length d" using "0.prems"(2) by (rule mset_eq_length)
  obtain x xs where d: "d = x # xs" using "0.prems"(1) by (cases d) auto
  obtain y ys where d': "d' = y # ys" using len d by (cases d') auto
  have "ys = xs"
  proof (rule nth_equalityI)
    show "length ys = length xs" using len d d' by simp
    show "ys ! k = xs ! k" if "k < length ys" for k
      using "0.prems"(3) [rule_format, of "Suc k"] that len d d' by simp
  qed
  with d d' "0.prems"(2) show ?case by simp
next
  case (Suc i)
  have len: "length d' = length d" using Suc.prems(2) by (rule mset_eq_length)
  let ?n = "Suc (Suc i)"
  have "drop ?n d' = drop ?n d"
    by (rule nth_equalityI) (use Suc.prems(1,3) len in auto)
  moreover have "mset (take ?n d') + mset (drop ?n d') = mset (take ?n d) + mset (drop ?n d)"
    using Suc.prems(2) by (metis append_take_drop_id mset_append)
  ultimately have "mset (take ?n d') = mset (take ?n d)" by simp
  moreover have "d' ! Suc i \<in> set (take ?n d')"
    using Suc.prems(1) len by (auto simp: in_set_conv_nth intro!: exI [of _ "Suc i"])
  ultimately have "d' ! Suc i \<in> set (take ?n d)" by (metis set_mset_mset)
  then obtain j where j: "j \<le> Suc i" "d ! j = d' ! Suc i"
    using Suc.prems(1) by (auto simp: in_set_conv_nth less_Suc_eq_le)
  let ?d = "swap d (Suc i) j"
  have "\<exists>r. shuffle_from r i ?d = d'"
  proof (rule Suc.IH)
    show "i < length ?d" "mset d' = mset ?d" using Suc.prems(1,2) j(1) by simp_all
    show "\<forall>k>i. k < length ?d \<longrightarrow> d' ! k = ?d ! k"
      using Suc.prems j by (auto simp: swap_def nth_list_update)
  qed
  then obtain r where r: "shuffle_from r i ?d = d'" by blast
  have "shuffle_from (r(Suc i := j)) i ?d = shuffle_from r i ?d"
    by (rule shuffle_from_cong) simp
  moreover have "j mod Suc (Suc i) = j" using j(1) by simp
  ultimately have "shuffle_from (r(Suc i := j)) (Suc i) d = d'" using r by simp
  then show ?case by blast
qed

text \<open>
  C20. Shuffling is a permutation of the deck, and every permutation is the outcome of some draws:
  the set of decks a shuffle can produce is exactly the set of rearrangements.
\<close>

theorem Shuffle_range: "range (\<lambda>draw. Shuffle draw d) = {d'. mset d' = mset d}"
proof (intro equalityI subsetI)
  fix d' assume "d' \<in> {d'. mset d' = mset d}"
  then have m: "mset d' = mset d" by simp
  show "d' \<in> range (\<lambda>draw. Shuffle draw d)"
  proof (cases "d = []")
    case True
    with m show ?thesis by (auto simp: Shuffle_def)
  next
    case False
    then have "\<exists>r. shuffle_from r (length d - 1) d = d'"
      by (intro shuffle_from_onto) (use m in auto)
    then show ?thesis by (auto simp: Shuffle_def)
  qed
qed auto

lemma deal_hands_spec:
  "10 * n \<le> length d \<Longrightarrow> deal_hands n d = (hs, rest) \<Longrightarrow>
     length hs = n \<and> (\<forall>h \<in> set hs. length h = 10) \<and> concat hs = take (10 * n) d \<and> rest = drop (10 * n) d"
proof (induction n arbitrary: d hs rest)
  case (Suc n)
  obtain hs' rest' where r: "deal_hands n (drop 10 d) = (hs', rest')" by fastforce
  have "10 * n \<le> length (drop 10 d)" using Suc.prems(1) by simp
  note IH = Suc.IH [OF this r]
  have "take 10 d @ take (10 * n) (drop 10 d) = take (10 * Suc n) d"
    by (simp add: take_add [symmetric] add.commute)
  with IH r Suc.prems show ?case
    by (auto simp: drop_drop add.commute)
qed simp

text \<open>
  Dealing a deck of the right size partitions it: one hand of ten for each player and a kitty of
  three, which together are the deck, card for card and in order.
\<close>

lemma Deal_partition:
  assumes "length d = 10 * n + 3" and "Deal d (int n) = (hands, kitty)"
  shows "length hands = n \<and> (\<forall>h \<in> set hands. length h = 10) \<and> length kitty = 3 \<and>
         concat hands @ kitty = d"
proof -
  obtain hs rest where r: "deal_hands n d = (hs, rest)" by fastforce
  have len: "10 * n \<le> length d" using assms(1) by simp
  note H = deal_hands_spec [OF len r]
  have "Deal d (int n) = (hs, take 3 rest)"
    using assms(1) r by (simp add: Deal_def)
  moreover have "take 3 rest = drop (10 * n) d" using H assms(1) by simp
  ultimately show ?thesis using H assms by (auto simp del: take_drop)
qed

lemma Deal_Deck:
  assumes "n = 4 \<or> n = 5" and "length d = 10 * n + 3"
  obtains hands kitty where "Deal d (int n) = (hands, kitty)" "length hands = n"
    "\<And>h. h \<in> set hands \<Longrightarrow> length h = 10" "length kitty = 3" "concat hands @ kitty = d"
proof -
  obtain hs rest where r: "deal_hands n d = (hs, rest)" by fastforce
  have len: "10 * n \<le> length d" using assms(2) by simp
  note H = deal_hands_spec [OF len r]
  have "Deal d (int n) = (hs, take 3 rest)" using assms(2) r by (simp add: Deal_def)
  moreover have "take 3 rest = drop (10 * n) d" using H assms(2) by simp
  moreover have "concat hs @ drop (10 * n) d = d" using H by (simp del: take_drop)
  moreover have "length (drop (10 * n) d) = 3" using assms(2) by simp
  ultimately show thesis using H that by metis
qed

theorem Deal_partition_witness:
  "\<exists>hands kitty. Deal (NewDeckFor 4) (int 4) = (hands, kitty) \<and> length hands = 4 \<and>
     length kitty = 3 \<and> concat hands @ kitty = NewDeckFor 4"
proof -
  obtain hands kitty where D: "Deal (NewDeckFor 4) (int 4) = (hands, kitty)" by fastforce
  have "length (NewDeckFor 4) = 10 * 4 + 3" by code_simp
  from Deal_partition [OF this D] D show ?thesis by blast
qed

end
