(* ===== verification/GoMap.thy ===== *)
theory GoMap
  imports Prelude "HOL-Library.AList"
begin

text \<open>
  Go maps. The interface is the locale \<open>go_map\<close>: lookup, store and \<^verbatim>\<open>len\<close> with the laws of the
  language; the model's representation is an association list with distinct keys, which keeps
  every definition executable. Reading a missing key gives the zero value of the value type.
\<close>

section \<open>The interface\<close>

locale go_map =
  fixes empty :: "'m"
    and lookup :: "'m \<Rightarrow> 'k \<Rightarrow> 'v option"
    and store :: "'k \<Rightarrow> 'v \<Rightarrow> 'm \<Rightarrow> 'm"
    and size_of :: "'m \<Rightarrow> nat"
    and invar :: "'m \<Rightarrow> bool"
  assumes lookup_empty: "lookup empty k = None"
    and lookup_store: "invar m \<Longrightarrow> lookup (store k v m) = (lookup m)(k \<mapsto> v)"
    and size_of_card: "invar m \<Longrightarrow> size_of m = card (dom (lookup m)) \<and> finite (dom (lookup m))"
    and invar_empty: "invar empty"
    and invar_store: "invar m \<Longrightarrow> invar (store k v m)"
begin

lemma size_empty: "size_of empty = 0"
  using size_of_card [OF invar_empty] by (simp add: lookup_empty dom_def)

lemma size_store:
  assumes "invar m"
  shows "size_of (store k v m) = (if lookup m k = None then Suc (size_of m) else size_of m)"
proof -
  note m = size_of_card [OF assms] and s = size_of_card [OF invar_store [OF assms, of k v]]
  have "dom (lookup (store k v m)) = insert k (dom (lookup m))"
    by (simp add: lookup_store [OF assms])
  with m s show ?thesis
    by (auto simp: card_insert_if domIff)
qed

lemma size_le:
  assumes "invar m" and "dom (lookup m) \<subseteq> A" and "finite A"
  shows "size_of m \<le> card A"
  using size_of_card [OF assms(1)] card_mono [OF assms(3,2)] by simp

text \<open>A vote or pass counter that reaches the number of candidates has heard every one of them.\<close>

lemma full_map:
  assumes "invar m" and "dom (lookup m) \<subseteq> A" and "finite A" and "size_of m = card A"
  shows "dom (lookup m) = A"
  using size_of_card [OF assms(1)] assms(2-4) card_subset_eq by metis

lemma all_but_one:
  assumes "invar m" and "dom (lookup m) \<subseteq> A" and "finite A" and "Suc (size_of m) = card A"
  obtains a where "a \<in> A" and "dom (lookup m) = A - {a}"
proof -
  let ?D = "dom (lookup m)"
  have "card ?D < card A" using size_of_card [OF assms(1)] assms(4) by simp
  then obtain a where a: "a \<in> A" "a \<notin> ?D"
    using assms(2) by (metis less_irrefl subsetI subset_antisym)
  have "card (A - {a}) = card ?D"
    using a assms(3,4) size_of_card [OF assms(1)] by simp
  moreover have "?D \<subseteq> A - {a}" using a assms(2) by auto
  ultimately have "?D = A - {a}" using assms(3) by (metis card_subset_eq finite_Diff)
  with a(1) show thesis by (rule that)
qed

end

section \<open>The representation\<close>

type_synonym ('k, 'v) gomap = "('k \<times> 'v) list"

definition gm_get :: "('k, 'v) gomap \<Rightarrow> 'k \<Rightarrow> 'v \<Rightarrow> 'v" where
  "gm_get m k zero = (case map_of m k of None \<Rightarrow> zero | Some v \<Rightarrow> v)"

abbreviation gm_set :: "'k \<Rightarrow> 'v \<Rightarrow> ('k, 'v) gomap \<Rightarrow> ('k, 'v) gomap" where
  "gm_set \<equiv> AList.update"

abbreviation gm_has :: "('k, bool) gomap \<Rightarrow> 'k \<Rightarrow> bool" where
  "gm_has m k \<equiv> gm_get m k False"

lemma gm_set_new: "k \<notin> fst ` set m \<Longrightarrow> gm_set k x m = m @ [(k, x)]"
  by (induction m) auto

definition gm_len :: "('k, 'v) gomap \<Rightarrow> int" where
  "gm_len m = int (length m)"

definition gm_ok :: "('k, 'v) gomap \<Rightarrow> bool" where
  "gm_ok m = distinct (map fst m)"

interpretation gm: go_map "[]" map_of gm_set length gm_ok
proof unfold_locales
  show "length m = card (dom (map_of m)) \<and> finite (dom (map_of m))"
    if "gm_ok m" for m :: "('k, 'v) gomap"
  proof -
    have "card (set (map fst m)) = length m"
      using that distinct_card [of "map fst m"] by (simp add: gm_ok_def)
    then show ?thesis by (simp add: dom_map_of_conv_image_fst)
  qed
qed (simp_all add: gm_ok_def update_conv' distinct_update)

lemma gm_ok_empty [simp]: "gm_ok []" by (simp add: gm_ok_def)

lemma gm_ok_set [simp]: "gm_ok m \<Longrightarrow> gm_ok (gm_set k v m)"
  by (rule gm.invar_store)

lemma gm_get_empty [simp]: "gm_get [] k z = z" by (simp add: gm_get_def)

lemma gm_get_set [simp]: "gm_get (gm_set k v m) k' z = (if k' = k then v else gm_get m k' z)"
  by (simp add: gm_get_def update_conv')

lemma gm_len_empty [simp]: "gm_len [] = 0" by (simp add: gm_len_def)

lemma gm_len_nonneg [simp]: "0 \<le> gm_len m" by (simp add: gm_len_def)

text \<open>A map that only ever stores \<open>true\<close> is a set of keys.\<close>

definition gm_flags :: "('k, bool) gomap \<Rightarrow> bool" where
  "gm_flags m \<longleftrightarrow> gm_ok m \<and> (\<forall>v \<in> snd ` set m. v)"

lemma gm_flags_empty [simp]: "gm_flags []" by (simp add: gm_flags_def)

lemma gm_flags_ok: "gm_flags m \<Longrightarrow> gm_ok m" by (simp add: gm_flags_def)

lemma gm_flags_has: "gm_flags m \<Longrightarrow> gm_has m k \<longleftrightarrow> map_of m k \<noteq> None"
  by (force simp: gm_flags_def gm_get_def split: option.splits dest: map_of_SomeD)

lemma gm_flags_set [simp]:
  assumes "gm_flags m"
  shows "gm_flags (gm_set k True m)"
proof -
  have "snd ` set (gm_set k True m) \<subseteq> insert True (snd ` set m)"
    by (induction m) auto
  with assms show ?thesis by (auto simp: gm_flags_def)
qed

definition gm_keys :: "('k, bool) gomap \<Rightarrow> 'k set" where
  "gm_keys m = {k. gm_has m k}"

lemma gm_keys_dom: "gm_flags m \<Longrightarrow> gm_keys m = dom (map_of m)"
  by (auto simp: gm_keys_def gm_flags_has)

lemma gm_keys_empty [simp]: "gm_keys [] = {}" by (simp add: gm_keys_def)

lemma gm_keys_set [simp]: "gm_keys (gm_set k True m) = insert k (gm_keys m)"
  by (auto simp: gm_keys_def)

lemma gm_has_keys: "gm_has m k \<longleftrightarrow> k \<in> gm_keys m" by (simp add: gm_keys_def)

lemma gm_len_keys: "gm_flags m \<Longrightarrow> gm_len m = int (card (gm_keys m)) \<and> finite (gm_keys m)"
  using gm.size_of_card [OF gm_flags_ok] by (simp add: gm_keys_dom gm_len_def)

lemma gm_keys_full:
  assumes "gm_flags m" "gm_keys m \<subseteq> A" "finite A" "gm_len m = int (card A)"
  shows "gm_keys m = A"
  using gm.full_map [OF gm_flags_ok [OF assms(1)], of A] assms
  by (simp add: gm_keys_dom gm_len_def)

lemma gm_keys_all_but_one:
  assumes "gm_flags m" "gm_keys m \<subseteq> A" "finite A" "gm_len m + 1 = int (card A)"
  obtains a where "a \<in> A" "gm_keys m = A - {a}"
proof -
  have "Suc (length m) = card A" using assms(4) by (simp add: gm_len_def)
  then show thesis
    using gm.all_but_one [OF gm_flags_ok [OF assms(1)], of A] assms that
    by (auto simp: gm_keys_dom)
qed

end
