(* ===== verification/GameState.thy ===== *)
theory GameState
  imports Cards GoMap
begin

text \<open>
  internal/game/config.go and internal/game/game.go: the variant configuration, the move payloads,
  the game record, construction and the start of a deal.

  Representation. A \<^verbatim>\<open>*Player\<close> is an entry of the array \<open>Players\<close>, so a pointer to a player is a
  seat index and \<^verbatim>\<open>nil\<close> is \<open>None\<close>; a \<^verbatim>\<open>*Bid\<close> or \<^verbatim>\<open>*Card\<close> that is never written through is an
  \<open>option\<close>. A nil slice and an empty slice are both \<open>[]\<close>, a nil map and an empty map both \<open>[]\<close>.
  Go's \<^verbatim>\<open>int\<close> is \<open>int\<close> (every value that occurs is bounded far below 64 bits), the \<^verbatim>\<open>int64\<close> version
  counter is a \<open>64 word\<close>. The clock and the random draws of the shuffle are read from an
  environment record.
\<close>

section \<open>Configuration (config.go)\<close>

datatype FailDist = FailEqualSplit | FailDeclarerAlone | FailTwoOneSplit | OtherFailDist string

record GameConfig =
  NumPlayers :: int
  AllowJokerPartner :: bool
  FailDistribution :: FailDist

definition DefaultConfig :: GameConfig where
  "DefaultConfig = \<lparr>NumPlayers = 5, AllowJokerPartner = True, FailDistribution = FailEqualSplit\<rparr>"

section \<open>Data model (game.go)\<close>

datatype Phase = PhaseWaiting | PhaseBidding | PhaseExchanging | PhaseCalling | PhasePlaying
  | PhaseFinished

fun phase_index :: "Phase \<Rightarrow> nat" where
  "phase_index PhaseWaiting = 0"
| "phase_index PhaseBidding = 1"
| "phase_index PhaseExchanging = 2"
| "phase_index PhaseCalling = 3"
| "phase_index PhasePlaying = 4"
| "phase_index PhaseFinished = 5"

text \<open>The phases of a round are ordered; a round walks up the order.\<close>

instantiation Phase :: linorder
begin

definition less_eq_Phase :: "Phase \<Rightarrow> Phase \<Rightarrow> bool" where
  "less_eq_Phase p q \<longleftrightarrow> phase_index p \<le> phase_index q"

definition less_Phase :: "Phase \<Rightarrow> Phase \<Rightarrow> bool" where
  "less_Phase p q \<longleftrightarrow> phase_index p < phase_index q"

instance
proof
  show "x = y" if "x \<le> y" "y \<le> x" for x y :: Phase
    using that unfolding less_eq_Phase_def by (cases x; cases y) simp_all
qed (auto simp: less_eq_Phase_def less_Phase_def)

end

datatype MoveType = MoveBid | MovePass | MoveDiscard | MoveCallPartner | MovePlayCard
  | MovePlayAgain | MoveChangeConfig | OtherMove string

record ChangeConfigMove =
  ccNumPlayers :: int

record PlayCardMove =
  pmCard :: Card
  CallJoker :: bool
  CalledSuit :: Suit

record CallPartnerMove =
  cpCard :: "Card option"
  NoFriend :: bool

record Player =
  pID :: string
  pName :: string
  Seat :: int
  Hand :: "Card list"
  Points :: "Card list"
  IsConnected :: bool

record Bid =
  bPlayerID :: string
  bPoints :: int
  bSuit :: Suit
  IsNoTrump :: bool

record PlayedCard =
  pcPlayerID :: string
  pcSeat :: int
  pcCard :: Card

record Trick =
  tCards :: "PlayedCard list"
  LeadSuit :: Suit
  Winner :: int
  JokerCalled :: bool

record Game =
  gID :: string
  Status :: Phase
  Config :: GameConfig
  Players :: "Player option list"
  Kitty :: "Card list"
  Deck :: "Card list"
  CurrentTurn :: int
  Dealer :: int
  Bids :: "Bid list"
  CurrentBid :: "Bid option"
  Declarer :: int
  PassedPlayers :: "(int, bool) gomap"
  Contract :: "Bid option"
  PartnerCard :: "Card option"
  PartnerSeat :: int
  IsNoFriend :: bool
  Trump :: Suit
  Tricks :: "Trick list"
  Scores :: "(string, int) gomap"
  TotalScores :: "(string, int) gomap"
  ScoreHistory :: "(string, int) gomap list"
  PlayAgainVotes :: "(int, bool) gomap"
  Version :: "64 word"
  CreatedAt :: int
  UpdatedAt :: int

text \<open>What the code reads from its surroundings: the clock and the random draws of one shuffle.\<close>

record Env =
  now :: int
  draws :: "nat \<Rightarrow> nat"

section \<open>Seats\<close>

definition numSeats :: "Game \<Rightarrow> int" where
  "numSeats g = (if NumPlayers (Config g) = 0 then 5 else NumPlayers (Config g))"

definition minBidPoints :: "Game \<Rightarrow> int" where
  "minBidPoints g = (if numSeats g = 4 then 4 else 3)"

text \<open>\<^verbatim>\<open>g.Players[i]\<close> followed by a dereference: both ways it can panic are values.\<close>

definition player_at :: "Game \<Rightarrow> int \<Rightarrow> Err + Player" where
  "player_at g i =
     (if i < 0 \<or> int (length (Players g)) \<le> i then Inl index_panic
      else case Players g ! nat i of None \<Rightarrow> Inl nil_panic | Some p \<Rightarrow> Inr p)"

text \<open>Writing through the pointer at seat \<open>i\<close>.\<close>

definition set_player :: "Game \<Rightarrow> int \<Rightarrow> Player \<Rightarrow> Game" where
  "set_player g i p = g\<lparr>Players := (Players g)[nat i := Some p]\<rparr>"

text \<open>\<^verbatim>\<open>for seat, player := range g.Players\<close> with the \<^verbatim>\<open>player == nil\<close> entries skipped.\<close>

fun seated_from :: "int \<Rightarrow> Player option list \<Rightarrow> (int \<times> Player) list" where
  "seated_from i [] = []"
| "seated_from i (None # ps) = seated_from (i + 1) ps"
| "seated_from i (Some p # ps) = (i, p) # seated_from (i + 1) ps"

definition seated :: "Game \<Rightarrow> (int \<times> Player) list" where
  "seated g = seated_from 0 (Players g)"

section \<open>Construction, start of a deal\<close>

definition emptyPlayers :: "Player option list" where
  "emptyPlayers = replicate 5 None"

definition NewWithConfig :: "Env \<Rightarrow> string \<Rightarrow> GameConfig \<Rightarrow> Game" where
  "NewWithConfig e gid cfg =
     (let cfg1 = (if NumPlayers cfg = 0 then cfg\<lparr>NumPlayers := 5\<rparr> else cfg);
          cfg2 = (if FailDistribution cfg1 = OtherFailDist ''''
                  then cfg1\<lparr>FailDistribution := FailEqualSplit\<rparr> else cfg1)
      in \<lparr>gID = gid, Status = PhaseWaiting, Config = cfg2, Players = emptyPlayers,
          Kitty = [], Deck = [], CurrentTurn = 0, Dealer = 0, Bids = [], CurrentBid = None,
          Declarer = -1, PassedPlayers = [], Contract = None, PartnerCard = None,
          PartnerSeat = -1, IsNoFriend = False, Trump = EmptySuit, Tricks = [], Scores = [],
          TotalScores = [], ScoreHistory = [], PlayAgainVotes = [], Version = 1,
          CreatedAt = now e, UpdatedAt = now e\<rparr>)"

definition NewGame :: "Env \<Rightarrow> string \<Rightarrow> Game" where
  "NewGame e gid = NewWithConfig e gid DefaultConfig"

text \<open>
  \<^verbatim>\<open>IsFull\<close> counts the filled seats below \<open>numSeats\<close>. (The array has five entries and every
  configuration the program stores has four or five players, so the slice is in range.)
\<close>

definition IsFull :: "Game \<Rightarrow> bool" where
  "IsFull g \<longleftrightarrow>
     int (length (filter (\<lambda>p. p \<noteq> None) (take (nat (numSeats g)) (Players g)))) = numSeats g"

text \<open>The loop of \<^verbatim>\<open>Start\<close> that hands out the dealt hands, seat by seat.\<close>

fun hand_out :: "Player option list \<Rightarrow> Card list list \<Rightarrow> Player option list" where
  "hand_out ps [] = ps"
| "hand_out [] (h # hs) = []"
| "hand_out (None # ps) (h # hs) = None # hand_out ps hs"
| "hand_out (Some p # ps) (h # hs) = Some (p\<lparr>Hand := h, Points := []\<rparr>) # hand_out ps hs"

definition Start :: "Env \<Rightarrow> Game \<Rightarrow> Game" where
  "Start e g =
     (let deck = Shuffle (draws e) (NewDeckFor (numSeats g));
          (hands, kitty) = Deal deck (numSeats g)
      in g\<lparr>Players := hand_out (Players g) hands, Kitty := kitty, Status := PhaseBidding,
           CurrentTurn := 0\<rparr>)"

end
