(* ===== verification/TrickRules.thy ===== *)
theory TrickRules
  imports GameState
begin

text \<open>
  internal/game/rules.go, the trick engine: the special cards, the contextual strength of a card,
  the resolution of a trick, and the mystery friend.
\<close>

section \<open>Special cards and card strength\<close>

definition PowerMighty :: int where "PowerMighty = 1000"
definition PowerJoker :: int where "PowerJoker = 500"
definition PowerTrump :: int where "PowerTrump = 100"
definition PowerLead :: int where "PowerLead = 10"
definition PowerBase :: int where "PowerBase = 0"

definition IsMighty :: "Game \<Rightarrow> Card \<Rightarrow> bool" where
  "IsMighty g c =
     (if Trump g = Spades then Suit c = Diamonds \<and> Rank c = Ace
      else Suit c = Spades \<and> Rank c = Ace)"

definition IsJokerCaller :: "Game \<Rightarrow> Card \<Rightarrow> bool" where
  "IsJokerCaller g c =
     (if Trump g = Clubs then Suit c = Spades \<and> Rank c = Three
      else Suit c = Clubs \<and> Rank c = Three)"

fun RankValue :: "Rank \<Rightarrow> int" where
  "RankValue Ace = 14"
| "RankValue King = 13"
| "RankValue Queen = 12"
| "RankValue Jack = 11"
| "RankValue Ten = 10"
| "RankValue Nine = 9"
| "RankValue Eight = 8"
| "RankValue Seven = 7"
| "RankValue Six = 6"
| "RankValue Five = 5"
| "RankValue Four = 4"
| "RankValue Three = 3"
| "RankValue Two = 2"
| "RankValue Joker = 0"
| "RankValue (OtherRank s) = 0"

definition CalculatePower :: "Game \<Rightarrow> Card \<Rightarrow> Trick \<Rightarrow> int \<Rightarrow> int" where
  "CalculatePower g c t trickNum =
     (if IsMighty g c then PowerMighty
      else if Rank c = Joker then
        (if trickNum = 1 \<or> trickNum = 10 then PowerBase
         else if JokerCalled t then PowerBase
         else if list_ex (\<lambda>pc. IsMighty g (pcCard pc)) (tCards t) then PowerBase
         else PowerJoker)
      else if Suit c = Trump g then PowerTrump + RankValue (Rank c)
      else if Suit c = LeadSuit t then PowerLead + RankValue (Rank c)
      else PowerBase + RankValue (Rank c))"

definition Beats :: "Game \<Rightarrow> Card \<Rightarrow> Card \<Rightarrow> Trick \<Rightarrow> bool" where
  "Beats g c1 c2 t =
     (let trickNum = int (length (Tricks g))
      in CalculatePower g c1 t trickNum > CalculatePower g c2 t trickNum)"

section \<open>Resolution\<close>

text \<open>The loop of \<^verbatim>\<open>ResolveTrick\<close>: index, best index so far, its power, the point cards so far.\<close>

fun resolve_loop ::
  "(Card \<Rightarrow> int) \<Rightarrow> PlayedCard list \<Rightarrow> nat \<Rightarrow> nat \<Rightarrow> int \<Rightarrow> Card list \<Rightarrow> nat \<times> Card list" where
  "resolve_loop pw [] i winnerIdx maxPower points = (winnerIdx, points)"
| "resolve_loop pw (pc # pcs) i winnerIdx maxPower points =
     (let points' = (if IsPointCard (pcCard pc) then points @ [pcCard pc] else points)
      in if pw (pcCard pc) > maxPower
         then resolve_loop pw pcs (Suc i) i (pw (pcCard pc)) points'
         else resolve_loop pw pcs (Suc i) winnerIdx maxPower points')"

definition ResolveTrick :: "Game \<Rightarrow> Trick \<Rightarrow> Err + (int \<times> Card list)" where
  "ResolveTrick g t =
     (let trickNum = int (length (Tricks g));
          (winnerIdx, points) =
            resolve_loop (\<lambda>c. CalculatePower g c t trickNum) (tCards t) 0 0 (-1) []
      in if winnerIdx < length (tCards t) then Inr (pcSeat (tCards t ! winnerIdx), points)
         else Inl index_panic)"

section \<open>The mystery friend\<close>

fun hand_holder :: "Card \<Rightarrow> Player option list \<Rightarrow> int option" where
  "hand_holder pc [] = None"
| "hand_holder pc (None # ps) = hand_holder pc ps"
| "hand_holder pc (Some p # ps) =
     (if pc \<in> set (Hand p) then Some (Seat p) else hand_holder pc ps)"

fun played_by :: "Card \<Rightarrow> PlayedCard list \<Rightarrow> int option" where
  "played_by pc [] = None"
| "played_by pc (x # xs) = (if pcCard x = pc then Some (pcSeat x) else played_by pc xs)"

definition friendSeat :: "Game \<Rightarrow> int" where
  "friendSeat g =
     (if IsNoFriend g then -1
      else case PartnerCard g of
        None \<Rightarrow> -1
      | Some pc \<Rightarrow>
          (case hand_holder pc (Players g) of
             Some s \<Rightarrow> s
           | None \<Rightarrow>
               (case played_by pc (concat (map tCards (Tricks g))) of
                  Some s \<Rightarrow> s
                | None \<Rightarrow> -1)))"

fun reveals :: "PlayedCard list \<Rightarrow> int \<Rightarrow> bool" where
  "reveals [] fs = False"
| "reveals (pc # pcs) fs =
     (if IsPointCard (pcCard pc) then True
      else if pcSeat pc = fs \<and> Rank (pcCard pc) = Joker then True
      else reveals pcs fs)"

definition trickRevealsFriend :: "Trick \<Rightarrow> int \<Rightarrow> bool" where
  "trickRevealsFriend t fs = reveals (tCards t) fs"

section \<open>The winner is the first strongest card\<close>

text \<open>
  What the resolution loop needs of a strength function is that it is never negative (the loop
  starts from \<open>-1\<close>). Everything else it does is the same for any strength function; the interface
  is interpreted on \<^verbatim>\<open>CalculatePower\<close> below.
\<close>

locale strength =
  fixes pw :: "Card \<Rightarrow> int"
  assumes pw_nonneg: "0 \<le> pw c"
begin

definition best :: "PlayedCard list \<Rightarrow> nat \<Rightarrow> bool" where
  "best cs w \<longleftrightarrow> w < length cs \<and> (\<forall>i < length cs. pw (pcCard (cs ! i)) \<le> pw (pcCard (cs ! w)))
     \<and> (\<forall>i < w. pw (pcCard (cs ! i)) < pw (pcCard (cs ! w)))"

lemma resolve_loop_points:
  "snd (resolve_loop pw cs i w m pts) = pts @ filter IsPointCard (map pcCard cs)"
  by (induction cs arbitrary: i w m pts) (simp_all add: Let_def)

lemma best_snoc:
  assumes "best pre w"
  shows "best (pre @ [c]) (if pw (pcCard c) > pw (pcCard (pre ! w)) then length pre else w)"
  using assms by (fastforce simp: best_def nth_append less_Suc_eq)

lemma best_single: "best [c] 0" by (simp add: best_def)

lemma resolve_loop_best:
  "best pre w \<Longrightarrow> best (pre @ cs) (fst (resolve_loop pw cs (length pre) w (pw (pcCard (pre ! w))) pts))"
proof (induction cs arbitrary: pre w pts)
  case (Cons c cs)
  let ?w = "if pw (pcCard c) > pw (pcCard (pre ! w)) then length pre else w"
  have "w < length pre" using Cons.prems by (simp add: best_def)
  then have v: "pw (pcCard ((pre @ [c]) ! ?w)) = (if pw (pcCard c) > pw (pcCard (pre ! w))
      then pw (pcCard c) else pw (pcCard (pre ! w)))"
    by (simp add: nth_append)
  show ?case
    using Cons.IH [OF best_snoc [OF Cons.prems, of c]] v
    by (auto simp: Let_def)
qed simp

lemma resolve_loop_first:
  assumes "cs \<noteq> []"
  shows "best cs (fst (resolve_loop pw cs 0 0 (-1) []))"
proof -
  obtain c cs' where cs: "cs = c # cs'" using assms by (cases cs) auto
  have "pw (pcCard c) > -1" using pw_nonneg [of "pcCard c"] by simp
  then show ?thesis
    using resolve_loop_best [OF best_single, of c cs'] cs by (auto simp: Let_def)
qed

lemma best_unique: "best cs w \<Longrightarrow> best cs w' \<Longrightarrow> w = w'"
  unfolding best_def by (metis linorder_neqE_nat not_less)

lemma best_dominant:
  assumes "best cs w" and "k < length cs"
    and "\<And>i. i < length cs \<Longrightarrow> i \<noteq> k \<Longrightarrow> pw (pcCard (cs ! i)) < pw (pcCard (cs ! k))"
  shows "w = k"
  using assms unfolding best_def by (metis not_less)

end

lemma RankValue_bounds: "0 \<le> RankValue r" "RankValue r \<le> 14"
  by (cases r; simp)+

lemmas power_defs = PowerMighty_def PowerJoker_def PowerTrump_def PowerLead_def PowerBase_def

lemma CalculatePower_nonneg: "0 \<le> CalculatePower g c t n"
  using RankValue_bounds [of "Rank c"] by (simp add: CalculatePower_def power_defs)

interpretation trick: strength "\<lambda>c. CalculatePower g c t n" for g t n
  by unfold_locales (rule CalculatePower_nonneg)

lemma ResolveTrick_best:
  assumes "tCards t \<noteq> []"
  obtains w where "trick.best g t (int (length (Tricks g))) (tCards t) w"
    and "ResolveTrick g t =
      Inr (pcSeat (tCards t ! w), filter IsPointCard (map pcCard (tCards t)))"
proof -
  let ?n = "int (length (Tricks g))"
  let ?r = "resolve_loop (\<lambda>c. CalculatePower g c t ?n) (tCards t) 0 0 (-1) []"
  have b: "trick.best g t ?n (tCards t) (fst ?r)" by (rule trick.resolve_loop_first [OF assms])
  moreover have "snd ?r = filter IsPointCard (map pcCard (tCards t))"
    by (simp add: trick.resolve_loop_points)
  moreover have "fst ?r < length (tCards t)" using b by (simp add: trick.best_def)
  ultimately show thesis
    using that by (simp add: ResolveTrick_def Let_def split_def)
qed

text \<open>The index of the winning card, and what the resolution says about it.\<close>

lemma ResolveTrick_spec:
  assumes "tCards t \<noteq> []"
  shows "\<exists>w < length (tCards t).
    ResolveTrick g t = Inr (pcSeat (tCards t ! w), filter IsPointCard (map pcCard (tCards t))) \<and>
    (\<forall>i < length (tCards t). \<not> Beats g (pcCard (tCards t ! i)) (pcCard (tCards t ! w)) t) \<and>
    (\<forall>i < w. Beats g (pcCard (tCards t ! w)) (pcCard (tCards t ! i)) t)"
proof -
  obtain w where w: "trick.best g t (int (length (Tricks g))) (tCards t) w"
    and r: "ResolveTrick g t =
      Inr (pcSeat (tCards t ! w), filter IsPointCard (map pcCard (tCards t)))"
    by (rule ResolveTrick_best [OF assms])
  show ?thesis
    by (rule exI [of _ w])
       (use w r in \<open>auto simp: Beats_def trick.best_def Let_def not_less\<close>)
qed

text \<open>
  C16. Resolving a non-empty trick succeeds: the winner is the first player whose card no other card
  of the trick beats, and the point cards of the trick are all collected, in the order played.
\<close>

theorem ResolveTrick_correct:
  assumes "tCards t \<noteq> []"
  shows "\<exists>w < length (tCards t).
    ResolveTrick g t = Inr (pcSeat (tCards t ! w), filter IsPointCard (map pcCard (tCards t))) \<and>
    (\<forall>i < length (tCards t). \<not> Beats g (pcCard (tCards t ! i)) (pcCard (tCards t ! w)) t) \<and>
    (\<forall>i < w. Beats g (pcCard (tCards t ! w)) (pcCard (tCards t ! i)) t)"
  using assms by (rule ResolveTrick_spec)

lemma ResolveTrick_dominant:
  assumes "k < length (tCards t)"
    and "\<And>i. i < length (tCards t) \<Longrightarrow> i \<noteq> k \<Longrightarrow>
      Beats g (pcCard (tCards t ! k)) (pcCard (tCards t ! i)) t"
  shows "ResolveTrick g t =
      Inr (pcSeat (tCards t ! k), filter IsPointCard (map pcCard (tCards t)))"
proof -
  have "tCards t \<noteq> []" using assms(1) by auto
  then obtain w where w: "trick.best g t (int (length (Tricks g))) (tCards t) w"
    and r: "ResolveTrick g t =
      Inr (pcSeat (tCards t ! w), filter IsPointCard (map pcCard (tCards t)))"
    by (rule ResolveTrick_best)
  have "w = k"
    by (rule trick.best_dominant [OF w assms(1)])
       (use assms(2) in \<open>simp add: Beats_def Let_def\<close>)
  with r show ?thesis by simp
qed

lemma CalculatePower_le:
  "CalculatePower g c t n \<le> (if IsMighty g c then 1000 else if Rank c = Joker then 500 else 114)"
  using RankValue_bounds [of "Rank c"] by (simp add: CalculatePower_def power_defs)

lemma CalculatePower_mighty [simp]: "IsMighty g c \<Longrightarrow> CalculatePower g c t n = 1000"
  by (simp add: CalculatePower_def power_defs)

lemma mighty_unique: "IsMighty g c \<Longrightarrow> IsMighty g c' \<Longrightarrow> c = c'"
  by (cases c; cases c') (auto simp: IsMighty_def split: if_splits)

lemma IsMighty_not_Joker: "IsMighty g c \<Longrightarrow> Rank c \<noteq> Joker"
  by (auto simp: IsMighty_def split: if_splits)

lemma mighty_beats: "IsMighty g c \<Longrightarrow> c \<noteq> c' \<Longrightarrow> Beats g c c' t"
proof -
  assume m: "IsMighty g c" and "c \<noteq> c'"
  then have "\<not> IsMighty g c'" using mighty_unique by blast
  then have "CalculatePower g c' t (int (length (Tricks g))) \<le> 500"
    using CalculatePower_le [of g c' t "int (length (Tricks g))"] by (simp split: if_splits)
  with m show "Beats g c c' t" by (simp add: Beats_def Let_def)
qed

text \<open>
  The mighty wins every trick it is played in, whatever the trick number, the trump, the led suit
  and the joker do.
\<close>

lemma mighty_wins_trick:
  assumes "distinct (map pcCard (tCards t))" and "k < length (tCards t)"
    and "IsMighty g (pcCard (tCards t ! k))"
  shows "ResolveTrick g t =
    Inr (pcSeat (tCards t ! k), filter IsPointCard (map pcCard (tCards t)))"
proof (rule ResolveTrick_dominant [OF assms(2)])
  fix i assume "i < length (tCards t)" "i \<noteq> k"
  then have "pcCard (tCards t ! k) \<noteq> pcCard (tCards t ! i)"
    using assms(1,2) by (auto simp: distinct_conv_nth)
  then show "Beats g (pcCard (tCards t ! k)) (pcCard (tCards t ! i)) t"
    by (rule mighty_beats [OF assms(3)])
qed

text \<open>When the joker counts: not in the first or last trick, not called, no mighty beside it.\<close>

definition joker_live :: "Game \<Rightarrow> Trick \<Rightarrow> bool" where
  "joker_live g t \<longleftrightarrow> length (Tricks g) \<noteq> 1 \<and> length (Tricks g) \<noteq> 10 \<and> \<not> JokerCalled t \<and>
     (\<forall>pc \<in> set (tCards t). \<not> IsMighty g (pcCard pc))"

lemma CalculatePower_joker:
  assumes "Rank c = Joker"
  shows "CalculatePower g c t (int (length (Tricks g))) = (if joker_live g t then 500 else 0)"
proof -
  have "\<not> IsMighty g c" using assms IsMighty_not_Joker by blast
  with assms show ?thesis
    by (auto simp: CalculatePower_def power_defs joker_live_def list_ex_iff)
qed

text \<open>Distinct cards of the full deck: what a trick of a real deal consists of.\<close>

definition deck_trick :: "Trick \<Rightarrow> bool" where
  "deck_trick t \<longleftrightarrow> distinct (map pcCard (tCards t)) \<and> pcCard ` set (tCards t) \<subseteq> set NewDeck"

lemma deck_trick_neq:
  "deck_trick t \<Longrightarrow> i < length (tCards t) \<Longrightarrow> k < length (tCards t) \<Longrightarrow> i \<noteq> k \<Longrightarrow>
   pcCard (tCards t ! i) \<noteq> pcCard (tCards t ! k)"
  by (auto simp: deck_trick_def distinct_conv_nth)

lemma deck_trick_card: "deck_trick t \<Longrightarrow> i < length (tCards t) \<Longrightarrow> pcCard (tCards t ! i) \<in> set NewDeck"
  by (auto simp: deck_trick_def)

lemma in_NewDeck_joker: "c \<in> set NewDeck \<Longrightarrow> Rank c = Joker \<Longrightarrow> c = mkCard NoneSuit Joker"
  by (simp add: NewDeck_def in_deck)

lemma in_NewDeck_rank: "c \<in> set NewDeck \<Longrightarrow> Rank c \<noteq> Joker \<Longrightarrow> 2 \<le> RankValue (Rank c)"
  by (cases "Rank c") (auto simp: NewDeck_def in_deck)

text \<open>
  The joker wins every trick between the first and the last in which it was not called and in
  which the mighty is not played.
\<close>

lemma live_joker_wins_trick:
  assumes "deck_trick t" and "k < length (tCards t)" and "Rank (pcCard (tCards t ! k)) = Joker"
    and "joker_live g t"
  shows "ResolveTrick g t =
    Inr (pcSeat (tCards t ! k), filter IsPointCard (map pcCard (tCards t)))"
proof (rule ResolveTrick_dominant [OF assms(2)])
  fix i assume i: "i < length (tCards t)" "i \<noteq> k"
  have "Rank (pcCard (tCards t ! i)) \<noteq> Joker"
    using deck_trick_neq [OF assms(1) i(1) assms(2) i(2)] in_NewDeck_joker
      deck_trick_card [OF assms(1)] assms(2,3) i(1) by metis
  moreover have "\<not> IsMighty g (pcCard (tCards t ! i))"
    using assms(4) i(1) by (simp add: joker_live_def)
  ultimately have "CalculatePower g (pcCard (tCards t ! i)) t (int (length (Tricks g))) \<le> 114"
    using CalculatePower_le [of g "pcCard (tCards t ! i)" t "int (length (Tricks g))"] by simp
  with assms(3,4) show "Beats g (pcCard (tCards t ! k)) (pcCard (tCards t ! i)) t"
    by (simp add: Beats_def Let_def CalculatePower_joker)
qed

text \<open>A joker without power loses to every other card.\<close>

lemma dead_joker_loses:
  assumes "c \<in> set NewDeck" "Rank c \<noteq> Joker" "Rank j = Joker" "\<not> joker_live g t"
  shows "Beats g c j t"
proof -
  have "2 \<le> CalculatePower g c t (int (length (Tricks g)))"
    using in_NewDeck_rank [OF assms(1,2)] assms(2) by (simp add: CalculatePower_def power_defs)
  with assms(3,4) show ?thesis by (simp add: Beats_def Let_def CalculatePower_joker)
qed

text \<open>
  In the first and the last trick, when it was called, and beside the mighty, the joker never
  takes the trick.
\<close>

lemma dead_joker_never_wins:
  assumes "deck_trick t" and "2 \<le> length (tCards t)" and "\<not> joker_live g t"
  shows "\<exists>w < length (tCards t). Rank (pcCard (tCards t ! w)) \<noteq> Joker \<and>
    ResolveTrick g t = Inr (pcSeat (tCards t ! w), filter IsPointCard (map pcCard (tCards t)))"
proof -
  have "tCards t \<noteq> []" using assms(2) by auto
  from ResolveTrick_spec [OF this, of g] obtain w where w: "w < length (tCards t)"
    and r: "ResolveTrick g t = Inr (pcSeat (tCards t ! w), filter IsPointCard (map pcCard (tCards t)))"
    and b: "\<And>i. i < length (tCards t) \<Longrightarrow> \<not> Beats g (pcCard (tCards t ! i)) (pcCard (tCards t ! w)) t"
    by blast
  have "Rank (pcCard (tCards t ! w)) \<noteq> Joker"
  proof
    assume j: "Rank (pcCard (tCards t ! w)) = Joker"
    obtain i where i: "i < length (tCards t)" "i \<noteq> w"
      using assms(2) by (metis One_nat_def Suc_1 Suc_le_lessD Zero_not_Suc less_trans zero_less_Suc)
    have "Rank (pcCard (tCards t ! i)) \<noteq> Joker"
      using deck_trick_neq [OF assms(1) i(1) w i(2)] in_NewDeck_joker
        deck_trick_card [OF assms(1)] w i(1) j by metis
    then show False
      using b [OF i(1)] dead_joker_loses [OF deck_trick_card [OF assms(1) i(1)] _ j assms(3)]
      by blast
  qed
  with w r show ?thesis by blast
qed

section \<open>Ordinary cards\<close>

text \<open>Neither the mighty nor a joker: the strength is read off suit and rank.\<close>

definition plain :: "Game \<Rightarrow> Card \<Rightarrow> bool" where
  "plain g c \<longleftrightarrow> \<not> IsMighty g c \<and> Rank c \<noteq> Joker"

lemma CalculatePower_plain:
  "plain g c \<Longrightarrow> CalculatePower g c t n =
     (if Suit c = Trump g then 100 + RankValue (Rank c)
      else if Suit c = LeadSuit t then 10 + RankValue (Rank c) else RankValue (Rank c))"
  by (simp add: plain_def CalculatePower_def power_defs)

lemma RankValue_inj:
  assumes "c \<in> set NewDeck" "c' \<in> set NewDeck" "Rank c \<noteq> Joker" "Rank c' \<noteq> Joker"
    and "RankValue (Rank c) = RankValue (Rank c')"
  shows "Rank c = Rank c'"
  using assms by (cases "Rank c"; cases "Rank c'") (auto simp: NewDeck_def in_deck)

text \<open>
  In a trick without the mighty and without a live joker, the highest trump wins.
\<close>

lemma highest_trump_wins_trick:
  assumes d: "deck_trick t" and k: "k < length (tCards t)"
    and no_mighty: "\<And>pc. pc \<in> set (tCards t) \<Longrightarrow> \<not> IsMighty g (pcCard pc)"
    and no_joker: "\<And>pc. pc \<in> set (tCards t) \<Longrightarrow> Rank (pcCard pc) = Joker \<Longrightarrow> \<not> joker_live g t"
    and trump: "Suit (pcCard (tCards t ! k)) = Trump g" "Rank (pcCard (tCards t ! k)) \<noteq> Joker"
    and highest: "\<And>pc. pc \<in> set (tCards t) \<Longrightarrow> Suit (pcCard pc) = Trump g \<Longrightarrow>
      RankValue (Rank (pcCard pc)) \<le> RankValue (Rank (pcCard (tCards t ! k)))"
  shows "ResolveTrick g t =
    Inr (pcSeat (tCards t ! k), filter IsPointCard (map pcCard (tCards t)))"
proof (rule ResolveTrick_dominant [OF k])
  fix i assume i: "i < length (tCards t)" "i \<noteq> k"
  let ?c = "pcCard (tCards t ! i)" and ?k = "pcCard (tCards t ! k)"
  have in_t: "tCards t ! i \<in> set (tCards t)" "tCards t ! k \<in> set (tCards t)" using i(1) k by simp_all
  have pk: "plain g ?k" using no_mighty in_t trump by (simp add: plain_def)
  show "Beats g ?k ?c t"
  proof (cases "Rank ?c = Joker")
    case True
    then show ?thesis
      using dead_joker_loses [OF deck_trick_card [OF d k] trump(2)] no_joker in_t(1) by blast
  next
    case False
    then have pc: "plain g ?c" using no_mighty in_t by (simp add: plain_def)
    have "RankValue (Rank ?c) < RankValue (Rank ?k)" if "Suit ?c = Trump g"
    proof -
      have "Rank ?c \<noteq> Rank ?k"
        using deck_trick_neq [OF d i(1) k i(2)] that trump(1)
        by (cases "?c"; cases "?k") auto
      then have "RankValue (Rank ?c) \<noteq> RankValue (Rank ?k)"
        using RankValue_inj deck_trick_card [OF d] i(1) k False trump(2) by blast
      with highest [OF in_t(1) that] show ?thesis by simp
    qed
    then show ?thesis
      using RankValue_bounds [of "Rank ?c"] RankValue_bounds [of "Rank ?k"] trump
      by (auto simp: Beats_def Let_def CalculatePower_plain [OF pk] CalculatePower_plain [OF pc])
  qed
qed

text \<open>
  In a trick without trumps (and without mighty or live joker) the highest card of the led suit
  wins, provided it ranks at least five: the bonus of ten points for following suit does not
  separate the lowest ranks from an off-suit ace.
\<close>

lemma highest_lead_wins_trick:
  assumes d: "deck_trick t" and k: "k < length (tCards t)"
    and no_mighty: "\<And>pc. pc \<in> set (tCards t) \<Longrightarrow> \<not> IsMighty g (pcCard pc)"
    and no_joker: "\<And>pc. pc \<in> set (tCards t) \<Longrightarrow> Rank (pcCard pc) = Joker \<Longrightarrow> \<not> joker_live g t"
    and no_trump: "\<And>pc. pc \<in> set (tCards t) \<Longrightarrow> Rank (pcCard pc) \<noteq> Joker \<Longrightarrow>
      Suit (pcCard pc) \<noteq> Trump g"
    and lead: "Suit (pcCard (tCards t ! k)) = LeadSuit t" "Rank (pcCard (tCards t ! k)) \<noteq> Joker"
    and highest: "\<And>pc. pc \<in> set (tCards t) \<Longrightarrow> Suit (pcCard pc) = LeadSuit t \<Longrightarrow>
      RankValue (Rank (pcCard pc)) \<le> RankValue (Rank (pcCard (tCards t ! k)))"
    and five: "5 \<le> RankValue (Rank (pcCard (tCards t ! k)))"
  shows "ResolveTrick g t =
    Inr (pcSeat (tCards t ! k), filter IsPointCard (map pcCard (tCards t)))"
proof (rule ResolveTrick_dominant [OF k])
  fix i assume i: "i < length (tCards t)" "i \<noteq> k"
  let ?c = "pcCard (tCards t ! i)" and ?k = "pcCard (tCards t ! k)"
  have in_t: "tCards t ! i \<in> set (tCards t)" "tCards t ! k \<in> set (tCards t)" using i(1) k by simp_all
  have pk: "plain g ?k" using no_mighty in_t lead by (simp add: plain_def)
  have nk: "Suit ?k \<noteq> Trump g" using no_trump [OF in_t(2)] lead by simp
  show "Beats g ?k ?c t"
  proof (cases "Rank ?c = Joker")
    case True
    then show ?thesis
      using dead_joker_loses [OF deck_trick_card [OF d k] lead(2)] no_joker in_t(1) by blast
  next
    case False
    then have pc: "plain g ?c" using no_mighty in_t by (simp add: plain_def)
    have "RankValue (Rank ?c) < RankValue (Rank ?k)" if "Suit ?c = LeadSuit t"
    proof -
      have "Rank ?c \<noteq> Rank ?k"
        using deck_trick_neq [OF d i(1) k i(2)] that lead(1)
        by (cases "?c"; cases "?k") auto
      then have "RankValue (Rank ?c) \<noteq> RankValue (Rank ?k)"
        using RankValue_inj deck_trick_card [OF d] i(1) k False lead(2) by blast
      with highest [OF in_t(1) that] show ?thesis by simp
    qed
    then show ?thesis
      using RankValue_bounds [of "Rank ?c"] five lead nk no_trump [OF in_t(1) False]
      by (auto simp: Beats_def Let_def CalculatePower_plain [OF pk] CalculatePower_plain [OF pc])
  qed
qed

text \<open>Which plain card overtakes which: exactly when an off-suit card beats a card that follows suit.\<close>

lemma offsuit_overtakes_lead:
  assumes "plain g c" "plain g l" "Suit c \<noteq> Trump g" "Suit l \<noteq> Trump g"
    and "Suit c \<noteq> LeadSuit t" "Suit l = LeadSuit t"
  shows "Beats g c l t \<longleftrightarrow> RankValue (Rank c) > 10 + RankValue (Rank l)"
  using assms by (auto simp: Beats_def Let_def CalculatePower_plain)

text \<open>
  C21. A led two or three loses to an off-suit ace. Whatever is trump (but not the led suit) and whatever else is
  played, the player who leads a two or a three does not take a trick in which an ace of another suit is
  played, although the rules let only a card of the led suit, a trump, the mighty or the joker win. And when nobody
  plays a trump, the mighty or the joker, and the others follow with twos and threes at most, the
  first off-suit ace takes the trick.
\<close>

theorem low_lead_loses_to_offsuit:
  assumes "tCards t = led # rest" "LeadSuit t = Suit (pcCard led)" "Suit (pcCard led) \<noteq> Trump g"
    and "Rank (pcCard led) = Two \<or> Rank (pcCard led) = Three"
    and "ace \<in> set rest" "Rank (pcCard ace) = Ace" "Suit (pcCard ace) \<noteq> LeadSuit t"
  shows "\<exists>w < length rest. ResolveTrick g t = Inr (pcSeat (rest ! w), filter IsPointCard (map pcCard (tCards t))) \<and>
    ((\<forall>pc \<in> set rest. plain g (pcCard pc) \<and> Suit (pcCard pc) \<noteq> Trump g \<and>
        (Suit (pcCard pc) = LeadSuit t \<longrightarrow> Rank (pcCard pc) = Two \<or> Rank (pcCard pc) = Three)) \<longrightarrow>
      Rank (pcCard (rest ! w)) = Ace \<and> Suit (pcCard (rest ! w)) \<noteq> LeadSuit t \<and>
      (\<forall>i < w. Rank (pcCard (rest ! i)) \<noteq> Ace))"
proof -
  let ?P = "\<lambda>pc. CalculatePower g (pcCard pc) t (int (length (Tricks g)))"
  have "tCards t \<noteq> []" using assms(1) by simp
  from ResolveTrick_spec [OF this, of g] obtain v where v: "v < length (tCards t)"
    and r: "ResolveTrick g t = Inr (pcSeat (tCards t ! v), filter IsPointCard (map pcCard (tCards t)))"
    and top: "\<And>pc. pc \<in> set (tCards t) \<Longrightarrow> ?P pc \<le> ?P (tCards t ! v)"
    and first: "\<And>i. i < v \<Longrightarrow> ?P (tCards t ! i) < ?P (tCards t ! v)"
    by (auto simp: Beats_def Let_def not_less in_set_conv_nth)
  have low: "?P led \<le> 13"
    using assms(2-4) by (auto simp: CalculatePower_def power_defs IsMighty_def)
  have high: "14 \<le> ?P ace"
    using assms(6,7) by (simp add: CalculatePower_def power_defs)
  have most: "14 \<le> ?P (tCards t ! v)" using top [of ace] high assms(1,5) by simp
  with low have "v \<noteq> 0" using assms(1) by (intro notI) simp
  then obtain w where w: "v = Suc w" by (cases v) auto
  have len: "w < length rest" and at: "tCards t ! v = rest ! w" using v w assms(1) by simp_all
  have aces: "Rank (pcCard pc) = Ace \<and> Suit (pcCard pc) \<noteq> LeadSuit t \<longleftrightarrow> 14 \<le> ?P pc" "?P pc \<le> 14"
    if "plain g (pcCard pc)" "Suit (pcCard pc) \<noteq> Trump g"
      "Suit (pcCard pc) = LeadSuit t \<longrightarrow> Rank (pcCard pc) = Two \<or> Rank (pcCard pc) = Three" for pc
    using that by (cases "Rank (pcCard pc)"; force simp: CalculatePower_plain)+
  have "Rank (pcCard (rest ! w)) = Ace \<and> Suit (pcCard (rest ! w)) \<noteq> LeadSuit t \<and>
      (\<forall>i < w. Rank (pcCard (rest ! i)) \<noteq> Ace)"
    if dull: "\<forall>pc \<in> set rest. plain g (pcCard pc) \<and> Suit (pcCard pc) \<noteq> Trump g \<and>
        (Suit (pcCard pc) = LeadSuit t \<longrightarrow> Rank (pcCard pc) = Two \<or> Rank (pcCard pc) = Three)"
  proof (intro conjI allI impI)
    have win: "rest ! w \<in> set rest" using len by simp
    then show "Rank (pcCard (rest ! w)) = Ace" "Suit (pcCard (rest ! w)) \<noteq> LeadSuit t"
      using aces(1) [of "rest ! w"] dull most at by auto
    fix i assume i: "i < w"
    then have "?P (rest ! i) < ?P (rest ! w)" using first [of "Suc i"] w assms(1) by simp
    also have "\<dots> \<le> 14" using aces(2) dull win by blast
    finally have small: "?P (rest ! i) < 14" .
    have "rest ! i \<in> set rest" using i len by simp
    then show "Rank (pcCard (rest ! i)) \<noteq> Ace" using aces(1) [of "rest ! i"] dull small by fastforce
  qed
  then show ?thesis using r at len by auto
qed

section \<open>Witnesses\<close>

text \<open>A five-player game in the middle of a round, with hearts as trump, and tricks to resolve.\<close>

definition demo_env :: Env where
  "demo_env = \<lparr>now = 0, draws = (\<lambda>i. i)\<rparr>"

definition demo_trick :: "Suit \<Rightarrow> Card list \<Rightarrow> Trick" where
  "demo_trick lead cs = \<lparr>tCards = map (\<lambda>(i, c). \<lparr>pcPlayerID = [], pcSeat = int i, pcCard = c\<rparr>) (enumerate 0 cs),
     LeadSuit = lead, Winner = 0, JokerCalled = False\<rparr>"

definition demo_game :: "Suit \<Rightarrow> nat \<Rightarrow> Game" where
  "demo_game trump n = (NewGame demo_env ''demo'')\<lparr>Trump := trump,
     Tricks := replicate n (demo_trick EmptySuit [])\<rparr>"

lemmas demo_defs = demo_game_def demo_trick_def demo_env_def NewGame_def NewWithConfig_def
  DefaultConfig_def

theorem mighty_wins_trick_witness:
  "ResolveTrick (demo_game Hearts 3)
     (demo_trick Clubs [mkCard Clubs Ace, mkCard NoneSuit Joker, mkCard Spades Ace]) =
   Inr (2, [mkCard Clubs Ace, mkCard Spades Ace])"
  using mighty_wins_trick [of "demo_trick Clubs [mkCard Clubs Ace, mkCard NoneSuit Joker, mkCard Spades Ace]" 2
    "demo_game Hearts 3"]
  by (simp add: demo_defs IsMighty_def IsPointCard_def)

theorem live_joker_wins_trick_witness:
  "ResolveTrick (demo_game Hearts 3)
     (demo_trick Clubs [mkCard Clubs Ace, mkCard NoneSuit Joker, mkCard Hearts Ace]) =
   Inr (1, [mkCard Clubs Ace, mkCard Hearts Ace])"
  using live_joker_wins_trick [of "demo_trick Clubs [mkCard Clubs Ace, mkCard NoneSuit Joker, mkCard Hearts Ace]" 1
    "demo_game Hearts 3"]
  by (simp add: demo_defs IsMighty_def IsPointCard_def joker_live_def deck_trick_def NewDeck_def
    in_deck deck_skips_def)

theorem dead_joker_never_wins_witness:
  "\<exists>w < 2. Rank (pcCard (tCards (demo_trick Clubs [mkCard NoneSuit Joker, mkCard Clubs Two]) ! w)) \<noteq> Joker \<and>
     ResolveTrick (demo_game Hearts 10) (demo_trick Clubs [mkCard NoneSuit Joker, mkCard Clubs Two]) =
     Inr (pcSeat (tCards (demo_trick Clubs [mkCard NoneSuit Joker, mkCard Clubs Two]) ! w), [])"
  using dead_joker_never_wins [of "demo_trick Clubs [mkCard NoneSuit Joker, mkCard Clubs Two]"
    "demo_game Hearts 10"]
  by (simp add: demo_defs IsPointCard_def joker_live_def deck_trick_def NewDeck_def
    in_deck deck_skips_def numeral_2_eq_2)

theorem highest_trump_wins_trick_witness:
  "ResolveTrick (demo_game Hearts 3)
     (demo_trick Clubs [mkCard Clubs Ace, mkCard Hearts Two, mkCard Hearts Ten]) =
   Inr (2, [mkCard Clubs Ace, mkCard Hearts Ten])"
  by (rule trans [OF highest_trump_wins_trick [where k = 2]])
     (auto simp: demo_defs IsMighty_def IsPointCard_def deck_trick_def NewDeck_def in_deck
       deck_skips_def)

theorem highest_lead_wins_trick_witness:
  "ResolveTrick (demo_game Hearts 3)
     (demo_trick Clubs [mkCard Clubs Five, mkCard Spades King, mkCard Clubs Four]) =
   Inr (0, [mkCard Spades King])"
  by (rule trans [OF highest_lead_wins_trick [where k = 0]])
     (auto simp: demo_defs IsMighty_def IsPointCard_def deck_trick_def NewDeck_def in_deck
       deck_skips_def)

theorem low_lead_loses_to_offsuit_witness:
  "\<exists>w < 4. ResolveTrick (demo_game Spades 3)
     (demo_trick Hearts [mkCard Hearts Two, mkCard Hearts Three, mkCard Clubs Ace, mkCard Clubs Six, mkCard Clubs Seven]) =
   Inr (int w + 1, [mkCard Clubs Ace]) \<and> w = 1"
proof -
  let ?c = "\<lambda>i c. \<lparr>pcPlayerID = [], pcSeat = i, pcCard = c\<rparr>"
  let ?rest = "[?c 1 (mkCard Hearts Three), ?c 2 (mkCard Clubs Ace), ?c 3 (mkCard Clubs Six), ?c 4 (mkCard Clubs Seven)]"
  let ?t = "demo_trick Hearts [mkCard Hearts Two, mkCard Hearts Three, mkCard Clubs Ace, mkCard Clubs Six, mkCard Clubs Seven]"
  have t: "tCards ?t = ?c 0 (mkCard Hearts Two) # ?rest" by (simp add: demo_defs)
  have pl: "\<forall>pc \<in> set ?rest. plain (demo_game Spades 3) (pcCard pc) \<and> Suit (pcCard pc) \<noteq> Trump (demo_game Spades 3) \<and>
      (Suit (pcCard pc) = LeadSuit ?t \<longrightarrow> Rank (pcCard pc) = Two \<or> Rank (pcCard pc) = Three)"
    by (simp add: demo_defs plain_def IsMighty_def)
  obtain w where w: "w < length ?rest" "ResolveTrick (demo_game Spades 3) ?t =
      Inr (pcSeat (?rest ! w), filter IsPointCard (map pcCard (tCards ?t)))" "Rank (pcCard (?rest ! w)) = Ace"
    using low_lead_loses_to_offsuit [OF t, of "demo_game Spades 3" "?c 2 (mkCard Clubs Ace)"] pl
    by (auto simp: demo_defs)
  then have "w = 1" by (auto simp: less_Suc_eq)
  then show ?thesis using w(2) by (intro exI [of _ 1]) (simp add: demo_defs IsPointCard_def)
qed

theorem ResolveTrick_correct_witness:
  "\<exists>w < 3. ResolveTrick (demo_game Hearts 1)
       (demo_trick Clubs [mkCard Clubs Five, mkCard Clubs King, mkCard Spades King]) =
     Inr (pcSeat (tCards (demo_trick Clubs [mkCard Clubs Five, mkCard Clubs King, mkCard Spades King]) ! w),
       [mkCard Clubs King, mkCard Spades King])"
  using ResolveTrick_correct [of "demo_trick Clubs [mkCard Clubs Five, mkCard Clubs King, mkCard Spades King]"
    "demo_game Hearts 1"]
  by (auto simp: demo_defs IsPointCard_def numeral_3_eq_3)

end
