(* ===== verification/Validate.thy ===== *)
theory Validate
  imports TrickRules
begin

text \<open>
  internal/game/rules.go, \<^verbatim>\<open>ValidateMove\<close> and its per-move validators, with the queries on a
  player's hand they use. Each validator is the chain of guards of the Go function in the same
  order; \<open>None\<close> is Go's \<^verbatim>\<open>nil\<close>.
\<close>

section \<open>Payloads\<close>

text \<open>
  A generic JSON value, as \<^verbatim>\<open>encoding/json\<close> decodes it into \<^verbatim>\<open>any\<close>. A number is a \<^verbatim>\<open>float64\<close> there;
  \<open>JNum n\<close> is one that marshalling writes as the integer \<open>n\<close>, \<open>JFloat\<close> any other. The fields of an
  object are in the order in which marshalling writes them.
\<close>

datatype json = JNull | JBool bool | JNum int | JFloat | JStr string | JArr "json list"
  | JObj "(string \<times> json) list"

text \<open>The dynamic type of a move's \<^verbatim>\<open>payload any\<close>.\<close>

datatype payload = PNil | PBid Bid | PCards "Card list" | PCard Card
  | PCallPartner CallPartnerMove | PPlayCard PlayCardMove | PChangeConfig ChangeConfigMove
  | PJson json

section \<open>Queries on a hand\<close>

definition HasCard :: "Player \<Rightarrow> Card \<Rightarrow> bool" where
  "HasCard p c = list_ex (\<lambda>h. Suit h = Suit c \<and> Rank h = Rank c) (Hand p)"

definition HasRank :: "Player \<Rightarrow> Rank \<Rightarrow> bool" where
  "HasRank p r = list_ex (\<lambda>c. Rank c = r) (Hand p)"

definition HasSuit :: "Player \<Rightarrow> Suit \<Rightarrow> bool" where
  "HasSuit p s = list_ex (\<lambda>c. Suit c = s) (Hand p)"

definition HasNonTrump :: "Player \<Rightarrow> Suit \<Rightarrow> bool" where
  "HasNonTrump p trump = list_ex (\<lambda>c. Suit c \<noteq> trump \<and> Rank c \<noteq> Joker) (Hand p)"

definition HasMighty :: "Player \<Rightarrow> Game \<Rightarrow> bool" where
  "HasMighty p g = list_ex (\<lambda>c. IsMighty g c) (Hand p)"

definition HasNonTrumpMightyJoker :: "Player \<Rightarrow> Game \<Rightarrow> bool" where
  "HasNonTrumpMightyJoker p g =
     list_ex (\<lambda>c. Suit c \<noteq> Trump g \<and> \<not> IsMighty g c \<and> Rank c \<noteq> Joker) (Hand p)"

definition GetSuitCount :: "Player \<Rightarrow> Suit \<Rightarrow> int" where
  "GetSuitCount p s = int (length (filter (\<lambda>c. Suit c = s) (Hand p)))"

section \<open>Lookup of a player by ID\<close>

text \<open>The index of the first player with the ID: the pointer that \<^verbatim>\<open>GetPlayer\<close> returns.\<close>

fun find_player :: "int \<Rightarrow> Player option list \<Rightarrow> string \<Rightarrow> int option" where
  "find_player i [] uid = None"
| "find_player i (None # ps) uid = find_player (i + 1) ps uid"
| "find_player i (Some p # ps) uid = (if pID p = uid then Some i else find_player (i + 1) ps uid)"

definition GetPlayer :: "Game \<Rightarrow> string \<Rightarrow> int option" where
  "GetPlayer g uid = find_player 0 (Players g) uid"

section \<open>Tables\<close>

fun suitRank :: "Suit \<Rightarrow> int option" where
  "suitRank Clubs = Some 1"
| "suitRank Diamonds = Some 2"
| "suitRank Hearts = Some 3"
| "suitRank Spades = Some 4"
| "suitRank _ = None"

definition validRanks :: "Rank \<Rightarrow> bool" where
  "validRanks r = (r \<in> set [Ace, King, Queen, Jack, Ten, Nine, Eight, Seven, Six, Five, Four,
     Three, Two])"

section \<open>Validators\<close>

text \<open>\<^verbatim>\<open>g.Players[i].ID != id\<close>, with the error the caller returns in that case.\<close>

definition check_id :: "Game \<Rightarrow> int \<Rightarrow> string \<Rightarrow> string \<Rightarrow> Err option \<Rightarrow> Err option" where
  "check_id g i uid msg continue =
     (case player_at g i of
        Inl e \<Rightarrow> Some e
      | Inr q \<Rightarrow> if pID q \<noteq> uid then Some (InvalidMove msg) else continue)"

definition validateBid :: "Game \<Rightarrow> Player \<Rightarrow> payload \<Rightarrow> Err option" where
  "validateBid g p pl =
     (if Status g \<noteq> PhaseBidding then Some (InvalidMove ''not in bidding phase'')
      else case pl of
        PBid bid \<Rightarrow>
          check_id g (CurrentTurn g) (pID p) ''not your turn to bid''
            (if bPoints bid < minBidPoints g \<or> bPoints bid > 10
             then Some (InvalidMove
               (''bid points must be between '' @ itoa (nat (minBidPoints g)) @ '' and 10''))
             else if IsNoTrump bid \<and> bSuit bid \<noteq> NoneSuit
             then Some (InvalidMove (''no-trump bids must use suit 'none'' @ [CHR 0x27]))
             else if \<not> IsNoTrump bid \<and> suitRank (bSuit bid) = None
             then Some (InvalidMove ''invalid bid suit'')
             else (case CurrentBid g of
                 None \<Rightarrow> None
               | Some cur \<Rightarrow>
                   if bPoints bid \<le> bPoints cur
                   then Some (InvalidMove ''bid must be strictly higher than current bid'')
                   else None))
      | _ \<Rightarrow> Some (PlainError ''invalid payload for bid''))"

definition validatePass :: "Game \<Rightarrow> Player \<Rightarrow> Err option" where
  "validatePass g p =
     (if Status g \<noteq> PhaseBidding then Some (InvalidMove ''not in bidding phase'')
      else check_id g (CurrentTurn g) (pID p) ''not your turn to pass'' None)"

definition validateDiscard :: "Game \<Rightarrow> Player \<Rightarrow> payload \<Rightarrow> Err option" where
  "validateDiscard g p pl =
     (if Status g \<noteq> PhaseExchanging then Some (InvalidMove ''not in exchanging phase'')
      else check_id g (Declarer g) (pID p) ''only declarer can discard''
        (case pl of
           PCards cards \<Rightarrow>
             if length cards \<noteq> 3 then Some (InvalidMove ''must discard exactly 3 cards'')
             else (case find (\<lambda>c. \<not> HasCard p c) cards of
                 Some c \<Rightarrow> Some (InvalidMove (''do not hold card '' @ Card_String c))
               | None \<Rightarrow> None)
         | _ \<Rightarrow> Some (PlainError ''invalid payload for discard'')))"

definition asCallPartnerMove :: "payload \<Rightarrow> Err + CallPartnerMove" where
  "asCallPartnerMove pl =
     (case pl of
        PCallPartner v \<Rightarrow> Inr v
      | PCard v \<Rightarrow> Inr \<lparr>cpCard = Some v, NoFriend = False\<rparr>
      | _ \<Rightarrow> Inl (PlainError ''invalid payload for partner call''))"

definition validateCallPartner :: "Game \<Rightarrow> Player \<Rightarrow> payload \<Rightarrow> Err option" where
  "validateCallPartner g p pl =
     (if Status g \<noteq> PhaseCalling then Some (InvalidMove ''not in calling phase'')
      else check_id g (Declarer g) (pID p) ''only declarer call partner''
        (case asCallPartnerMove pl of
           Inl e \<Rightarrow> Some e
         | Inr move \<Rightarrow>
             if cpCard move \<noteq> None \<and> NoFriend move
             then Some (InvalidMove ''choose a card or no_friend, not both'')
             else if cpCard move = None \<and> \<not> NoFriend move
             then Some (InvalidMove ''call_partner requires a card or no_friend'')
             else (case cpCard move of
                 None \<Rightarrow> None
               | Some c \<Rightarrow>
                   if Suit c = NoneSuit \<and> Rank c = Joker then
                     (if NumPlayers (Config g) = 4 \<and> \<not> AllowJokerPartner (Config g)
                      then Some (InvalidMove
                        ''joker may not be called as partner in this game'')
                      else None)
                   else if suitRank (Suit c) = None \<or> \<not> validRanks (Rank c)
                   then Some (InvalidMove ''invalid partner card'')
                   else None)))"

text \<open>The two accepted payload shapes of a card play.\<close>

definition asPlayCardMove :: "payload \<Rightarrow> PlayCardMove option" where
  "asPlayCardMove pl =
     (case pl of
        PPlayCard m \<Rightarrow> Some m
      | PCard c \<Rightarrow> Some \<lparr>pmCard = c, CallJoker = False, CalledSuit = EmptySuit\<rparr>
      | _ \<Rightarrow> None)"

text \<open>Late-game forcing of the special cards (step 0) and the joker call (step 1).\<close>

definition check_forced :: "Game \<Rightarrow> Player \<Rightarrow> Trick \<Rightarrow> Card \<Rightarrow> Err option" where
  "check_forced g p t c =
     (let cardsLeft = length (Hand p);
          hasMighty = HasMighty p g;
          hasJoker = HasRank p Joker;
          isPlayingMightyOrJoker = (IsMighty g c \<or> Rank c = Joker)
      in if cardsLeft = 3 \<and> hasMighty \<and> hasJoker \<and> \<not> isPlayingMightyOrJoker
         then Some (InvalidMove ''must play mighty or joker on 3rd to last trick'')
         else if cardsLeft = 2 \<and> (hasMighty \<or> hasJoker) \<and> \<not> isPlayingMightyOrJoker
         then Some (InvalidMove ''must play mighty or joker on 2nd to last trick'')
         else if JokerCalled t \<and> HasRank p Joker \<and> Rank c \<noteq> Joker \<and> \<not> IsMighty g c
         then Some (InvalidMove ''joker called, must play joker or mighty'')
         else None)"

text \<open>The leading rules (step 2).\<close>

definition check_lead :: "Game \<Rightarrow> Player \<Rightarrow> PlayCardMove \<Rightarrow> Err option" where
  "check_lead g p m =
     (let c = pmCard m; first = (length (Tricks g) = 1) in
      if first \<and> Rank c = Joker
      then Some (InvalidMove ''cannot lead joker on first trick'')
      else if first \<and> IsMighty g c
      then Some (InvalidMove ''cannot lead mighty on first trick'')
      else if first \<and> Suit c = Trump g \<and> HasNonTrumpMightyJoker p g
      then Some (InvalidMove
        ''cannot lead trump on first trick unless holding only trump/special cards'')
      else if Rank c = Joker \<and> suitRank (CalledSuit m) = None
      then Some (InvalidMove ''joker lead requires called_suit'')
      else if Rank c \<noteq> Joker \<and> CalledSuit m \<noteq> EmptySuit
      then Some (InvalidMove ''called_suit only valid when leading the joker'')
      else if CallJoker m \<and> \<not> IsJokerCaller g c
      then Some (InvalidMove ''only joker caller can call joker'')
      else if CallJoker m \<and> (length (Tricks g) = 1 \<or> length (Tricks g) = 10)
      then Some (InvalidMove ''cannot call joker on first or last trick'')
      else None)"

text \<open>The following rules (step 3).\<close>

definition check_follow :: "Game \<Rightarrow> Player \<Rightarrow> Trick \<Rightarrow> PlayCardMove \<Rightarrow> Err option" where
  "check_follow g p t m =
     (let c = pmCard m; lead = LeadSuit t; first = (length (Tricks g) = 1) in
      if CalledSuit m \<noteq> EmptySuit
      then Some (InvalidMove ''called_suit only valid when leading the joker'')
      else if first \<and> Rank c = Joker
      then Some (InvalidMove ''cannot play joker on first trick'')
      else if first \<and> IsMighty g c \<and> (lead \<noteq> Suit c \<or> GetSuitCount p lead > 1)
      then Some (InvalidMove
        ''cannot play mighty on first trick unless it is your only card of the led suit'')
      else if Suit c \<noteq> lead then
        (if IsMighty g c \<or> Rank c = Joker then None
         else if HasSuit p lead
         then Some (InvalidMove (''must follow suit '' @ suit_string lead))
         else None)
      else None)"

definition validatePlayCard :: "Game \<Rightarrow> Player \<Rightarrow> payload \<Rightarrow> Err option" where
  "validatePlayCard g p pl =
     (if Status g \<noteq> PhasePlaying then Some (InvalidMove ''not in playing phase'')
      else check_id g (CurrentTurn g) (pID p) ''not your turn''
        (case asPlayCardMove pl of
           None \<Rightarrow> Some (PlainError ''invalid payload for play card'')
         | Some move \<Rightarrow>
             if \<not> HasCard p (pmCard move)
             then Some (InvalidMove (''do not hold card '' @ Card_String (pmCard move)))
             else if Tricks g = [] then Some (PlainError ''no active trick'')
             else (let t = last (Tricks g) in
               case check_forced g p t (pmCard move) of
                 Some e \<Rightarrow> Some e
               | None \<Rightarrow> if tCards t = [] then check_lead g p move
                         else check_follow g p t move)))"

definition ValidateMove :: "Game \<Rightarrow> string \<Rightarrow> MoveType \<Rightarrow> payload \<Rightarrow> Err option" where
  "ValidateMove g playerID moveType pl =
     (case GetPlayer g playerID of
        None \<Rightarrow> Some (InvalidMove ''player not in game'')
      | Some i \<Rightarrow>
          (case player_at g i of
             Inl e \<Rightarrow> Some e
           | Inr p \<Rightarrow>
               (let dispatch =
                  (case moveType of
                     MoveBid \<Rightarrow> validateBid g p pl
                   | MovePass \<Rightarrow> validatePass g p
                   | MoveDiscard \<Rightarrow> validateDiscard g p pl
                   | MoveCallPartner \<Rightarrow> validateCallPartner g p pl
                   | MovePlayCard \<Rightarrow> validatePlayCard g p pl
                   | MovePlayAgain \<Rightarrow>
                       if Status g \<noteq> PhaseFinished
                       then Some (InvalidMove ''not in finished phase'') else None
                   | MoveChangeConfig \<Rightarrow>
                       if Status g \<noteq> PhaseFinished
                       then Some (InvalidMove ''not in finished phase'') else None
                   | OtherMove s \<Rightarrow> Some (PlainError ''unknown move type''))
                in if Status g = PhasePlaying
                   then check_id g (CurrentTurn g) playerID ''not your turn'' dispatch
                   else dispatch)))"

end
