(* ===== verification/Scoring.thy ===== *)
theory Scoring
  imports TrickRules
begin

text \<open>internal/game/rules.go, \<^verbatim>\<open>CalculateFinalScore\<close>: the signed result of a round, per seat.\<close>

section \<open>The computation\<close>

definition partnerPresent :: "Game \<Rightarrow> bool" where
  "partnerPresent g = (friendSeat g \<ge> 0 \<and> friendSeat g \<noteq> Declarer g)"

definition onTeam :: "Game \<Rightarrow> int \<Rightarrow> bool" where
  "onTeam g seat = (seat = Declarer g \<or> (partnerPresent g \<and> seat = friendSeat g))"

text \<open>The tally loop: the team's captured scoring cards \<open>p\<close> and the number of opponents.\<close>

definition teamPoints :: "Game \<Rightarrow> int" where
  "teamPoints g =
     sum_list (map (\<lambda>(seat, player). if onTeam g seat then int (length (Points player)) else 0)
       (seated g))"

definition oppCount :: "Game \<Rightarrow> int" where
  "oppCount g = int (length (filter (\<lambda>(seat, player). \<not> onTeam g seat) (seated g)))"

text \<open>The stake \<open>s\<close> before and after the four doublings.\<close>

definition baseStake :: "Game \<Rightarrow> Bid \<Rightarrow> int" where
  "baseStake g contract =
     (let p = teamPoints g; target = bPoints contract + 10
      in if p \<ge> target then 2 * (bPoints contract - minBidPoints g) + (p - target) else target - p)"

definition stake :: "Game \<Rightarrow> Bid \<Rightarrow> int" where
  "stake g contract =
     (let p = teamPoints g;
          s0 = baseStake g contract;
          s1 = (if p = 20 then s0 * 2 else s0);
          s2 = (if 20 - p \<ge> 11 then s1 * 2 else s1);
          s3 = (if IsNoTrump contract then s2 * 2 else s2)
      in if IsNoFriend g then s3 * 2 else s3)"

definition roundWon :: "Game \<Rightarrow> Bid \<Rightarrow> bool" where
  "roundWon g contract = (teamPoints g \<ge> bPoints contract + 10)"

definition specialSplit :: "Game \<Rightarrow> Bid \<Rightarrow> bool" where
  "specialSplit g contract =
     (\<not> roundWon g contract \<and> partnerPresent g \<and> NumPlayers (Config g) = 4 \<and>
      (FailDistribution (Config g) = FailDeclarerAlone \<or>
       FailDistribution (Config g) = FailTwoOneSplit))"

text \<open>
  \<open>(declarerPay, partnerPay, oppGain)\<close> of the special split. (\<open>s\<close> is not negative there, so Go's
  truncating \<^verbatim>\<open>/ 2\<close> is \<open>div 2\<close>.)
\<close>

definition specialPays :: "Game \<Rightarrow> int \<Rightarrow> int \<times> int \<times> int" where
  "specialPays g s =
     (if FailDistribution (Config g) = FailDeclarerAlone then (2 * s, 0, s)
      else (let oppGain = (3 * s + 1) div 2; partnerPay = s
            in (2 * oppGain - partnerPay, partnerPay, oppGain)))"

definition seatScore :: "Game \<Rightarrow> Bid \<Rightarrow> int \<Rightarrow> int" where
  "seatScore g contract seat =
     (let s = stake g contract; fs = friendSeat g in
      if specialSplit g contract then
        (let (declarerPay, partnerPay, oppGain) = specialPays g s in
         if seat = Declarer g then - declarerPay
         else if seat = fs then - partnerPay
         else oppGain)
      else
        (let sgn = (if roundWon g contract then 1 else -1);
             partnerShare = (if partnerPresent g then s else 0) in
         if seat = Declarer g then sgn * (oppCount g * s - partnerShare)
         else if partnerPresent g \<and> seat = fs then sgn * s
         else - sgn * s))"

definition CalculateFinalScore :: "Game \<Rightarrow> (int, int) gomap" where
  "CalculateFinalScore g =
     (case Contract g of
        None \<Rightarrow> []
      | Some contract \<Rightarrow> map (\<lambda>(seat, player). (seat, seatScore g contract seat)) (seated g))"

section \<open>Sums over the seats\<close>

lemma seated_from_seats: "fst ` set (seated_from i ps) \<subseteq> {i..< i + int (length ps)}"
  by (induction i ps rule: seated_from.induct) auto

lemma seated_from_distinct: "distinct (map fst (seated_from i ps))"
proof (induction i ps rule: seated_from.induct)
  case (3 i p ps)
  have "i \<notin> fst ` set (seated_from (i + 1) ps)" using seated_from_seats [of "i + 1" ps] by auto
  with 3 show ?case by simp
qed simp_all

lemma seated_distinct: "distinct (map fst (seated g))"
  by (simp add: seated_def seated_from_distinct)

lemma sum_three_way:
  fixes a b c :: int
  assumes "distinct ks" "d \<in> set ks" "pp \<Longrightarrow> f \<in> set ks \<and> f \<noteq> d"
  shows "sum_list (map (\<lambda>k. if k = d then a else if pp \<and> k = f then b else c) ks) =
    a + (if pp then b else 0) + int (length (filter (\<lambda>k. \<not> (k = d \<or> pp \<and> k = f)) ks)) * c"
proof -
  let ?h = "\<lambda>k. if k = d then a else if pp \<and> k = f then b else c"
  let ?T = "if pp then {d, f} else {d}"
  have len: "length (filter (\<lambda>k. \<not> (k = d \<or> pp \<and> k = f)) ks) = card (set ks - ?T)"
    using assms(1) by (subst distinct_card [symmetric]) (auto intro: arg_cong [where f = card])
  have "?T \<subseteq> set ks" using assms(2,3) by auto
  then have "sum ?h (set ks) = sum ?h ?T + sum ?h (set ks - ?T)"
    by (simp add: sum.subset_diff)
  also have "sum ?h (set ks - ?T) = sum (\<lambda>_. c) (set ks - ?T)"
    by (rule sum.cong) (auto split: if_splits)
  also have "sum ?h ?T = a + (if pp then b else 0)" using assms(3) by auto
  finally show ?thesis
    using assms(1) len by (simp add: sum_list_distinct_conv_sum_set)
qed

definition taken :: "Game \<Rightarrow> int \<Rightarrow> bool" where
  "taken g seat \<longleftrightarrow> seat \<in> fst ` set (seated g)"

lemma oppCount_keys:
  "oppCount g = int (length (filter (\<lambda>k. \<not> (k = Declarer g \<or> partnerPresent g \<and> k = friendSeat g))
     (map fst (seated g))))"
  by (simp add: oppCount_def onTeam_def filter_map o_def split_def)

lemma scores_sum:
  assumes "Contract g = Some b" "taken g (Declarer g)" "partnerPresent g \<Longrightarrow> taken g (friendSeat g)"
    and f: "\<And>k. seatScore g b k = (if k = Declarer g then x
        else if partnerPresent g \<and> k = friendSeat g then y else z)"
  shows "sum_list (map snd (CalculateFinalScore g)) =
    x + (if partnerPresent g then y else 0) + oppCount g * z"
proof -
  have "sum_list (map snd (CalculateFinalScore g)) =
    sum_list (map (\<lambda>k. if k = Declarer g then x
        else if partnerPresent g \<and> k = friendSeat g then y else z) (map fst (seated g)))"
    using assms(1) by (simp add: CalculateFinalScore_def f split_def o_def)
  also have "\<dots> = x + (if partnerPresent g then y else 0) + oppCount g * z"
    unfolding oppCount_keys
    by (rule sum_three_way)
       (use assms(2,3) seated_distinct in \<open>auto simp: taken_def partnerPresent_def\<close>)
  finally show ?thesis .
qed

lemma seatScore_standard:
  "\<not> specialSplit g b \<Longrightarrow> seatScore g b k =
    (let s = stake g b; sgn = (if roundWon g b then 1 else -1) in
     if k = Declarer g then sgn * (oppCount g * s - (if partnerPresent g then s else 0))
     else if partnerPresent g \<and> k = friendSeat g then sgn * s else - sgn * s)"
  by (auto simp: seatScore_def Let_def)

lemma seatScore_special:
  "specialSplit g b \<Longrightarrow> specialPays g (stake g b) = (dp, pp, og) \<Longrightarrow>
   seatScore g b k = (if k = Declarer g then - dp
     else if partnerPresent g \<and> k = friendSeat g then - pp else og)"
  by (auto simp: seatScore_def Let_def specialSplit_def)

lemma specialPays_balance: "specialPays g s = (dp, pp, og) \<Longrightarrow> dp + pp = 2 * og"
  by (auto simp: specialPays_def Let_def split: if_splits)

lemma scores_sum_standard:
  assumes "Contract g = Some b" "taken g (Declarer g)" "partnerPresent g \<Longrightarrow> taken g (friendSeat g)"
    and "\<not> specialSplit g b"
  shows "sum_list (map snd (CalculateFinalScore g)) = 0"
  by (subst scores_sum [OF assms(1,2,3)], assumption, unfold seatScore_standard [OF assms(4)] Let_def,
      rule refl) (simp add: algebra_simps)

lemma scores_sum_special:
  assumes "Contract g = Some b" "taken g (Declarer g)" "partnerPresent g \<Longrightarrow> taken g (friendSeat g)"
    and "specialSplit g b" "specialPays g (stake g b) = (dp, pp, og)"
  shows "sum_list (map snd (CalculateFinalScore g)) = (oppCount g - 2) * og"
proof -
  have "sum_list (map snd (CalculateFinalScore g)) =
      - dp + (if partnerPresent g then - pp else 0) + oppCount g * og"
    by (rule scores_sum [OF assms(1,2,3) seatScore_special [OF assms(4,5)]])
  moreover have "partnerPresent g" using assms(4) by (simp add: specialSplit_def)
  ultimately show ?thesis using specialPays_balance [OF assms(5)] by (simp add: algebra_simps)
qed

text \<open>
  A round is zero-sum: when declarer and friend sit at the table, and the four-player failure
  splits are applied to exactly two opponents, the seat scores add up to zero.
\<close>

lemma final_score_zero_sum:
  assumes "Contract g = Some b" "taken g (Declarer g)" "partnerPresent g \<Longrightarrow> taken g (friendSeat g)"
    and "specialSplit g b \<Longrightarrow> oppCount g = 2"
  shows "sum_list (map snd (CalculateFinalScore g)) = 0"
proof (cases "specialSplit g b")
  case True
  obtain dp pp og where "specialPays g (stake g b) = (dp, pp, og)" by (rule prod_cases3)
  from scores_sum_special [OF assms(1,2,3) True this] assms(4) [OF True] show ?thesis by simp
next
  case False
  from scores_sum_standard [OF assms(1,2,3) False] show ?thesis .
qed

section \<open>The stake\<close>

lemma baseStake_bounds:
  assumes "0 \<le> teamPoints g" "teamPoints g \<le> 20" "minBidPoints g \<le> bPoints b" "bPoints b \<le> 10"
  shows "0 \<le> baseStake g b"
    and "roundWon g b \<Longrightarrow> baseStake g b \<le> 14"
    and "baseStake g b \<le> 20"
    and "\<not> roundWon g b \<Longrightarrow> 1 \<le> baseStake g b"
  using assms by (auto simp: baseStake_def roundWon_def Let_def minBidPoints_def split: if_splits)

lemma stake_bounds:
  assumes "0 \<le> teamPoints g" "teamPoints g \<le> 20" "minBidPoints g \<le> bPoints b" "bPoints b \<le> 10"
  shows "0 \<le> stake g b" "stake g b \<le> 160" "\<not> roundWon g b \<Longrightarrow> 1 \<le> stake g b"
  using baseStake_bounds [OF assms] by (auto simp: stake_def Let_def)

lemma stake_loss_even_pos: 
  assumes "0 \<le> teamPoints g" "teamPoints g \<le> 20" "minBidPoints g \<le> bPoints b" "bPoints b \<le> 10"
   "\<not> roundWon g b"
  shows "0 < stake g b"
  using stake_bounds(3) [OF assms] by simp

lemma length_seated_from: "length (seated_from i ps) \<le> length ps"
  by (induction i ps rule: seated_from.induct) auto

lemma oppCount_bounds:
  assumes "length (Players g) = 5" "taken g (Declarer g)"
  shows "0 \<le> oppCount g" "oppCount g \<le> 4"
proof -
  obtain x where "x \<in> set (seated g)" "onTeam g (fst x)"
    using assms(2) by (force simp: taken_def onTeam_def)
  then have "length (filter (\<lambda>(seat, player). \<not> onTeam g seat) (seated g)) < length (seated g)"
    by (intro length_filter_less [of x]) (auto simp: split_def)
  moreover have "length (seated g) \<le> 5"
    using length_seated_from [of 0 "Players g"] assms(1) by (simp add: seated_def)
  ultimately show "oppCount g \<le> 4" by (simp add: oppCount_def)
qed (simp add: oppCount_def)

text \<open>
  No seat wins or loses more than 640 in a round, so a score never comes near the limits of a
  machine integer.
\<close>

lemma final_score_bounded:
  assumes "Contract g = Some b" "taken g (Declarer g)" "length (Players g) = 5"
    and "0 \<le> teamPoints g" "teamPoints g \<le> 20" "minBidPoints g \<le> bPoints b" "bPoints b \<le> 10"
  shows "\<forall>(seat, score) \<in> set (CalculateFinalScore g). \<bar>score\<bar> \<le> 640"
proof -
  note s = stake_bounds(1,2) [OF assms(4-7)]
  note o = oppCount_bounds [OF assms(3,2)]
  have "\<bar>seatScore g b k\<bar> \<le> 640" for k
  proof (cases "specialSplit g b")
    case True
    then show ?thesis
      using s by (auto simp: seatScore_def Let_def specialPays_def split: if_splits)
  next
    case False
    have "oppCount g * stake g b \<le> 4 * 160" "0 \<le> oppCount g * stake g b"
      using s o by (intro mult_mono, simp_all)
    moreover have "\<bar>oppCount g * stake g b - stake g b\<bar> \<le> 640"
    proof -
      have "\<bar>(oppCount g - 1) * stake g b\<bar> \<le> 3 * 160"
        unfolding abs_mult using s o by (intro mult_mono) auto
      then show ?thesis by (simp add: algebra_simps)
    qed
    ultimately show ?thesis
      using s by (auto simp: seatScore_standard [OF False] Let_def abs_mult)
  qed
  with assms(1) show ?thesis by (auto simp: CalculateFinalScore_def)
qed

lemma oppCount_seats:
  assumes "taken g (Declarer g)" "partnerPresent g \<Longrightarrow> taken g (friendSeat g)"
  shows "oppCount g = int (length (seated g)) - (if partnerPresent g then 2 else 1)"
proof -
  have "sum_list (map (\<lambda>k. if k = Declarer g then (1::int)
      else if partnerPresent g \<and> k = friendSeat g then 1 else 1) (map fst (seated g))) =
    1 + (if partnerPresent g then 1 else 0) + oppCount g * 1"
    unfolding oppCount_keys
    by (rule sum_three_way)
       (use assms seated_distinct in \<open>auto simp: taken_def partnerPresent_def\<close>)
  moreover have "(\<lambda>k. if k = Declarer g then (1::int)
      else if partnerPresent g \<and> k = friendSeat g then 1 else 1) = (\<lambda>_. 1)" by auto
  ultimately show ?thesis by (simp add: sum_list_triv o_def split: if_splits)
qed

text \<open>
  C22. The five-player payout is the one of the rules: with a partner the declarer collects twice the
  stake and the partner once, alone the declarer collects four times the stake, every opponent pays
  it, and a failed contract reverses every sign.
\<close>

theorem five_player_payout:
  assumes "Contract g = Some b" "NumPlayers (Config g) = 5" "length (seated g) = 5"
    and "taken g (Declarer g)" "partnerPresent g \<Longrightarrow> taken g (friendSeat g)"
  shows "CalculateFinalScore g =
    map (\<lambda>(seat, player). (seat, (if roundWon g b then 1 else -1) *
      (if seat = Declarer g then (if partnerPresent g then 2 else 4) * stake g b
       else if partnerPresent g \<and> seat = friendSeat g then stake g b
       else - stake g b))) (seated g)"
proof -
  have "\<not> specialSplit g b" using assms(2) by (simp add: specialSplit_def)
  note F = seatScore_standard [OF this]
  have o: "oppCount g = (if partnerPresent g then 3 else 4)"
    using oppCount_seats [OF assms(4,5)] assms(3) by (simp split: if_splits)
  have "seatScore g b k = (if roundWon g b then 1 else -1) *
      (if k = Declarer g then (if partnerPresent g then 2 else 4) * stake g b
       else if partnerPresent g \<and> k = friendSeat g then stake g b
       else - stake g b)" for k
    unfolding F Let_def o by (simp add: algebra_simps)
  then show ?thesis using assms(1) by (simp add: CalculateFinalScore_def)
qed

text \<open>
  A failed four-player contract with a partner is settled by the configured split: the declarer
  alone pays both opponents, or declarer and partner share, each opponent collecting one and a half
  stakes rounded up and the declarer paying the odd point.
\<close>

lemma four_player_failure_payout:
  assumes "Contract g = Some b" "specialSplit g b"
  shows "CalculateFinalScore g =
    map (\<lambda>(seat, player). (seat,
      if FailDistribution (Config g) = FailDeclarerAlone then
        (if seat = Declarer g then - 2 * stake g b
         else if seat = friendSeat g then 0 else stake g b)
      else
        (if seat = Declarer g then - (2 * stake g b + stake g b mod 2)
         else if seat = friendSeat g then - stake g b
         else stake g b + (stake g b + 1) div 2))) (seated g)"
proof -
  have "2 * ((3 * s + 1) div 2) - s = 2 * s + s mod 2" "(3 * s + 1) div 2 = s + (s + 1) div 2"
    for s :: int by presburger+
  then show ?thesis
    using assms by (auto simp: CalculateFinalScore_def seatScore_def specialPays_def Let_def)
qed

text \<open>
  C23. The two failure splits assume exactly two opponents. At a table that still seats a fifth player
  after switching from five to four players, a failed contract creates points from nothing.
\<close>

theorem stale_seat_breaks_zero_sum:
  assumes "Contract g = Some b" "taken g (Declarer g)" "taken g (friendSeat g)"
    and "specialSplit g b" "length (seated g) = 5"
    and "0 \<le> teamPoints g" "teamPoints g \<le> 20" "minBidPoints g \<le> bPoints b" "bPoints b \<le> 10"
  shows "0 < sum_list (map snd (CalculateFinalScore g))"
proof -
  obtain dp pp og where sp: "specialPays g (stake g b) = (dp, pp, og)" by (rule prod_cases3)
  have "partnerPresent g" "\<not> roundWon g b" using assms(4) by (simp_all add: specialSplit_def)
  then have "oppCount g = 3" "1 \<le> stake g b"
    using oppCount_seats [OF assms(2,3)] assms(5) stake_bounds(3) [OF assms(6-9)] by simp_all
  moreover have "0 < og"
    using sp \<open>1 \<le> stake g b\<close> by (auto simp: specialPays_def Let_def split: if_splits)
  ultimately show ?thesis
    using scores_sum_special [OF assms(1,2,3,4) sp] by simp
qed

definition demo_player :: "nat \<Rightarrow> Card list \<Rightarrow> nat \<Rightarrow> Player option" where
  "demo_player i hand pts = Some \<lparr>pID = [char_of (97 + i)], pName = [], Seat = int i, Hand = hand,
     Points = replicate pts (mkCard Spades Ten), IsConnected = True\<rparr>"

definition demo_contract :: Bid where
  "demo_contract = \<lparr>bPlayerID = ''a'', bPoints = 5, bSuit = Diamonds, IsNoTrump = False\<rparr>"

definition score_game :: "int \<Rightarrow> FailDist \<Rightarrow> Player option list \<Rightarrow> Game" where
  "score_game n fd ps = (NewWithConfig demo_env ''demo''
     \<lparr>NumPlayers = n, AllowJokerPartner = True, FailDistribution = fd\<rparr>)
     \<lparr>Players := ps, Declarer := 0, PartnerCard := Some (mkCard Hearts Ace),
      Contract := Some demo_contract\<rparr>"

definition five_seats :: "Player option list" where
  "five_seats = [demo_player 0 [] 10, demo_player 1 [mkCard Hearts Ace] 3, demo_player 2 [] 3,
     demo_player 3 [] 2, demo_player 4 [] 2]"

definition four_seats :: "Player option list" where
  "four_seats = [demo_player 0 [] 9, demo_player 1 [mkCard Hearts Ace] 3, demo_player 2 [] 3,
     demo_player 3 [] 5, None]"

lemmas score_demo_defs = score_game_def demo_contract_def five_seats_def four_seats_def demo_player_def
  demo_env_def NewWithConfig_def taken_def seated_def partnerPresent_def friendSeat_def
  teamPoints_def onTeam_def minBidPoints_def numSeats_def specialSplit_def roundWon_def stake_def
  baseStake_def oppCount_def CalculateFinalScore_def seatScore_def

theorem final_score_zero_sum_witness:
  "sum_list (map snd (CalculateFinalScore (score_game 4 FailTwoOneSplit four_seats))) = 0"
  by (rule final_score_zero_sum [where b = demo_contract]) (simp_all add: score_demo_defs)

theorem final_score_bounded_witness:
  "\<exists>(seat, score) \<in> set (CalculateFinalScore (score_game 5 FailEqualSplit five_seats)). \<bar>score\<bar> \<le> 640"
proof -
  have "\<forall>(seat, score) \<in> set (CalculateFinalScore (score_game 5 FailEqualSplit five_seats)). \<bar>score\<bar> \<le> 640"
    by (rule final_score_bounded [where b = demo_contract]) (simp_all add: score_demo_defs)
  moreover have "(0, -4) \<in> set (CalculateFinalScore (score_game 5 FailEqualSplit five_seats))"
    by (simp add: score_demo_defs)
  ultimately show ?thesis by blast
qed

lemma five_player_payout_witness:
  "CalculateFinalScore (score_game 5 FailEqualSplit five_seats) =
    [(0, -4), (1, -2), (2, 2), (3, 2), (4, 2)]"
  by (rule trans [OF five_player_payout [where b = demo_contract]]) (simp_all add: score_demo_defs)

theorem four_player_failure_payout_witness:
  "CalculateFinalScore (score_game 4 FailTwoOneSplit four_seats) = [(0, -7), (1, -3), (2, 5), (3, 5)]"
  by (rule trans [OF four_player_failure_payout [where b = demo_contract]]) (simp_all add: score_demo_defs)

theorem stale_seat_breaks_zero_sum_witness:
  "0 < sum_list (map snd (CalculateFinalScore (score_game 4 FailDeclarerAlone five_seats)))"
  by (rule stale_seat_breaks_zero_sum [where b = demo_contract]) (simp_all add: score_demo_defs)

end
