(* ===== verification/Apply.thy ===== *)
theory Apply
  imports Validate Scoring
begin

text \<open>
  internal/game/rules.go, \<^verbatim>\<open>ApplyMove\<close>: the state transition of every move, the loop that finds
  the next bidder, and the reset between rounds. An error return of the Go function is \<open>Inl\<close>;
  the caller discards the game in that case, so the partially updated state is not part of the
  result.
\<close>

section \<open>Bidding rotation\<close>

text \<open>
  The endless \<^verbatim>\<open>for\<close> loop of \<^verbatim>\<open>advanceToNextBidder\<close>: not returning is \<open>None\<close>.
\<close>

partial_function (option) next_bidder :: "(int, bool) gomap \<Rightarrow> int \<Rightarrow> int \<Rightarrow> int option" where
  "next_bidder passed n turn =
     (let turn' = go_rem (turn + 1) n
      in if \<not> gm_has passed turn' then Some turn' else next_bidder passed n turn')"

declare next_bidder.simps [code]

definition advanceToNextBidder :: "Game \<Rightarrow> Err + Game" where
  "advanceToNextBidder g =
     (if gm_len (PassedPlayers g) \<ge> numSeats g then Inr g
      else (case next_bidder (PassedPlayers g) (numSeats g) (CurrentTurn g) of
          None \<Rightarrow> Inl Diverges
        | Some turn \<Rightarrow> Inr (g\<lparr>CurrentTurn := turn\<rparr>)))"

section \<open>Between rounds\<close>

definition clear_points :: "Player option list \<Rightarrow> Player option list" where
  "clear_points = map (map_option (\<lambda>p. p\<lparr>Points := []\<rparr>))"

definition resetForNextRound :: "Env \<Rightarrow> Game \<Rightarrow> Game" where
  "resetForNextRound e g =
     (let g1 = g\<lparr>PlayAgainVotes := [], Tricks := [], Bids := [], CurrentBid := None,
                 Contract := None, Declarer := -1, PartnerCard := None, PartnerSeat := -1,
                 PassedPlayers := [], Scores := [], IsNoFriend := False,
                 Dealer := go_rem (Dealer g + 1) (NumPlayers (Config g)),
                 Players := clear_points (Players g)\<rparr>;
          g2 = Start e g1
      in g2\<lparr>CurrentTurn := Dealer g2\<rparr>)"

text \<open>
  The decoding of a \<^verbatim>\<open>change_config\<close> payload that is not a \<^verbatim>\<open>ChangeConfigMove\<close>: it is marshalled
  and unmarshalled into the struct, errors ignored. \<^verbatim>\<open>encoding/json\<close> matches field names without
  regard to case and a later field overwrites an earlier one; a value that does not fit is
  skipped. No other move struct has a field of that name.
\<close>

definition ascii_lower :: "string \<Rightarrow> string" where
  "ascii_lower = map (\<lambda>c. let n = of_char c :: nat
     in if 65 \<le> n \<and> n \<le> 90 then char_of (n + 32) else c)"

fun decode_num_players :: "(string \<times> json) list \<Rightarrow> int \<Rightarrow> int" where
  "decode_num_players [] acc = acc"
| "decode_num_players ((k, v) # kvs) acc =
     decode_num_players kvs
       (if ascii_lower k = ''num_players''
        then (case v of JNum n \<Rightarrow> if -(2 ^ 63) \<le> n \<and> n < 2 ^ 63 then n else acc | _ \<Rightarrow> acc)
        else acc)"

definition asChangeConfigMove :: "payload \<Rightarrow> ChangeConfigMove" where
  "asChangeConfigMove pl =
     (case pl of
        PChangeConfig cm \<Rightarrow> cm
      | PJson (JObj kvs) \<Rightarrow> \<lparr>ccNumPlayers = decode_num_players kvs 0\<rparr>
      | _ \<Rightarrow> \<lparr>ccNumPlayers = 0\<rparr>)"

text \<open>The two statements every successful move ends with.\<close>

definition touch :: "Env \<Rightarrow> Game \<Rightarrow> Game" where
  "touch e g = g\<lparr>Version := Version g + 1, UpdatedAt := now e\<rparr>"

definition apply_change_config :: "Game \<Rightarrow> payload \<Rightarrow> Game" where
  "apply_change_config g pl =
     (if pl = PNil then g
      else (let cm = asChangeConfigMove pl in
        if ccNumPlayers cm = 4 \<or> ccNumPlayers cm = 5
        then g\<lparr>Config := (Config g)\<lparr>NumPlayers := ccNumPlayers cm\<rparr>, PlayAgainVotes := []\<rparr>
        else g))"

definition apply_play_again :: "Env \<Rightarrow> Game \<Rightarrow> Player \<Rightarrow> Game" where
  "apply_play_again e g p =
     (let g1 = g\<lparr>PlayAgainVotes := gm_set (Seat p) True (PlayAgainVotes g)\<rparr>
      in if gm_len (PlayAgainVotes g1) = NumPlayers (Config g1) then resetForNextRound e g1
         else g1)"

section \<open>The auction\<close>

text \<open>The contract is settled: the last bid stands, the declarer picks up the kitty.\<close>

definition settle_contract :: "Game \<Rightarrow> Err + Game" where
  "settle_contract g =
     (let g1 = g\<lparr>Status := PhaseExchanging, Contract := CurrentBid g,
                 CurrentTurn := Declarer g\<rparr>
      in case Contract g1 of
           None \<Rightarrow> Inl nil_panic
         | Some contract \<Rightarrow>
             (let g2 = g1\<lparr>Trump := bSuit contract\<rparr> in
              bindE (player_at g2 (Declarer g2)) (\<lambda>declarer.
                Inr ((set_player g2 (Declarer g2)
                  (declarer\<lparr>Hand := Hand declarer @ Kitty g2\<rparr>))\<lparr>Kitty := []\<rparr>))))"

definition asBid :: "payload \<Rightarrow> Err + Bid" where
  "asBid pl = (case pl of PBid b \<Rightarrow> Inr b | _ \<Rightarrow> Inl (PlainError ''invalid payload for bid''))"

definition apply_bid :: "Game \<Rightarrow> Player \<Rightarrow> Bid \<Rightarrow> Err + Game" where
  "apply_bid g p b =
     (let bid = b\<lparr>bPlayerID := pID p\<rparr>;
          g1 = g\<lparr>CurrentBid := Some bid, Declarer := Seat p, Bids := Bids g @ [bid]\<rparr>
      in if bPoints bid = 10 \<or> gm_len (PassedPlayers g1) = numSeats g1 - 1
         then settle_contract g1
         else advanceToNextBidder g1)"

text \<open>Everyone passed: the hand is thrown in and redealt.\<close>

definition throw_in :: "Env \<Rightarrow> Game \<Rightarrow> Game" where
  "throw_in e g =
     Start e (g\<lparr>Bids := [], CurrentBid := None, Contract := None, Declarer := -1,
                PassedPlayers := [], PartnerCard := None, PartnerSeat := -1,
                IsNoFriend := False, Trump := EmptySuit, Tricks := []\<rparr>)"

definition passBid :: "Player \<Rightarrow> Bid" where
  "passBid p = \<lparr>bPlayerID = pID p, bPoints = 0, bSuit = EmptySuit, IsNoTrump = False\<rparr>"

definition apply_pass :: "Env \<Rightarrow> Game \<Rightarrow> Player \<Rightarrow> Err + Game" where
  "apply_pass e g p =
     bindE (advanceToNextBidder
         (g\<lparr>PassedPlayers := gm_set (Seat p) True (PassedPlayers g), Bids := Bids g @ [passBid p]\<rparr>))
       (\<lambda>g1. if gm_len (PassedPlayers g1) = numSeats g1 - 1 \<and> CurrentBid g1 \<noteq> None
             then settle_contract g1
             else if gm_len (PassedPlayers g1) = numSeats g1 then Inr (throw_in e g1)
             else Inr g1)"

section \<open>Exchange and partner call\<close>

definition asCards :: "payload \<Rightarrow> Err + Card list" where
  "asCards pl =
     (case pl of PCards cs \<Rightarrow> Inr cs | _ \<Rightarrow> Inl (PlainError ''invalid payload for discard''))"

definition apply_discard :: "Game \<Rightarrow> int \<Rightarrow> Player \<Rightarrow> Card list \<Rightarrow> Game" where
  "apply_discard g i p cards =
     (let newHand = filter (\<lambda>c. c \<notin> set cards) (Hand p);
          discardPoints = filter (\<lambda>c. c \<in> set cards \<and> IsPointCard c) (Hand p);
          p' = p\<lparr>Hand := newHand, Points := Points p @ discardPoints\<rparr>
      in (set_player g i p')\<lparr>Status := PhaseCalling\<rparr>)"

definition newTrick :: Trick where
  "newTrick = \<lparr>tCards = [], LeadSuit = EmptySuit, Winner = 0, JokerCalled = False\<rparr>"

definition apply_call_partner :: "Game \<Rightarrow> CallPartnerMove \<Rightarrow> Game" where
  "apply_call_partner g move =
     (let g1 = (if NoFriend move then g\<lparr>IsNoFriend := True, PartnerCard := None\<rparr>
                else g\<lparr>PartnerCard := cpCard move\<rparr>)
      in g1\<lparr>Status := PhasePlaying, CurrentTurn := Declarer g1,
            Tricks := Tricks g1 @ [newTrick]\<rparr>)"

section \<open>Playing a card\<close>

text \<open>The trick after the card is laid down; the first card fixes the lead suit.\<close>

definition lay_card :: "Game \<Rightarrow> Trick \<Rightarrow> Player \<Rightarrow> PlayCardMove \<Rightarrow> Trick" where
  "lay_card g t p move =
     (let c = pmCard move;
          t1 = t\<lparr>tCards := tCards t @ [\<lparr>pcPlayerID = pID p, pcSeat = Seat p, pcCard = c\<rparr>]\<rparr>
      in if length (tCards t1) = 1
         then t1\<lparr>LeadSuit := (if Rank c = Joker then CalledSuit move else Suit c),
                 JokerCalled := (if CallJoker move \<and> IsJokerCaller g c then True
                                 else JokerCalled t1)\<rparr>
         else t1)"

definition add_scores :: "(string, int) gomap \<Rightarrow> (string, int) gomap \<Rightarrow> (string, int) gomap" where
  "add_scores totals scores =
     fold (\<lambda>(pid, score) m. gm_set pid (gm_get m pid 0 + score) m) scores totals"

definition finish_round :: "Game \<Rightarrow> Game" where
  "finish_round g =
     (let g1 = g\<lparr>Status := PhaseFinished\<rparr>;
          seatScores = CalculateFinalScore g1;
          scores = fold (\<lambda>(seat, player) m. gm_set (pID player) (gm_get seatScores seat 0) m)
                     (seated g1) []
      in g1\<lparr>Scores := scores, TotalScores := add_scores (TotalScores g1) scores,
            ScoreHistory := ScoreHistory g1 @ [scores]\<rparr>)"

text \<open>A complete trick: winner, reveal of the friend, points, the next lead or the end.\<close>

definition finish_trick :: "Game \<Rightarrow> Err + Game" where
  "finish_trick g =
     (let t = last (Tricks g) in
      bindE (ResolveTrick g t) (\<lambda>(winnerSeat, points).
        (let g1 = g\<lparr>Tricks := butlast (Tricks g) @ [t\<lparr>Winner := winnerSeat\<rparr>]\<rparr>;
             fs = friendSeat g1;
             g2 = (if PartnerSeat g1 < 0 \<and> fs \<ge> 0 \<and> winnerSeat = fs
                      \<and> trickRevealsFriend (last (Tricks g1)) fs
                   then g1\<lparr>PartnerSeat := fs\<rparr> else g1)
         in bindE (player_at g2 winnerSeat) (\<lambda>winner.
              (let g3 = (set_player g2 winnerSeat (winner\<lparr>Points := Points winner @ points\<rparr>))
                          \<lparr>CurrentTurn := winnerSeat\<rparr>
               in Inr (if length (Tricks g3) = 10 then finish_round g3
                       else g3\<lparr>Tricks := Tricks g3 @ [newTrick]\<rparr>))))))"

definition asPlay :: "payload \<Rightarrow> Err + PlayCardMove" where
  "asPlay pl =
     (case asPlayCardMove pl of
        None \<Rightarrow> Inl (PlainError ''invalid payload for play card'') | Some m \<Rightarrow> Inr m)"

definition apply_play_card :: "Game \<Rightarrow> int \<Rightarrow> Player \<Rightarrow> PlayCardMove \<Rightarrow> Err + Game" where
  "apply_play_card g i p move =
     (let g1 = set_player g i (p\<lparr>Hand := filter (\<lambda>h. h \<noteq> pmCard move) (Hand p)\<rparr>)
      in if Tricks g1 = [] then Inl index_panic
         else (let t = lay_card g1 (last (Tricks g1)) p move;
                   g2 = g1\<lparr>Tricks := butlast (Tricks g1) @ [t],
                           CurrentTurn := go_rem (CurrentTurn g1 + 1) (numSeats g1)\<rparr>
               in if int (length (tCards t)) = numSeats g2 then finish_trick g2 else Inr g2))"

section \<open>ApplyMove\<close>

text \<open>
  A player who is not in the game is a nil pointer, and the moves that dereference it panic after
  the type of their payload has been checked.
\<close>

definition resolve_pointer :: "Game \<Rightarrow> string \<Rightarrow> Err + (int \<times> Player)" where
  "resolve_pointer g playerID =
     (case GetPlayer g playerID of
        None \<Rightarrow> Inl nil_panic
      | Some i \<Rightarrow> bindE (player_at g i) (\<lambda>p. Inr (i, p)))"

definition ApplyMove :: "Env \<Rightarrow> Game \<Rightarrow> string \<Rightarrow> MoveType \<Rightarrow> payload \<Rightarrow> Err + Game" where
  "ApplyMove e g playerID moveType pl =
     (let who = resolve_pointer g playerID in
      if Status g = PhaseFinished then
        (case moveType of
           MoveChangeConfig \<Rightarrow> Inr (touch e (apply_change_config g pl))
         | MovePlayAgain \<Rightarrow> bindE who (\<lambda>(i, p). Inr (touch e (apply_play_again e g p)))
         | _ \<Rightarrow> Inl (PlainError ''invalid move in finished phase''))
      else bindE
        (case moveType of
           MoveBid \<Rightarrow> bindE (asBid pl) (\<lambda>b. bindE who (\<lambda>(i, p). apply_bid g p b))
         | MovePass \<Rightarrow> bindE who (\<lambda>(i, p). apply_pass e g p)
         | MoveDiscard \<Rightarrow>
             bindE (asCards pl) (\<lambda>cs. bindE who (\<lambda>(i, p). Inr (apply_discard g i p cs)))
         | MoveCallPartner \<Rightarrow>
             bindE (asCallPartnerMove pl) (\<lambda>m. Inr (apply_call_partner g m))
         | MovePlayCard \<Rightarrow>
             bindE (asPlay pl) (\<lambda>m. bindE who (\<lambda>(i, p). apply_play_card g i p m))
         | _ \<Rightarrow> Inr g)
        (\<lambda>g'. Inr (touch e g')))"

end
