(* ===== verification/Payload.thy ===== *)
theory Payload
  imports Apply
begin

text \<open>
  internal/api/handler.go, \<^verbatim>\<open>ConvertPayload\<close>: how the JSON payload of a request becomes the payload
  of a move. First what the code uses of \<^verbatim>\<open>encoding/json\<close>: decoding into a struct takes the members of
  the object in order, matches names without regard to case, ignores unknown names, lets a later member
  overwrite an earlier one, and leaves a field alone on \<^verbatim>\<open>null\<close>; a value of the wrong type is an error.
\<close>

section \<open>Decoding\<close>

definition dec_string :: "(string \<Rightarrow> 'a \<Rightarrow> 'a) \<Rightarrow> json \<Rightarrow> 'a \<Rightarrow> 'a option" where
  "dec_string put j a = (case j of JStr s \<Rightarrow> Some (put s a) | JNull \<Rightarrow> Some a | _ \<Rightarrow> None)"

definition dec_bool :: "(bool \<Rightarrow> 'a \<Rightarrow> 'a) \<Rightarrow> json \<Rightarrow> 'a \<Rightarrow> 'a option" where
  "dec_bool put j a = (case j of JBool b \<Rightarrow> Some (put b a) | JNull \<Rightarrow> Some a | _ \<Rightarrow> None)"

definition int64 :: "int \<Rightarrow> bool" where
  "int64 n \<longleftrightarrow> -(2 ^ 63) \<le> n \<and> n < 2 ^ 63"

definition dec_int :: "(int \<Rightarrow> 'a \<Rightarrow> 'a) \<Rightarrow> json \<Rightarrow> 'a \<Rightarrow> 'a option" where
  "dec_int put j a =
     (case j of JNum n \<Rightarrow> if int64 n then Some (put n a) else None | JNull \<Rightarrow> Some a | _ \<Rightarrow> None)"

fun dec_members :: "(string \<times> (json \<Rightarrow> 'a \<Rightarrow> 'a option)) list \<Rightarrow> (string \<times> json) list \<Rightarrow> 'a \<Rightarrow> 'a option" where
  "dec_members tbl [] a = Some a"
| "dec_members tbl ((k, v) # kvs) a =
     (case map_of tbl (ascii_lower k) of
        None \<Rightarrow> dec_members tbl kvs a
      | Some dec \<Rightarrow> (case dec v a of None \<Rightarrow> None | Some a' \<Rightarrow> dec_members tbl kvs a'))"

definition dec_struct :: "(string \<times> (json \<Rightarrow> 'a \<Rightarrow> 'a option)) list \<Rightarrow> json \<Rightarrow> 'a \<Rightarrow> 'a option" where
  "dec_struct tbl j a =
     (case j of JObj kvs \<Rightarrow> dec_members tbl kvs a | JNull \<Rightarrow> Some a | _ \<Rightarrow> None)"

text \<open>A slice: \<^verbatim>\<open>null\<close> is the nil slice, every element starts from the zero value.\<close>

fun dec_list :: "(json \<Rightarrow> 'a \<Rightarrow> 'a option) \<Rightarrow> 'a \<Rightarrow> json list \<Rightarrow> 'a list option" where
  "dec_list dec zero [] = Some []"
| "dec_list dec zero (j # js) =
     (case dec j zero of None \<Rightarrow> None
      | Some x \<Rightarrow> map_option (\<lambda>xs. x # xs) (dec_list dec zero js))"

definition dec_slice :: "(json \<Rightarrow> 'a \<Rightarrow> 'a option) \<Rightarrow> 'a \<Rightarrow> json \<Rightarrow> 'a list option" where
  "dec_slice dec zero j =
     (case j of JArr js \<Rightarrow> dec_list dec zero js | JNull \<Rightarrow> Some [] | _ \<Rightarrow> None)"

section \<open>The payload structs\<close>

definition rank_of_string :: "string \<Rightarrow> Rank" where
  "rank_of_string s =
     (if s = ''A'' then Ace else if s = ''K'' then King else if s = ''Q'' then Queen
      else if s = ''J'' then Jack else if s = ''10'' then Ten else if s = ''9'' then Nine
      else if s = ''8'' then Eight else if s = ''7'' then Seven else if s = ''6'' then Six
      else if s = ''5'' then Five else if s = ''4'' then Four else if s = ''3'' then Three
      else if s = ''2'' then Two else if s = ''Joker'' then Joker else OtherRank s)"

definition no_rank :: "Card \<Rightarrow> bool" where
  "no_rank c \<longleftrightarrow> Rank c = OtherRank ''''"

definition zeroCard :: Card where
  "zeroCard = \<lparr>Suit = EmptySuit, Rank = OtherRank ''''\<rparr>"

definition card_fields :: "(string \<times> (json \<Rightarrow> Card \<Rightarrow> Card option)) list" where
  "card_fields =
     [(''suit'', dec_string (\<lambda>s c. c\<lparr>Suit := suit_of_string s\<rparr>)),
      (''rank'', dec_string (\<lambda>s c. c\<lparr>Rank := rank_of_string s\<rparr>))]"

definition dec_card :: "json \<Rightarrow> Card \<Rightarrow> Card option" where
  "dec_card = dec_struct card_fields"

definition zeroBid :: Bid where
  "zeroBid = \<lparr>bPlayerID = '''', bPoints = 0, bSuit = EmptySuit, IsNoTrump = False\<rparr>"

definition bid_fields :: "(string \<times> (json \<Rightarrow> Bid \<Rightarrow> Bid option)) list" where
  "bid_fields =
     [(''player_id'', dec_string (\<lambda>s b. b\<lparr>bPlayerID := s\<rparr>)),
      (''points'', dec_int (\<lambda>n b. b\<lparr>bPoints := n\<rparr>)),
      (''suit'', dec_string (\<lambda>s b. b\<lparr>bSuit := suit_of_string s\<rparr>)),
      (''is_no_trump'', dec_bool (\<lambda>v b. b\<lparr>IsNoTrump := v\<rparr>))]"

text \<open>\<^verbatim>\<open>Card *Card\<close>: \<^verbatim>\<open>null\<close> clears the pointer, an object is decoded into the card it points to.\<close>

definition call_fields :: "(string \<times> (json \<Rightarrow> CallPartnerMove \<Rightarrow> CallPartnerMove option)) list" where
  "call_fields =
     [(''card'', \<lambda>j mv. if j = JNull then Some (mv\<lparr>cpCard := None\<rparr>)
         else map_option (\<lambda>c. mv\<lparr>cpCard := Some c\<rparr>)
           (dec_card j (case cpCard mv of None \<Rightarrow> zeroCard | Some c \<Rightarrow> c))),
      (''no_friend'', dec_bool (\<lambda>v mv. mv\<lparr>NoFriend := v\<rparr>))]"

definition play_fields :: "(string \<times> (json \<Rightarrow> PlayCardMove \<Rightarrow> PlayCardMove option)) list" where
  "play_fields =
     [(''card'', \<lambda>j mv. map_option (\<lambda>c. mv\<lparr>pmCard := c\<rparr>) (dec_card j (pmCard mv))),
      (''call_joker'', dec_bool (\<lambda>v mv. mv\<lparr>CallJoker := v\<rparr>)),
      (''called_suit'', dec_string (\<lambda>s mv. mv\<lparr>CalledSuit := suit_of_string s\<rparr>))]"

definition config_fields :: "(string \<times> (json \<Rightarrow> ChangeConfigMove \<Rightarrow> ChangeConfigMove option)) list" where
  "config_fields = [(''num_players'', dec_int (\<lambda>n cm. cm\<lparr>ccNumPlayers := n\<rparr>))]"

section \<open>ConvertPayload\<close>

abbreviation (input) unmarshal_error :: Err where
  "unmarshal_error \<equiv> PlainError ''json: cannot unmarshal''"

definition convert_bid :: "json \<Rightarrow> Err + payload" where
  "convert_bid j =
     (case dec_struct bid_fields j zeroBid of None \<Rightarrow> Inl unmarshal_error | Some b \<Rightarrow> Inr (PBid b))"

definition convert_discard :: "json \<Rightarrow> Err + payload" where
  "convert_discard j =
     (case dec_slice dec_card zeroCard j of None \<Rightarrow> Inl unmarshal_error | Some cs \<Rightarrow> Inr (PCards cs))"

definition convert_call :: "json \<Rightarrow> Err + payload" where
  "convert_call j =
     (case dec_struct call_fields j \<lparr>cpCard = None, NoFriend = False\<rparr> of
        None \<Rightarrow> Inl unmarshal_error
      | Some mv \<Rightarrow>
          if cpCard mv = None \<and> \<not> NoFriend mv
          then (case dec_card j zeroCard of
                  Some c \<Rightarrow> if \<not> no_rank c then Inr (PCallPartner \<lparr>cpCard = Some c, NoFriend = False\<rparr>)
                            else Inl (PlainError ''call_partner requires a card or no_friend'')
                | None \<Rightarrow> Inl (PlainError ''call_partner requires a card or no_friend''))
          else Inr (PCallPartner mv))"

definition zeroPlay :: PlayCardMove where
  "zeroPlay = \<lparr>pmCard = zeroCard, CallJoker = False, CalledSuit = EmptySuit\<rparr>"

definition convert_raw_card :: "json \<Rightarrow> Err + payload" where
  "convert_raw_card j =
     (case dec_card j zeroCard of
        Some c \<Rightarrow> if \<not> no_rank c then Inr (PPlayCard (zeroPlay\<lparr>pmCard := c\<rparr>))
                  else Inl (PlainError ''invalid play card payload'')
      | None \<Rightarrow> Inl (PlainError ''invalid play card payload''))"

definition convert_play :: "json \<Rightarrow> Err + payload" where
  "convert_play j =
     (case dec_struct play_fields j zeroPlay of
        Some mv \<Rightarrow> if \<not> no_rank (pmCard mv) then Inr (PPlayCard mv) else convert_raw_card j
      | None \<Rightarrow> convert_raw_card j)"

definition convert_config :: "json \<Rightarrow> Err + payload" where
  "convert_config j =
     (case dec_struct config_fields j \<lparr>ccNumPlayers = 0\<rparr> of
        None \<Rightarrow> Inl unmarshal_error | Some cm \<Rightarrow> Inr (PChangeConfig cm))"

definition ConvertPayload :: "MoveType \<Rightarrow> json \<Rightarrow> Err + payload" where
  "ConvertPayload moveType j =
     (case moveType of
        MoveBid \<Rightarrow> convert_bid j
      | MoveDiscard \<Rightarrow> convert_discard j
      | MoveCallPartner \<Rightarrow> convert_call j
      | MovePlayCard \<Rightarrow> convert_play j
      | MoveChangeConfig \<Rightarrow> convert_config j
      | MovePass \<Rightarrow> Inr PNil
      | MovePlayAgain \<Rightarrow> Inr PNil
      | OtherMove _ \<Rightarrow> Inr (if j = JNull then PNil else PJson j))"

section \<open>Marshalling a payload\<close>

text \<open>
  What a client sends: the struct of the move as \<^verbatim>\<open>json.Marshal\<close> writes it, with the members in the
  order of their names, which is how the object comes out of a decoded \<^verbatim>\<open>map[string]any\<close>. Fields tagged
  \<^verbatim>\<open>omitempty\<close> are left out when they are zero.
\<close>

definition enc_card :: "Card \<Rightarrow> json" where
  "enc_card c = JObj [(''rank'', JStr (rank_string (Rank c))), (''suit'', JStr (suit_string (Suit c)))]"

definition enc_bid :: "Bid \<Rightarrow> json" where
  "enc_bid b = JObj [(''is_no_trump'', JBool (IsNoTrump b)), (''player_id'', JStr (bPlayerID b)),
     (''points'', JNum (bPoints b)), (''suit'', JStr (suit_string (bSuit b)))]"

definition enc_call :: "CallPartnerMove \<Rightarrow> json" where
  "enc_call mv = JObj
     ((case cpCard mv of None \<Rightarrow> [] | Some c \<Rightarrow> [(''card'', enc_card c)]) @
      (if NoFriend mv then [(''no_friend'', JBool True)] else []))"

definition enc_play :: "PlayCardMove \<Rightarrow> json" where
  "enc_play mv = JObj
     ([(''call_joker'', JBool (CallJoker mv))] @
      (if CalledSuit mv = EmptySuit then [] else [(''called_suit'', JStr (suit_string (CalledSuit mv)))]) @
      [(''card'', enc_card (pmCard mv))])"

fun enc_payload :: "payload \<Rightarrow> json" where
  "enc_payload PNil = JNull"
| "enc_payload (PBid b) = enc_bid b"
| "enc_payload (PCards cs) = JArr (map enc_card cs)"
| "enc_payload (PCard c) = enc_card c"
| "enc_payload (PCallPartner mv) = enc_call mv"
| "enc_payload (PPlayCard mv) = enc_play mv"
| "enc_payload (PChangeConfig cm) = JObj [(''num_players'', JNum (ccNumPlayers cm))]"
| "enc_payload (PJson j) = j"

text \<open>Values that are what they look like: no \<open>OtherSuit\<close> or \<open>OtherRank\<close> with the text of a constant.\<close>

definition suit_proper :: "Suit \<Rightarrow> bool" where
  "suit_proper s \<longleftrightarrow> suit_of_string (suit_string s) = s"

definition card_proper :: "Card \<Rightarrow> bool" where
  "card_proper c \<longleftrightarrow> suit_proper (Suit c) \<and> rank_of_string (rank_string (Rank c)) = Rank c"

text \<open>
  The payloads that belong to a move type. A number passes through a \<^verbatim>\<open>float64\<close> on its way, which holds
  every integer up to 2^53 exactly.
\<close>

definition exact_int :: "int \<Rightarrow> bool" where
  "exact_int n \<longleftrightarrow> \<bar>n\<bar> \<le> 2 ^ 53"

lemma exact_int64: "exact_int n \<Longrightarrow> int64 n"
  by (auto simp: exact_int_def int64_def abs_le_iff)

fun payload_for :: "MoveType \<Rightarrow> payload \<Rightarrow> bool" where
  "payload_for MoveBid (PBid b) \<longleftrightarrow> exact_int (bPoints b) \<and> suit_proper (bSuit b)"
| "payload_for MoveDiscard (PCards cs) \<longleftrightarrow> (\<forall>c \<in> set cs. card_proper c)"
| "payload_for MoveCallPartner (PCallPartner mv) \<longleftrightarrow>
     (cpCard mv \<noteq> None \<or> NoFriend mv) \<and> (\<forall>c. cpCard mv = Some c \<longrightarrow> card_proper c)"
| "payload_for MovePlayCard (PPlayCard mv) \<longleftrightarrow>
     card_proper (pmCard mv) \<and> \<not> no_rank (pmCard mv) \<and> suit_proper (CalledSuit mv)"
| "payload_for MoveChangeConfig (PChangeConfig cm) \<longleftrightarrow> exact_int (ccNumPlayers cm)"
| "payload_for MovePass PNil \<longleftrightarrow> True"
| "payload_for MovePlayAgain PNil \<longleftrightarrow> True"
| "payload_for _ _ \<longleftrightarrow> False"

lemma lower_names [simp]:
  "ascii_lower ''rank'' = ''rank''" "ascii_lower ''suit'' = ''suit''" "ascii_lower ''card'' = ''card''"
  "ascii_lower ''points'' = ''points''" "ascii_lower ''player_id'' = ''player_id''"
  "ascii_lower ''is_no_trump'' = ''is_no_trump''" "ascii_lower ''no_friend'' = ''no_friend''"
  "ascii_lower ''call_joker'' = ''call_joker''" "ascii_lower ''called_suit'' = ''called_suit''"
  "ascii_lower ''num_players'' = ''num_players''"
  by code_simp+

lemma dec_enc_card: "card_proper c \<Longrightarrow> dec_card (enc_card c) a = Some c"
  by (cases c; cases a)
     (simp add: dec_card_def dec_struct_def card_fields_def enc_card_def dec_string_def card_proper_def suit_proper_def)

lemma dec_enc_cards: "\<forall>c \<in> set cs. card_proper c \<Longrightarrow> dec_list dec_card a (map enc_card cs) = Some cs"
  by (induction cs) (auto simp: dec_enc_card)

lemma enc_card_not_null [simp]: "enc_card c \<noteq> JNull"
  by (simp add: enc_card_def)

lemma convert_bid_enc: "int64 (bPoints b) \<Longrightarrow> suit_proper (bSuit b) \<Longrightarrow> convert_bid (enc_bid b) = Inr (PBid b)"
  by (cases b)
     (simp add: convert_bid_def dec_struct_def bid_fields_def enc_bid_def dec_string_def dec_int_def dec_bool_def
        zeroBid_def suit_proper_def)

lemma convert_call_enc:
  assumes "cpCard mv \<noteq> None \<or> NoFriend mv" "\<forall>c. cpCard mv = Some c \<longrightarrow> card_proper c"
  shows "convert_call (enc_call mv) = Inr (PCallPartner mv)"
  using assms
  by (cases mv; cases "cpCard mv"; cases "NoFriend mv")
     (auto simp: convert_call_def dec_struct_def call_fields_def enc_call_def dec_bool_def dec_enc_card)

lemma convert_play_enc:
  assumes "card_proper (pmCard mv)" "\<not> no_rank (pmCard mv)" "suit_proper (CalledSuit mv)"
  shows "convert_play (enc_play mv) = Inr (PPlayCard mv)"
  using assms
  by (cases mv) (auto simp: convert_play_def dec_struct_def play_fields_def enc_play_def dec_bool_def dec_string_def
      dec_enc_card zeroPlay_def suit_proper_def)

lemma convert_raw:
  assumes "card_proper c" "\<not> no_rank c"
  shows "convert_play (enc_card c) = Inr (PPlayCard \<lparr>pmCard = c, CallJoker = False, CalledSuit = EmptySuit\<rparr>)"
    "convert_call (enc_card c) = Inr (PCallPartner \<lparr>cpCard = Some c, NoFriend = False\<rparr>)"
proof -
  have p: "dec_struct play_fields (enc_card c) zeroPlay = Some zeroPlay"
    by (simp add: dec_struct_def play_fields_def enc_card_def)
  have "no_rank zeroCard" by (simp add: no_rank_def zeroCard_def)
  then show "convert_play (enc_card c) = Inr (PPlayCard \<lparr>pmCard = c, CallJoker = False, CalledSuit = EmptySuit\<rparr>)"
    using assms by (simp add: convert_play_def p convert_raw_card_def dec_enc_card) (simp add: zeroPlay_def)
  have q: "dec_struct call_fields (enc_card c) a = Some a" for a
    by (simp add: dec_struct_def call_fields_def enc_card_def)
  show "convert_call (enc_card c) = Inr (PCallPartner \<lparr>cpCard = Some c, NoFriend = False\<rparr>)"
    using assms by (simp add: convert_call_def q dec_enc_card)
qed

lemma convert_discard_enc: "\<forall>c \<in> set cs. card_proper c \<Longrightarrow> convert_discard (JArr (map enc_card cs)) = Inr (PCards cs)"
  by (simp add: convert_discard_def dec_slice_def dec_enc_cards)

lemma convert_config_enc:
  "int64 (ccNumPlayers cm) \<Longrightarrow> convert_config (JObj [(''num_players'', JNum (ccNumPlayers cm))]) = Inr (PChangeConfig cm)"
  by (cases cm) (simp add: convert_config_def dec_struct_def config_fields_def dec_int_def)

lemma convert_enc:
  assumes "payload_for mt pl"
  shows "ConvertPayload mt (enc_payload pl) = Inr pl"
proof -
  note enc = convert_bid_enc convert_call_enc convert_play_enc convert_discard_enc convert_config_enc
  show ?thesis using assms
    by (cases mt; cases pl) (simp_all add: ConvertPayload_def enc exact_int64)
qed

text \<open>
  C28. Payloads arrive unchanged. The payload of a move, marshalled by the client and converted by the server, is the payload
  that was sent, for every move type and every value whose texts are proper and whose numbers a
  \<^verbatim>\<open>float64\<close> holds.
\<close>

theorem ConvertPayload_roundtrip:
  assumes "payload_for mt pl"
  shows "ConvertPayload mt (enc_payload pl) = Inr pl"
  by (rule convert_enc [OF assms])

lemma ConvertPayload_roundtrip_witness:
  "ConvertPayload MoveBid (JObj [(''is_no_trump'', JBool False), (''player_id'', JStr ''p''),
     (''points'', JNum 7), (''suit'', JStr ''hearts'')]) =
   Inr (PBid \<lparr>bPlayerID = ''p'', bPoints = 7, bSuit = Hearts, IsNoTrump = False\<rparr>)"
  using ConvertPayload_roundtrip [of MoveBid "PBid \<lparr>bPlayerID = ''p'', bPoints = 7, bSuit = Hearts, IsNoTrump = False\<rparr>"]
  by (simp add: enc_bid_def exact_int_def suit_proper_def suit_of_string_def)

section \<open>What a converted payload can be\<close>

text \<open>The dynamic type that each move's validator expects.\<close>

fun payload_typed :: "MoveType \<Rightarrow> payload \<Rightarrow> bool" where
  "payload_typed MoveBid (PBid b) \<longleftrightarrow> int64 (bPoints b)"
| "payload_typed MoveDiscard (PCards cs) \<longleftrightarrow> True"
| "payload_typed MoveCallPartner (PCallPartner mv) \<longleftrightarrow> cpCard mv \<noteq> None \<or> NoFriend mv"
| "payload_typed MovePlayCard (PPlayCard mv) \<longleftrightarrow> \<not> no_rank (pmCard mv)"
| "payload_typed MoveChangeConfig (PChangeConfig cm) \<longleftrightarrow> int64 (ccNumPlayers cm)"
| "payload_typed MovePass PNil \<longleftrightarrow> True"
| "payload_typed MovePlayAgain PNil \<longleftrightarrow> True"
| "payload_typed (OtherMove s) PNil \<longleftrightarrow> True"
| "payload_typed (OtherMove s) (PJson j) \<longleftrightarrow> True"
| "payload_typed _ _ \<longleftrightarrow> False"

lemma dec_members_inv:
  assumes "dec_members tbl kvs a = Some b" "P a"
    and "\<And>n dec v x y. (n, dec) \<in> set tbl \<Longrightarrow> dec v x = Some y \<Longrightarrow> P x \<Longrightarrow> P y"
  shows "P b"
  using assms(1,2)
proof (induction kvs arbitrary: a)
  case (Cons kv kvs)
  obtain k v where kv: "kv = (k, v)" by fastforce
  show ?case
  proof (cases "map_of tbl (ascii_lower k)")
    case None
    then show ?thesis using Cons kv by simp
  next
    case (Some dec)
    then obtain a' where "dec v a = Some a'" "dec_members tbl kvs a' = Some b"
      using Cons.prems(1) kv by (auto split: option.splits)
    then show ?thesis using Cons.IH Cons.prems(2) assms(3) map_of_SomeD [OF Some] by blast
  qed
qed simp

lemma dec_struct_inv:
  assumes "dec_struct tbl j a = Some b" "P a"
    and "\<And>n dec v x y. (n, dec) \<in> set tbl \<Longrightarrow> dec v x = Some y \<Longrightarrow> P x \<Longrightarrow> P y"
  shows "P b"
  using assms(1,2) dec_members_inv [where P = P and tbl = tbl, OF _ _ assms(3)]
  by (auto simp: dec_struct_def split: json.splits)

text \<open>
  C29. A payload has the type of its move. Whatever JSON a client sends, a payload that \<^verbatim>\<open>ConvertPayload\<close> accepts has the dynamic type
  that the validator of its move expects, its integers fit 64 bits, a played card has a rank, and a
  partner call names a card or plays alone.
\<close>

theorem ConvertPayload_typed:
  assumes "ConvertPayload mt j = Inr pl"
  shows "payload_typed mt pl"
proof -
  have bid: "int64 (bPoints b)" if "dec_struct bid_fields j zeroBid = Some b" for b
    by (rule dec_struct_inv [OF that])
       (auto simp: zeroBid_def int64_def bid_fields_def dec_string_def dec_int_def dec_bool_def
         split: json.splits if_splits)
  have config: "int64 (ccNumPlayers cm)" if "dec_struct config_fields j \<lparr>ccNumPlayers = 0\<rparr> = Some cm" for cm
    by (rule dec_struct_inv [OF that])
       (auto simp: int64_def config_fields_def dec_int_def split: json.splits if_splits)
  have play: "payload_typed MovePlayCard pl" if "convert_play j = Inr pl" for pl
    using that by (auto simp: convert_play_def convert_raw_card_def split: option.splits if_splits)
  have call: "payload_typed MoveCallPartner pl" if "convert_call j = Inr pl" for pl
    using that by (auto simp: convert_call_def split: option.splits if_splits)
  show ?thesis
    using assms bid config play call
    by (cases mt) (auto simp: ConvertPayload_def convert_bid_def convert_discard_def convert_config_def
        split: option.splits if_splits)
qed

lemma ConvertPayload_typed_witness:
  "payload_typed MovePlayCard (PPlayCard \<lparr>pmCard = mkCard Hearts Ten, CallJoker = False, CalledSuit = EmptySuit\<rparr>)"
proof (rule ConvertPayload_typed)
  show "ConvertPayload MovePlayCard (enc_card (mkCard Hearts Ten)) =
      Inr (PPlayCard \<lparr>pmCard = mkCard Hearts Ten, CallJoker = False, CalledSuit = EmptySuit\<rparr>)"
    using convert_raw(1) [of "mkCard Hearts Ten"]
    by (simp add: ConvertPayload_def card_proper_def suit_proper_def suit_of_string_def rank_of_string_def no_rank_def)
qed

end
