(* ===== verification/Table.thy ===== *)
theory Table
  imports Apply
begin

text \<open>
  The table between the moves: what is true of the seats at all times, the cards and points seat
  by seat, and what looking up a player, dealing and writing through a player pointer do to them.
\<close>

section \<open>Seats\<close>

definition seats_ok :: "Game \<Rightarrow> bool" where
  "seats_ok g \<longleftrightarrow>
     length (Players g) = 5 \<and> (NumPlayers (Config g) = 4 \<or> NumPlayers (Config g) = 5) \<and>
     (\<forall>i p. player_at g i = Inr p \<longrightarrow> Seat p = i) \<and>
     (\<forall>i j p q. player_at g i = Inr p \<longrightarrow> player_at g j = Inr q \<longrightarrow> pID p = pID q \<longrightarrow> i = j)"

definition filled :: "Game \<Rightarrow> int \<Rightarrow> bool" where
  "filled g i \<longleftrightarrow> (\<exists>p. player_at g i = Inr p)"

definition table_ok :: "Game \<Rightarrow> bool" where
  "table_ok g \<longleftrightarrow> seats_ok g \<and> (\<forall>i. 0 \<le> i \<and> i < numSeats g \<longrightarrow> filled g i)"

definition hand_of :: "Game \<Rightarrow> int \<Rightarrow> Card list" where
  "hand_of g i = (case player_at g i of Inl _ \<Rightarrow> [] | Inr p \<Rightarrow> Hand p)"

definition points_of :: "Game \<Rightarrow> int \<Rightarrow> Card list" where
  "points_of g i = (case player_at g i of Inl _ \<Rightarrow> [] | Inr p \<Rightarrow> Points p)"

lemma seats_numSeats: "seats_ok g \<Longrightarrow> numSeats g = NumPlayers (Config g)"
  by (auto simp: seats_ok_def numSeats_def)

lemma seats_range: "seats_ok g \<Longrightarrow> numSeats g = 4 \<or> numSeats g = 5"
  by (auto simp: seats_ok_def numSeats_def)

lemma table_seats: "table_ok g \<Longrightarrow> seats_ok g" by (simp add: table_ok_def)

lemma player_at_range:
  assumes "player_at g i = Inr p"
  shows "0 \<le> i \<and> i < int (length (Players g)) \<and> Players g ! nat i = Some p"
proof -
  have "\<not> (i < 0 \<or> int (length (Players g)) \<le> i)"
    using assms by (auto simp: player_at_def)
  with assms show ?thesis by (auto simp: player_at_def split: option.splits)
qed

lemma player_at_Inr:
  "player_at g i = Inr p \<longleftrightarrow> 0 \<le> i \<and> i < int (length (Players g)) \<and> Players g ! nat i = Some p"
  using player_at_range by (auto simp: player_at_def)

lemma seats_Seat: "seats_ok g \<Longrightarrow> player_at g i = Inr p \<Longrightarrow> Seat p = i"
  by (auto simp: seats_ok_def)

lemma seats_ID:
  "seats_ok g \<Longrightarrow> player_at g i = Inr p \<Longrightarrow> player_at g j = Inr q \<Longrightarrow> pID p = pID q \<Longrightarrow> i = j"
  by (auto simp: seats_ok_def)

lemma table_filled:
  assumes "table_ok g" "0 \<le> i" "i < numSeats g"
  obtains p where "player_at g i = Inr p"
  using assms by (auto simp: table_ok_def filled_def)

section \<open>Lookup by ID\<close>

lemma find_player_Some:
  "find_player k ps uid = Some i \<Longrightarrow>
     k \<le> i \<and> i < k + int (length ps) \<and> (\<exists>p. ps ! nat (i - k) = Some p \<and> pID p = uid)"
proof (induction k ps uid rule: find_player.induct)
  case (2 k ps uid)
  then have "k + 1 \<le> i" "i < k + 1 + int (length ps)"
    "\<exists>p. ps ! nat (i - (k + 1)) = Some p \<and> pID p = uid" by auto
  moreover have "nat (i - k) = Suc (nat (i - (k + 1)))" using calculation(1) by simp
  ultimately show ?case by simp
next
  case (3 k p ps uid)
  show ?case
  proof (cases "pID p = uid")
    case True
    with 3 show ?thesis by simp
  next
    case False
    with 3 have "k + 1 \<le> i" "i < k + 1 + int (length ps)"
      "\<exists>p. ps ! nat (i - (k + 1)) = Some p \<and> pID p = uid" by auto
    moreover have "nat (i - k) = Suc (nat (i - (k + 1)))" using calculation(1) by simp
    ultimately show ?thesis by simp
  qed
qed simp

lemma GetPlayer_Some:
  assumes "GetPlayer g uid = Some i"
  obtains p where "player_at g i = Inr p" "pID p = uid"
  using find_player_Some [of 0 "Players g" uid i] assms
  by (auto simp: GetPlayer_def player_at_Inr)

lemma find_player_None: "find_player k ps uid = None \<Longrightarrow> Some p \<in> set ps \<Longrightarrow> pID p \<noteq> uid"
  by (induction k ps uid rule: find_player.induct) (auto split: if_splits)

lemma GetPlayer_player_at:
  assumes "seats_ok g" "player_at g i = Inr p"
  shows "GetPlayer g (pID p) = Some i"
proof (cases "GetPlayer g (pID p)")
  case None
  have "Some p \<in> set (Players g)"
    using player_at_range [OF assms(2)] by (metis nat_less_iff nth_mem)
  with None show ?thesis using find_player_None by (metis GetPlayer_def)
next
  case (Some j)
  then obtain q where "player_at g j = Inr q" "pID q = pID p" by (rule GetPlayer_Some)
  with Some show ?thesis using seats_ID [OF assms(1)] assms(2) by metis
qed

section \<open>Writing through a pointer\<close>

lemma set_player_fields [simp]:
  "Status (set_player g i p) = Status g" "Config (set_player g i p) = Config g"
  "Kitty (set_player g i p) = Kitty g" "CurrentTurn (set_player g i p) = CurrentTurn g"
  "Dealer (set_player g i p) = Dealer g" "Bids (set_player g i p) = Bids g"
  "CurrentBid (set_player g i p) = CurrentBid g" "Declarer (set_player g i p) = Declarer g"
  "PassedPlayers (set_player g i p) = PassedPlayers g" "Contract (set_player g i p) = Contract g"
  "PartnerCard (set_player g i p) = PartnerCard g" "PartnerSeat (set_player g i p) = PartnerSeat g"
  "IsNoFriend (set_player g i p) = IsNoFriend g" "Trump (set_player g i p) = Trump g"
  "Tricks (set_player g i p) = Tricks g" "Scores (set_player g i p) = Scores g"
  "TotalScores (set_player g i p) = TotalScores g" "Version (set_player g i p) = Version g"
  "ScoreHistory (set_player g i p) = ScoreHistory g"
  "PlayAgainVotes (set_player g i p) = PlayAgainVotes g"
  "length (Players (set_player g i p)) = length (Players g)"
  "numSeats (set_player g i p) = numSeats g" "minBidPoints (set_player g i p) = minBidPoints g"
  by (simp_all add: set_player_def numSeats_def minBidPoints_def)

text \<open>Everything about seats depends on the \<open>Players\<close> and \<open>Config\<close> fields only.\<close>

lemma player_at_cong: "Players g = Players g' \<Longrightarrow> player_at g i = player_at g' i"
  by (simp add: player_at_def)

lemma numSeats_cong: "Config g = Config g' \<Longrightarrow> numSeats g = numSeats g'"
  by (simp add: numSeats_def)

lemma minBidPoints_cong: "Config g = Config g' \<Longrightarrow> minBidPoints g = minBidPoints g'"
  by (simp add: minBidPoints_def numSeats_def)

lemma hand_of_cong: "Players g = Players g' \<Longrightarrow> hand_of g i = hand_of g' i"
  by (simp add: hand_of_def player_at_def)

lemma points_of_cong: "Players g = Players g' \<Longrightarrow> points_of g i = points_of g' i"
  by (simp add: points_of_def player_at_def)

lemma filled_cong: "Players g = Players g' \<Longrightarrow> filled g i = filled g' i"
  by (simp add: filled_def player_at_def)

lemma seats_ok_cong: "Players g = Players g' \<Longrightarrow> Config g = Config g' \<Longrightarrow> seats_ok g = seats_ok g'"
  unfolding seats_ok_def by (simp add: player_at_cong [of g g'])

lemma table_ok_cong: "Players g = Players g' \<Longrightarrow> Config g = Config g' \<Longrightarrow> table_ok g = table_ok g'"
  unfolding table_ok_def
  by (simp add: seats_ok_cong [of g g'] numSeats_cong [of g g'] filled_cong [of g g'])

lemma player_at_set_player:
  assumes "player_at g i = Inr p"
  shows "player_at (set_player g i p') j = (if j = i then Inr p' else player_at g j)"
  using player_at_range [OF assms]
  by (auto simp: player_at_def set_player_def nth_list_update eq_nat_nat_iff)

lemma hand_of_set_player:
  "player_at g i = Inr p \<Longrightarrow> hand_of (set_player g i p') j = (if j = i then Hand p' else hand_of g j)"
  by (simp add: hand_of_def player_at_set_player)

lemma points_of_set_player:
  "player_at g i = Inr p \<Longrightarrow>
   points_of (set_player g i p') j = (if j = i then Points p' else points_of g j)"
  by (simp add: points_of_def player_at_set_player)

lemma filled_set_player:
  "player_at g i = Inr p \<Longrightarrow> filled (set_player g i p') j = filled g j"
  by (auto simp: filled_def player_at_set_player)

lemma seats_ok_set_player:
  assumes "seats_ok g" "player_at g i = Inr p" "pID p' = pID p" "Seat p' = Seat p"
  shows "seats_ok (set_player g i p')"
  unfolding seats_ok_def
  using assms(1) assms(3,4) seats_Seat [OF assms(1,2)] seats_ID [OF assms(1,2)]
    seats_ID [OF assms(1) _ assms(2)]
  by (auto simp: player_at_set_player [OF assms(2)] seats_ok_def split: if_splits)

lemma table_ok_set_player:
  "table_ok g \<Longrightarrow> player_at g i = Inr p \<Longrightarrow> pID p' = pID p \<Longrightarrow> Seat p' = Seat p \<Longrightarrow>
   table_ok (set_player g i p')"
  by (simp add: table_ok_def seats_ok_set_player filled_set_player)

lemma hand_of_player: "player_at g i = Inr p \<Longrightarrow> hand_of g i = Hand p"
  by (simp add: hand_of_def)

lemma points_of_player: "player_at g i = Inr p \<Longrightarrow> points_of g i = Points p"
  by (simp add: points_of_def)

section \<open>All hands, all points\<close>

definition all_hands :: "Game \<Rightarrow> Card multiset" where
  "all_hands g = (\<Sum>i \<in> {0..<numSeats g}. mset (hand_of g i))"

definition all_points :: "Game \<Rightarrow> Card multiset" where
  "all_points g = (\<Sum>i \<in> {0..<5}. mset (points_of g i))"

lemma all_hands_cong: "Players g = Players g' \<Longrightarrow> Config g = Config g' \<Longrightarrow> all_hands g = all_hands g'"
  by (simp add: all_hands_def hand_of_cong [of g g'] numSeats_cong [of g g'])

lemma all_points_cong: "Players g = Players g' \<Longrightarrow> all_points g = all_points g'"
  by (simp add: all_points_def points_of_cong [of g g'])

lemma sum_update_one:
  fixes f f' :: "int \<Rightarrow> 'a multiset"
  assumes "finite A" "i \<in> A" "\<And>j. j \<noteq> i \<Longrightarrow> f' j = f j"
  shows "sum f' A + f i = sum f A + f' i"
proof -
  have "sum f' (A - {i}) = sum f (A - {i})" by (rule sum.cong) (use assms(3) in auto)
  then show ?thesis using assms(1,2) by (simp add: sum.remove [of A i])
qed

lemma all_hands_set_player:
  assumes "player_at g i = Inr p" "0 \<le> i" "i < numSeats g"
  shows "all_hands (set_player g i p') + mset (Hand p) = all_hands g + mset (Hand p')"
proof -
  have "sum (\<lambda>j. mset (hand_of (set_player g i p') j)) {0..<numSeats g} + mset (hand_of g i)
      = sum (\<lambda>j. mset (hand_of g j)) {0..<numSeats g} + mset (hand_of (set_player g i p') i)"
    by (rule sum_update_one) (use assms in \<open>simp_all add: hand_of_set_player [OF assms(1)]\<close>)
  then show ?thesis
    by (simp add: all_hands_def hand_of_set_player [OF assms(1)] hand_of_player [OF assms(1)])
qed

lemma all_points_set_player:
  assumes "player_at g i = Inr p" "0 \<le> i" "i < 5"
  shows "all_points (set_player g i p') + mset (Points p) = all_points g + mset (Points p')"
proof -
  have "sum (\<lambda>j. mset (points_of (set_player g i p') j)) {0..<5} + mset (points_of g i)
      = sum (\<lambda>j. mset (points_of g j)) {0..<5} + mset (points_of (set_player g i p') i)"
    by (rule sum_update_one) (use assms in \<open>simp_all add: points_of_set_player [OF assms(1)]\<close>)
  then show ?thesis
    by (simp add: all_points_def points_of_set_player [OF assms(1)] points_of_player [OF assms(1)])
qed

lemma hand_subset_all:
  assumes "0 \<le> i" "i < numSeats g"
  shows "mset (hand_of g i) \<subseteq># all_hands g"
  unfolding all_hands_def using assms by (simp add: sum.remove [of _ i])

section \<open>The deal\<close>

lemma hand_out_nth:
  "length hs \<le> length ps \<Longrightarrow> i < length ps \<Longrightarrow>
   hand_out ps hs ! i = (if i < length hs
     then map_option (\<lambda>p. p\<lparr>Hand := hs ! i, Points := []\<rparr>) (ps ! i) else ps ! i)"
proof (induction ps hs arbitrary: i rule: hand_out.induct)
  case (3 ps h hs)
  then show ?case by (cases i) auto
next
  case (4 p ps h hs)
  then show ?case by (cases i) auto
qed auto

lemma length_hand_out: "length hs \<le> length ps \<Longrightarrow> length (hand_out ps hs) = length ps"
  by (induction ps hs rule: hand_out.induct) auto

lemma Start_fields [simp]:
  "Status (Start e g) = PhaseBidding" "Config (Start e g) = Config g"
  "CurrentTurn (Start e g) = 0" "Dealer (Start e g) = Dealer g" "Bids (Start e g) = Bids g"
  "CurrentBid (Start e g) = CurrentBid g" "Declarer (Start e g) = Declarer g"
  "PassedPlayers (Start e g) = PassedPlayers g" "Contract (Start e g) = Contract g"
  "PartnerCard (Start e g) = PartnerCard g" "PartnerSeat (Start e g) = PartnerSeat g"
  "IsNoFriend (Start e g) = IsNoFriend g" "Trump (Start e g) = Trump g"
  "Tricks (Start e g) = Tricks g" "Scores (Start e g) = Scores g"
  "TotalScores (Start e g) = TotalScores g" "ScoreHistory (Start e g) = ScoreHistory g"
  "PlayAgainVotes (Start e g) = PlayAgainVotes g" "Version (Start e g) = Version g"
  "numSeats (Start e g) = numSeats g" "minBidPoints (Start e g) = minBidPoints g"
  "gID (Start e g) = gID g" "CreatedAt (Start e g) = CreatedAt g"
  by (simp_all add: Start_def Let_def split_def numSeats_def minBidPoints_def)

lemma Start_deal:
  fixes e :: Env
  assumes "seats_ok g"
  obtains hs kitty where "length hs = nat (numSeats g)" "\<And>h. h \<in> set hs \<Longrightarrow> length h = 10"
    "length kitty = 3" "mset (concat hs) + mset kitty = mset (NewDeckFor (numSeats g))"
    "Kitty (Start e g) = kitty" "Players (Start e g) = hand_out (Players g) hs"
proof -
  let ?n = "nat (numSeats g)" and ?d = "Shuffle (draws e) (NewDeckFor (numSeats g))"
  have n: "?n = 4 \<or> ?n = 5" "int ?n = numSeats g" using seats_range [OF assms] by auto
  have "length ?d = 10 * ?n + 3"
    using deck_facts(2) [of "numSeats g"] seats_range [OF assms] by auto
  from Deal_Deck [OF n(1) this] obtain hs kitty where D: "Deal ?d (int ?n) = (hs, kitty)"
    and hs: "length hs = ?n" "\<And>h. h \<in> set hs \<Longrightarrow> length h = 10" "length kitty = 3"
    and cat: "concat hs @ kitty = ?d" by metis
  have "mset (concat hs) + mset kitty = mset (NewDeckFor (numSeats g))"
    using arg_cong [OF cat, of mset] by simp
  with hs D n(2) that show thesis by (simp add: Start_def Let_def)
qed

lemma player_at_Start:
  assumes "seats_ok g" "Players (Start e g) = hand_out (Players g) hs" "length hs = nat (numSeats g)"
  shows "player_at (Start e g) i =
    (case player_at g i of Inl x \<Rightarrow> Inl x
     | Inr p \<Rightarrow> Inr (if i < numSeats g then p\<lparr>Hand := hs ! nat i, Points := []\<rparr> else p))"
proof -
  have len: "length hs \<le> length (Players g)" "length (Players g) = 5"
    using assms seats_range [OF assms(1)] by (auto simp: seats_ok_def)
  show ?thesis
  proof (cases "i < 0 \<or> 5 \<le> i")
    case True
    then show ?thesis using assms(2) len length_hand_out [OF len(1)] by (auto simp: player_at_def)
  next
    case False
    then have i: "nat i < length (Players g)" using len(2) by linarith
    show ?thesis
      using False assms(2,3) len length_hand_out [OF len(1)] hand_out_nth [OF len(1) i]
      by (auto simp: player_at_def split: option.splits)
  qed
qed

lemma sum_mset_concat: "(\<Sum>i < length hs. mset (hs ! i)) = mset (concat hs)"
proof (induction hs rule: rev_induct)
  case (snoc h hs)
  have "(\<Sum>i < length hs. mset ((hs @ [h]) ! i)) = (\<Sum>i < length hs. mset (hs ! i))"
    by (rule sum.cong) (simp_all add: nth_append)
  with snoc show ?case by simp
qed simp

lemma sum_int_nat: "0 \<le> n \<Longrightarrow> (\<Sum>i \<in> {0..<n}. f (nat i)) = (\<Sum>k < nat n. f k)"
  by (rule sum.reindex_bij_witness [of _ int nat]) auto

lemma Start_table:
  assumes "table_ok g"
  shows "table_ok (Start e g)"
    and "all_hands (Start e g) + mset (Kitty (Start e g)) = mset (NewDeckFor (numSeats g))"
    and "length (Kitty (Start e g)) = 3"
    and "\<And>i. 0 \<le> i \<Longrightarrow> i < numSeats g \<Longrightarrow> length (hand_of (Start e g) i) = 10"
    and "\<And>i. points_of (Start e g) i = (if i < numSeats g then [] else points_of g i)"
proof -
  have s: "seats_ok g" by (rule table_seats [OF assms])
  obtain hs kitty where hs: "length hs = nat (numSeats g)" "\<And>h. h \<in> set hs \<Longrightarrow> length h = 10"
    and k: "length kitty = 3" "mset (concat hs) + mset kitty = mset (NewDeckFor (numSeats g))"
      "Kitty (Start e g) = kitty" and ps: "Players (Start e g) = hand_out (Players g) hs"
    using Start_deal [OF s, of e] by metis
  note at = player_at_Start [OF s ps hs(1)]
  have n: "0 \<le> numSeats g" using seats_range [OF s] by auto
  have hand: "hand_of (Start e g) i = hs ! nat i" if i: "0 \<le> i" "i < numSeats g" for i
  proof -
    obtain p where "player_at g i = Inr p" by (rule table_filled [OF assms i])
    then show ?thesis using i by (simp add: hand_of_def at)
  qed
  have "filled (Start e g) i = filled g i" for i
    by (auto simp: filled_def at split: sum.splits)
  moreover have "seats_ok (Start e g)"
    using s length_hand_out [of hs "Players g"] hs(1) seats_range [OF s] ps
    by (auto simp: seats_ok_def at split: sum.splits if_splits)
  ultimately show "table_ok (Start e g)" using assms by (simp add: table_ok_def)
  have "all_hands (Start e g) = (\<Sum>i \<in> {0..<numSeats g}. mset (hs ! nat i))"
    unfolding all_hands_def by (rule sum.cong) (simp_all add: hand)
  also have "\<dots> = mset (concat hs)"
    using sum_int_nat [OF n, of "\<lambda>k. mset (hs ! k)"] sum_mset_concat [of hs] hs(1) by simp
  finally show "all_hands (Start e g) + mset (Kitty (Start e g)) = mset (NewDeckFor (numSeats g))"
    using k by simp
  show "length (Kitty (Start e g)) = 3" using k by simp
  show "length (hand_of (Start e g) i) = 10" if i: "0 \<le> i" "i < numSeats g" for i
    using hand [OF i] hs i by simp
  show "points_of (Start e g) i = (if i < numSeats g then [] else points_of g i)" for i
    by (auto simp: points_of_def at split: sum.splits)
qed

end
