(* ===== verification/Auction.thy ===== *)
theory Auction
  imports Table
begin

text \<open>
  The auction. The abstract picture of the bidding is a ring: the seats still in the auction, in
  the order in which they will be asked, the one on turn in front. A bid sends the bidder to the
  end of the ring, a pass takes the head out. The code keeps a turn counter and a map of passed
  seats and walks around the table; the lemmas below show that the walk always ends and that
  the code's state refines the ring.
\<close>

section \<open>The ring\<close>

definition seats_from :: "int \<Rightarrow> int \<Rightarrow> int list" where
  "seats_from n t = map (\<lambda>k. (t + int k) mod n) [0..<nat n]"

definition ring :: "(int, bool) gomap \<Rightarrow> int \<Rightarrow> int \<Rightarrow> int list" where
  "ring passed n t = filter (\<lambda>s. \<not> gm_has passed s) (seats_from n t)"

lemma seats_from_step:
  assumes "0 \<le> t" "t < n"
  shows "seats_from n ((t + 1) mod n) = rotate1 (seats_from n t)"
proof -
  obtain m where m: "nat n = Suc m" using assms by (cases "nat n") auto
  then have n: "n = int m + 1" using assms by linarith
  have "map (\<lambda>k. (t + int k) mod n) [Suc 0..<Suc m] = map (\<lambda>k. (t + 1 + int k) mod n) [0..<m]"
    unfolding map_Suc_upt [symmetric] by (simp add: o_def algebra_simps del: upt_Suc)
  then have "seats_from n t = t # map (\<lambda>k. (t + 1 + int k) mod n) [0..<m]"
    using assms m by (simp add: seats_from_def upt_conv_Cons del: upt_Suc)
  moreover have "seats_from n ((t + 1) mod n) = map (\<lambda>k. (t + 1 + int k) mod n) [0..<Suc m]"
    unfolding seats_from_def m by (rule map_cong) (simp_all add: mod_add_left_eq)
  moreover have "t + 1 + int m = t + n" using n by simp
  then have "(t + 1 + int m) mod n = t" using assms by (simp only: mod_add_self2 mod_pos_pos_trivial)
  ultimately show ?thesis by simp
qed

lemma seats_from_rotate: "t < nat n \<Longrightarrow> seats_from n (int t) = rotate t (map int [0..<nat n])"
proof (induction t)
  case 0
  show ?case by (auto simp: seats_from_def intro: nth_equalityI)
next
  case (Suc t)
  then have "seats_from n ((int t + 1) mod n) = rotate1 (seats_from n (int t))"
    by (intro seats_from_step) auto
  moreover have "(int t + 1) mod n = int (Suc t)" using Suc.prems by simp
  ultimately show ?case using Suc by (simp add: rotate_Suc)
qed

lemma seats_from_set:
  assumes "0 \<le> t" "t < n"
  shows "set (seats_from n t) = {0..<n}" and "distinct (seats_from n t)"
proof -
  have r: "seats_from n t = rotate (nat t) (map int [0..<nat n])"
    using seats_from_rotate [of "nat t" n] assms by simp
  have "int ` {0..<nat n} = {0..<n}"
    using assms by (simp add: image_int_atLeastLessThan)
  then show "set (seats_from n t) = {0..<n}" by (simp add: r)
  show "distinct (seats_from n t)" by (simp add: r distinct_map)
qed

lemma ring_step:
  assumes "0 \<le> t" "t < n"
  shows "ring passed n ((t + 1) mod n) =
    (if gm_has passed t then ring passed n t else rotate1 (ring passed n t))"
proof -
  obtain ys where "seats_from n t = t # ys"
    using assms by (cases "nat n") (auto simp: seats_from_def upt_conv_Cons simp del: upt_Suc)
  then show ?thesis by (simp add: ring_def seats_from_step [OF assms])
qed

lemma ring_Cons:
  assumes "0 \<le> t" "t < n" "\<not> gm_has passed t"
  obtains rest where "ring passed n t = t # rest"
proof -
  obtain ys where "seats_from n t = t # ys"
    using assms by (cases "nat n") (auto simp: seats_from_def upt_conv_Cons simp del: upt_Suc)
  with assms(3) show thesis by (intro that) (simp add: ring_def)
qed

lemma ring_set: "0 \<le> t \<Longrightarrow> t < n \<Longrightarrow> set (ring passed n t) = {0..<n} - gm_keys passed"
  by (auto simp: ring_def seats_from_set gm_has_keys)

lemma ring_distinct: "0 \<le> t \<Longrightarrow> t < n \<Longrightarrow> distinct (ring passed n t)"
  by (simp add: ring_def seats_from_set)

lemma ring_length:
  assumes "0 \<le> t" "t < n" "gm_flags passed" "gm_keys passed \<subseteq> {0..<n}"
  shows "int (length (ring passed n t)) = n - gm_len passed"
proof -
  have "length (ring passed n t) = card ({0..<n} - gm_keys passed)"
    using distinct_card [OF ring_distinct [OF assms(1,2)], of passed] ring_set [OF assms(1,2)]
    by simp
  also have "\<dots> = nat n - card (gm_keys passed)"
    using gm_len_keys [OF assms(3)] assms(4) by (subst card_Diff_subset) auto
  moreover have "card (gm_keys passed) \<le> nat n"
    using card_mono [OF _ assms(4)] by simp
  ultimately show ?thesis using gm_len_keys [OF assms(3)] assms(1,2) by simp
qed

lemma ring_pass:
  assumes "0 \<le> t" "t < n" "\<not> gm_has passed t"
  shows "ring (gm_set t True passed) n t = tl (ring passed n t)"
proof -
  obtain ys where ys: "seats_from n t = t # ys"
    using assms by (cases "nat n") (auto simp: seats_from_def upt_conv_Cons simp del: upt_Suc)
  then have "t \<notin> set ys" using seats_from_set(2) [OF assms(1,2)] by simp
  then have "filter (\<lambda>s. \<not> gm_has (gm_set t True passed) s) ys = filter (\<lambda>s. \<not> gm_has passed s) ys"
    by (intro filter_cong) auto
  with ys assms(3) show ?thesis by (simp add: ring_def)
qed

section \<open>The walk to the next bidder\<close>

lemma next_bidder_walk:
  assumes "0 \<le> t" "0 < n" "\<exists>s. 0 \<le> s \<and> s < n \<and> \<not> gm_has passed s"
  shows "\<exists>t'. next_bidder passed n t = Some t' \<and> 0 \<le> t' \<and> t' < n \<and> \<not> gm_has passed t' \<and>
    ring passed n t' = ring passed n ((t + 1) mod n)"
  using assms
proof (induction "length (takeWhile (gm_has passed) (seats_from n ((t + 1) mod n)))" arbitrary: t
    rule: less_induct)
  case less
  let ?u = "(t + 1) mod n"
  have u: "0 \<le> ?u" "?u < n" "go_rem (t + 1) n = ?u" using less.prems(1,2) by simp_all
  show ?case
  proof (cases "gm_has passed ?u")
    case False
    then show ?thesis using u by (subst next_bidder.simps) (simp add: Let_def)
  next
    case True
    obtain ys where ys: "seats_from n ?u = ?u # ys"
      using u by (cases "nat n") (auto simp: seats_from_def upt_conv_Cons simp del: upt_Suc)
    obtain s where s: "0 \<le> s" "s < n" "\<not> gm_has passed s" using less.prems(3) by blast
    then have "s \<in> insert ?u (set ys)" using seats_from_set(1) [OF u(1,2)] ys by simp
    moreover have "s \<noteq> ?u" using s(3) True by auto
    ultimately have "s \<in> set ys" by simp
    then have "takeWhile (gm_has passed) (ys @ [?u]) = takeWhile (gm_has passed) ys"
      using s(3) by (rule takeWhile_append1)
    then have "length (takeWhile (gm_has passed) (seats_from n ((?u + 1) mod n)))
        < length (takeWhile (gm_has passed) (seats_from n ?u))"
      using ys True by (simp add: seats_from_step [OF u(1,2)])
    from less.hyps [OF this u(1) less.prems(2,3)] obtain t' where
      t': "next_bidder passed n ?u = Some t'" "0 \<le> t'" "t' < n" "\<not> gm_has passed t'"
        "ring passed n t' = ring passed n ((?u + 1) mod n)" by blast
    have "ring passed n ((?u + 1) mod n) = ring passed n ?u"
      using ring_step [OF u(1,2)] True by simp
    with t' True u(3) show ?thesis by (subst next_bidder.simps) (simp add: Let_def)
  qed
qed

lemma next_bidder_sound:
  assumes ret: "next_bidder passed n t = Some r" and "0 < n" "0 \<le> t"
  shows "0 \<le> r \<and> r < n \<and> \<not> gm_has passed r"
proof -
  have "0 < n \<longrightarrow> 0 \<le> t \<longrightarrow> 0 \<le> r \<and> r < n \<and> \<not> gm_has passed r"
  proof (rule next_bidder.raw_induct [where P = "\<lambda>passed n t r. 0 < n \<longrightarrow> 0 \<le> t \<longrightarrow>
      0 \<le> r \<and> r < n \<and> \<not> gm_has passed r", OF _ ret])
    fix f :: "(int, bool) gomap \<Rightarrow> int \<Rightarrow> int \<Rightarrow> int option" and passed n t r
    assume IH: "\<And>passed n t r. f passed n t = Some r \<Longrightarrow> 0 < n \<longrightarrow> 0 \<le> t \<longrightarrow>
        0 \<le> r \<and> r < n \<and> \<not> gm_has passed r"
      and eq: "(let turn' = go_rem (t + 1) n
          in if \<not> gm_has passed turn' then Some turn' else f passed n turn') = Some r"
    show "0 < n \<longrightarrow> 0 \<le> t \<longrightarrow> 0 \<le> r \<and> r < n \<and> \<not> gm_has passed r"
      using IH [of passed n "go_rem (t + 1) n" r] eq
      by (auto simp: Let_def split: if_splits)
  qed
  with assms show ?thesis by blast
qed

text \<open>
  The loop that looks for the next bidder has no bound of its own. It returns exactly when some seat
  has not passed; with every seat passed it would spin for ever, which is what the guard of
  advanceToNextBidder is for.
\<close>

lemma next_bidder_returns_iff:
  assumes "0 \<le> t" "0 < n"
  shows "(\<exists>t'. next_bidder passed n t = Some t') \<longleftrightarrow> (\<exists>s. 0 \<le> s \<and> s < n \<and> \<not> gm_has passed s)"
  using next_bidder_walk [OF assms] next_bidder_sound assms by blast

end
