(* ===== verification/Round.thy ===== *)
theory Round
  imports Auction
begin

text \<open>
  The invariant of a round, phase by phase: where the 53 (or 43) cards are, how many each player
  holds, who is on turn, and how the contract, the tricks and the captured points agree.

  Cards that were discarded leave the game state, so from the exchange on the invariant speaks of
  a multiset \<open>D\<close> of discarded cards. The validator accepts a discard that names one card several
  times, and then fewer than three cards leave the hand; the flag \<open>h\<close> says that this never
  happens, and then \<open>D\<close> has three cards.
\<close>

section \<open>Cards\<close>

abbreviation deck_of :: "Game \<Rightarrow> Card multiset" where
  "deck_of g \<equiv> mset (NewDeckFor (numSeats g))"

definition cards_in :: "Trick list \<Rightarrow> Card multiset" where
  "cards_in ts = mset (map pcCard (concat (map tCards ts)))"

abbreviation points_in :: "Card multiset \<Rightarrow> Card multiset" where
  "points_in M \<equiv> filter_mset IsPointCard M"

lemma cards_in_simps [simp]:
  "cards_in [] = {#}" "cards_in (t # ts) = mset (map pcCard (tCards t)) + cards_in ts"
  "cards_in (ts @ us) = cards_in ts + cards_in us"
  by (simp_all add: cards_in_def)

definition discard_ok :: "bool \<Rightarrow> Card multiset \<Rightarrow> bool" where
  "discard_ok h D \<longleftrightarrow> 1 \<le> size D \<and> size D \<le> 3 \<and> (h \<longrightarrow> size D = 3)"

section \<open>Bids and contract\<close>

definition bid_ok :: "Game \<Rightarrow> Bid \<Rightarrow> bool" where
  "bid_ok g b \<longleftrightarrow> minBidPoints g \<le> bPoints b \<and> bPoints b \<le> 10 \<and>
     (if IsNoTrump b then bSuit b = NoneSuit else suitRank (bSuit b) \<noteq> None)"

text \<open>The bids of the history that are not passes.\<close>

definition real_bids :: "Game \<Rightarrow> Bid list" where
  "real_bids g = filter (\<lambda>b. bPoints b \<noteq> 0) (Bids g)"

definition bid_log :: "Game \<Rightarrow> Bid option \<Rightarrow> bool" where
  "bid_log g hi \<longleftrightarrow>
     sorted_wrt (\<lambda>a b. bPoints a < bPoints b) (real_bids g) \<and>
     hi = (if real_bids g = [] then None else Some (last (real_bids g)))"

definition auction_ok :: "Game \<Rightarrow> bool" where
  "auction_ok g \<longleftrightarrow>
     gm_flags (PassedPlayers g) \<and> gm_keys (PassedPlayers g) \<subseteq> {0..<numSeats g} \<and>
     0 \<le> CurrentTurn g \<and> CurrentTurn g < numSeats g \<and> \<not> gm_has (PassedPlayers g) (CurrentTurn g) \<and>
     bid_log g (CurrentBid g) \<and>
     (case CurrentBid g of
        None \<Rightarrow> True
      | Some b \<Rightarrow> bid_ok g b \<and> bPoints b < 10 \<and>
          (let r = ring (PassedPlayers g) (numSeats g) (CurrentTurn g)
           in 2 \<le> length r \<and> last r = Declarer g))"

definition contract_ok :: "Game \<Rightarrow> bool" where
  "contract_ok g \<longleftrightarrow>
     0 \<le> Declarer g \<and> Declarer g < numSeats g \<and>
     (\<exists>b. Contract g = Some b \<and> bid_ok g b \<and> Trump g = bSuit b) \<and> bid_log g (Contract g)"

definition no_partner :: "Game \<Rightarrow> bool" where
  "no_partner g \<longleftrightarrow> PartnerCard g = None \<and> PartnerSeat g = -1 \<and> \<not> IsNoFriend g"

section \<open>The phases\<close>

definition deal_inv :: "Game \<Rightarrow> bool" where
  "deal_inv g \<longleftrightarrow> table_ok g \<and> 0 \<le> Dealer g \<and>
     Tricks g = [] \<and> length (Kitty g) = 3 \<and> all_hands g + mset (Kitty g) = deck_of g \<and>
     (\<forall>i. 0 \<le> i \<and> i < numSeats g \<longrightarrow> length (hand_of g i) = 10) \<and>
     (\<forall>i. points_of g i = []) \<and> no_partner g"

definition bidding_inv :: "Game \<Rightarrow> bool" where
  "bidding_inv g \<longleftrightarrow> Status g = PhaseBidding \<and> deal_inv g \<and> auction_ok g"

definition exchanging_inv :: "Game \<Rightarrow> bool" where
  "exchanging_inv g \<longleftrightarrow> Status g = PhaseExchanging \<and> table_ok g \<and> 0 \<le> Dealer g \<and> contract_ok g \<and>
     Tricks g = [] \<and> Kitty g = [] \<and> all_hands g = deck_of g \<and>
     (\<forall>i. 0 \<le> i \<and> i < numSeats g \<longrightarrow>
        length (hand_of g i) = (if i = Declarer g then 13 else 10)) \<and>
     (\<forall>i. points_of g i = []) \<and> no_partner g"

definition calling_inv :: "bool \<Rightarrow> Game \<Rightarrow> bool" where
  "calling_inv h g \<longleftrightarrow> Status g = PhaseCalling \<and> table_ok g \<and> 0 \<le> Dealer g \<and> contract_ok g \<and>
     Tricks g = [] \<and> Kitty g = [] \<and> no_partner g \<and>
     (\<exists>D. discard_ok h D \<and> all_hands g + D = deck_of g \<and> all_points g = points_in D \<and>
       (\<forall>i. 0 \<le> i \<and> i < numSeats g \<longrightarrow>
          length (hand_of g i) + (if i = Declarer g then size D else 3) = 13))"

text \<open>
  The current trick: the seats that have played are an initial stretch of the table from the leader
  on, and the turn counter points at the seat after them.
\<close>

definition trick_turn :: "Game \<Rightarrow> Trick \<Rightarrow> bool" where
  "trick_turn g t \<longleftrightarrow> (\<exists>lead. 0 \<le> lead \<and> lead < numSeats g \<and>
     int (length (tCards t)) \<le> numSeats g \<and>
     map pcSeat (tCards t) = take (length (tCards t)) (seats_from (numSeats g) lead) \<and>
     CurrentTurn g = (lead + int (length (tCards t))) mod numSeats g)"

definition tricks_ok :: "Game \<Rightarrow> bool" where
  "tricks_ok g \<longleftrightarrow> Tricks g \<noteq> [] \<and> length (Tricks g) \<le> 10 \<and>
     (\<forall>t \<in> set (butlast (Tricks g)).
        int (length (tCards t)) = numSeats g \<and> pcSeat ` set (tCards t) = {0..<numSeats g}) \<and>
     trick_turn g (last (Tricks g)) \<and>
     (tCards (last (Tricks g)) = [] \<or> length (Tricks g) = 1 \<longrightarrow> \<not> JokerCalled (last (Tricks g))) \<and>
     (tCards (last (Tricks g)) \<noteq> [] \<longrightarrow> suitRank (LeadSuit (last (Tricks g))) \<noteq> None)"

text \<open>No hand reaches its last card with the mighty or the joker in it.\<close>

definition special_ok :: "Game \<Rightarrow> Card list \<Rightarrow> bool" where
  "special_ok g hand \<longleftrightarrow>
     (length hand \<le> 2 \<longrightarrow> \<not> (list_ex (IsMighty g) hand \<and> list_ex (\<lambda>c. Rank c = Joker) hand)) \<and>
     (length hand \<le> 1 \<longrightarrow> \<not> list_ex (IsMighty g) hand \<and> \<not> list_ex (\<lambda>c. Rank c = Joker) hand)"

definition has_played :: "Trick \<Rightarrow> int \<Rightarrow> bool" where
  "has_played t i \<longleftrightarrow> i \<in> pcSeat ` set (tCards t)"

text \<open>
  \<open>playing_core\<close> also holds just after the last card of a trick, \<open>playing_inv\<close> between the moves.
\<close>

definition playing_core :: "bool \<Rightarrow> Game \<Rightarrow> bool" where
  "playing_core h g \<longleftrightarrow> Status g = PhasePlaying \<and> table_ok g \<and> 0 \<le> Dealer g \<and> contract_ok g \<and>
     Kitty g = [] \<and> tricks_ok g \<and>
     (\<forall>i. 0 \<le> i \<and> i < numSeats g \<longrightarrow> special_ok g (hand_of g i)) \<and>
     (\<exists>D. discard_ok h D \<and> all_hands g + cards_in (Tricks g) + D = deck_of g \<and>
       all_points g = points_in (cards_in (butlast (Tricks g))) + points_in D \<and>
       (\<forall>i. 0 \<le> i \<and> i < numSeats g \<longrightarrow>
          length (hand_of g i) + length (Tricks g) + (if has_played (last (Tricks g)) i then 1 else 0)
            + (if i = Declarer g then size D else 3) = 14))"

definition playing_inv :: "bool \<Rightarrow> Game \<Rightarrow> bool" where
  "playing_inv h g \<longleftrightarrow>
     playing_core h g \<and> int (length (tCards (last (Tricks g)))) < numSeats g"

definition finished_inv :: "bool \<Rightarrow> Game \<Rightarrow> bool" where
  "finished_inv h g \<longleftrightarrow> Status g = PhaseFinished \<and> seats_ok g \<and> 0 \<le> Dealer g \<and>
     (\<forall>i. 0 \<le> i \<and> i < 4 \<longrightarrow> filled g i) \<and>
     gm_flags (PlayAgainVotes g) \<and> gm_keys (PlayAgainVotes g) \<subseteq> {i. filled g i} \<and>
     length (Tricks g) = 10 \<and>
     (h \<longrightarrow> (\<forall>i. hand_of g i = []) \<and> Kitty g = [] \<and> (\<exists>n D. (n = 4 \<or> n = 5) \<and> size D = 3 \<and>
        cards_in (Tricks g) + D = mset (NewDeckFor n) \<and> all_points g = points_in (cards_in (Tricks g) + D)))"

text \<open>A fifth player who stayed when the table went down to four seats holds no cards.\<close>

definition spare :: "Game \<Rightarrow> bool" where
  "spare g \<longleftrightarrow> (\<forall>i \<ge> numSeats g. hand_of g i = [])"

definition waiting_inv :: "Game \<Rightarrow> bool" where
  "waiting_inv g \<longleftrightarrow> Status g = PhaseWaiting \<and> seats_ok g \<and> Dealer g = 0 \<and> \<not> table_ok g \<and>
     PassedPlayers g = [] \<and> CurrentBid g = None \<and> Bids g = [] \<and> Tricks g = [] \<and>
     PlayAgainVotes g = [] \<and> (\<forall>i. points_of g i = []) \<and> (\<forall>i \<ge> numSeats g. \<not> filled g i) \<and>
     (\<forall>i. hand_of g i = []) \<and> Kitty g = [] \<and> no_partner g"

definition round_inv :: "bool \<Rightarrow> Game \<Rightarrow> bool" where
  "round_inv h g \<longleftrightarrow> (h \<longrightarrow> spare g) \<and>
     (case Status g of
        PhaseWaiting \<Rightarrow> waiting_inv g
      | PhaseBidding \<Rightarrow> bidding_inv g \<and> PlayAgainVotes g = []
      | PhaseExchanging \<Rightarrow> exchanging_inv g \<and> PlayAgainVotes g = []
      | PhaseCalling \<Rightarrow> calling_inv h g \<and> PlayAgainVotes g = []
      | PhasePlaying \<Rightarrow> playing_inv h g \<and> PlayAgainVotes g = []
      | PhaseFinished \<Rightarrow> finished_inv h g)"

lemmas round_defs = bidding_inv_def deal_inv_def exchanging_inv_def calling_inv_def playing_inv_def
  playing_core_def finished_inv_def waiting_inv_def

section \<open>Congruence: the parts of the invariant see only some fields\<close>

lemma bid_ok_cong: "Config g = Config g' \<Longrightarrow> bid_ok g b = bid_ok g' b"
  by (simp add: bid_ok_def minBidPoints_cong [of g g'])

lemma bid_log_cong: "Bids g = Bids g' \<Longrightarrow> bid_log g t = bid_log g' t"
  by (simp add: bid_log_def real_bids_def)

lemma contract_ok_cong:
  "Config g = Config g' \<Longrightarrow> Declarer g = Declarer g' \<Longrightarrow> Contract g = Contract g' \<Longrightarrow>
   Trump g = Trump g' \<Longrightarrow> Bids g = Bids g' \<Longrightarrow> contract_ok g = contract_ok g'"
  by (simp add: contract_ok_def numSeats_cong [of g g'] bid_ok_cong [of g g'] bid_log_cong [of g g'])

lemma deal_inv_cong:
  "Players g = Players g' \<Longrightarrow> Config g = Config g' \<Longrightarrow> Dealer g = Dealer g' \<Longrightarrow>
   Tricks g = Tricks g' \<Longrightarrow> Kitty g = Kitty g' \<Longrightarrow> PartnerCard g = PartnerCard g' \<Longrightarrow>
   PartnerSeat g = PartnerSeat g' \<Longrightarrow> IsNoFriend g = IsNoFriend g' \<Longrightarrow> deal_inv g = deal_inv g'"
  by (simp add: deal_inv_def no_partner_def table_ok_cong [of g g'] all_hands_cong [of g g']
      hand_of_cong [of g g'] points_of_cong [of g g'] numSeats_cong [of g g'])

lemma auction_ok_cong:
  "Config g = Config g' \<Longrightarrow> PassedPlayers g = PassedPlayers g' \<Longrightarrow> Declarer g = Declarer g' \<Longrightarrow>
   CurrentTurn g = CurrentTurn g' \<Longrightarrow> CurrentBid g = CurrentBid g' \<Longrightarrow> Bids g = Bids g' \<Longrightarrow>
   auction_ok g = auction_ok g'"
  by (cases "CurrentBid g'")
     (simp_all add: auction_ok_def numSeats_cong [of g g'] bid_ok_cong [of g g'] bid_log_cong [of g g'])

lemma IsMighty_cong: "Trump g = Trump g' \<Longrightarrow> IsMighty g = IsMighty g'"
  by (rule ext) (simp add: IsMighty_def)

lemma spare_cong: "Players g = Players g' \<Longrightarrow> Config g = Config g' \<Longrightarrow> spare g = spare g'"
  by (simp add: spare_def hand_of_cong [of g g'] numSeats_cong [of g g'])

lemma special_ok_cong: "Trump g = Trump g' \<Longrightarrow> special_ok g hand = special_ok g' hand"
  by (simp add: special_ok_def IsMighty_cong [of g g'])

lemma IsMighty_set_player [simp]: "IsMighty (set_player g i p) = IsMighty g"
  by (rule IsMighty_cong) simp

section \<open>The version bump\<close>

lemma touch_fields [simp]:
  "Status (touch e g) = Status g" "Config (touch e g) = Config g" "Players (touch e g) = Players g"
  "Kitty (touch e g) = Kitty g" "CurrentTurn (touch e g) = CurrentTurn g"
  "Dealer (touch e g) = Dealer g" "Bids (touch e g) = Bids g" "CurrentBid (touch e g) = CurrentBid g"
  "Declarer (touch e g) = Declarer g" "PassedPlayers (touch e g) = PassedPlayers g"
  "Contract (touch e g) = Contract g" "PartnerCard (touch e g) = PartnerCard g"
  "PartnerSeat (touch e g) = PartnerSeat g" "IsNoFriend (touch e g) = IsNoFriend g"
  "Trump (touch e g) = Trump g" "Tricks (touch e g) = Tricks g" "Scores (touch e g) = Scores g"
  "TotalScores (touch e g) = TotalScores g" "ScoreHistory (touch e g) = ScoreHistory g"
  "PlayAgainVotes (touch e g) = PlayAgainVotes g" "Version (touch e g) = Version g + 1"
  "gID (touch e g) = gID g" "CreatedAt (touch e g) = CreatedAt g"
  by (simp_all add: touch_def)

lemma touch_derived [simp]:
  "numSeats (touch e g) = numSeats g" "hand_of (touch e g) = hand_of g"
  "points_of (touch e g) = points_of g" "filled (touch e g) = filled g"
  "player_at (touch e g) = player_at g"
  "seats_ok (touch e g) = seats_ok g" "table_ok (touch e g) = table_ok g"
  "all_hands (touch e g) = all_hands g" "all_points (touch e g) = all_points g"
  "contract_ok (touch e g) = contract_ok g" "auction_ok (touch e g) = auction_ok g"
  "deal_inv (touch e g) = deal_inv g" "spare (touch e g) = spare g" "special_ok (touch e g) = special_ok g"
  by (simp_all add: fun_eq_iff numSeats_cong [of "touch e g" g]
      hand_of_cong [of "touch e g" g]
      points_of_cong [of "touch e g" g]
      filled_cong [of "touch e g" g]
      player_at_cong [of "touch e g" g]
      seats_ok_cong [of "touch e g" g]
      table_ok_cong [of "touch e g" g]
      all_hands_cong [of "touch e g" g]
      all_points_cong [of "touch e g" g]
      contract_ok_cong [of "touch e g" g]
      auction_ok_cong [of "touch e g" g]
      deal_inv_cong [of "touch e g" g]
      spare_cong [of "touch e g" g] special_ok_cong [of "touch e g" g])

lemma touch_inv [simp]:
  "bidding_inv (touch e g) = bidding_inv g" "exchanging_inv (touch e g) = exchanging_inv g"
  "calling_inv h (touch e g) = calling_inv h g" "playing_inv h (touch e g) = playing_inv h g"
  "finished_inv h (touch e g) = finished_inv h g" "waiting_inv (touch e g) = waiting_inv g"
  "round_inv h (touch e g) = round_inv h g"
proof -
  have tt: "trick_turn (touch e g) = trick_turn g" by (rule ext) (simp add: trick_turn_def)
  then have tr: "tricks_ok (touch e g) = tricks_ok g" by (simp add: tricks_ok_def)
  show "bidding_inv (touch e g) = bidding_inv g" by (simp add: bidding_inv_def)
  moreover show "exchanging_inv (touch e g) = exchanging_inv g"
    by (simp add: exchanging_inv_def no_partner_def)
  moreover show "calling_inv h (touch e g) = calling_inv h g"
    by (simp add: calling_inv_def no_partner_def)
  moreover show "playing_inv h (touch e g) = playing_inv h g" by (simp add: playing_inv_def playing_core_def tr)
  moreover show "finished_inv h (touch e g) = finished_inv h g" by (simp add: finished_inv_def)
  moreover show "waiting_inv (touch e g) = waiting_inv g" by (simp add: waiting_inv_def no_partner_def)
  ultimately show "round_inv h (touch e g) = round_inv h g"
    by (cases "Status g") (simp_all add: round_inv_def)
qed

end
