(* ===== verification/Bidding.thy ===== *)
theory Bidding
  imports Round
begin

text \<open>
  The bidding phase: an accepted bid or pass never fails, keeps the invariant of the deal and of
  the auction, and acts on the ring of remaining bidders as one rotation or one removal. The
  contract that ends the auction is its highest bid.
\<close>

section \<open>What a move leaves alone\<close>

definition roster :: "Game \<Rightarrow> (string \<times> string \<times> int) option list" where
  "roster g = map (map_option (\<lambda>p. (pID p, pName p, Seat p))) (Players g)"

definition frame :: "Game \<Rightarrow> Game \<Rightarrow> bool" where
  "frame g g' \<longleftrightarrow> gID g' = gID g \<and> Config g' = Config g \<and> Version g' = Version g \<and>
     Dealer g' = Dealer g \<and> PlayAgainVotes g' = PlayAgainVotes g \<and>
     CreatedAt g' = CreatedAt g \<and> roster g' = roster g"

definition books :: "Game \<Rightarrow> (string, int) gomap \<times> (string, int) gomap list" where
  "books g = (TotalScores g, ScoreHistory g)"

lemma frame_refl [simp]: "frame g g" by (simp add: frame_def)

lemma frame_trans: "frame g g' \<Longrightarrow> frame g' g'' \<Longrightarrow> frame g g''" by (simp add: frame_def)

lemma roster_set_player:
  assumes "player_at g i = Inr p" "pID p' = pID p" "pName p' = pName p" "Seat p' = Seat p"
  shows "roster (set_player g i p') = roster g"
  using player_at_range [OF assms(1)] assms(2-)
  by (intro nth_equalityI) (auto simp: roster_def set_player_def nth_list_update)

lemma frame_set_player:
  "player_at g i = Inr p \<Longrightarrow> pID p' = pID p \<Longrightarrow> pName p' = pName p \<Longrightarrow> Seat p' = Seat p \<Longrightarrow>
   frame g (set_player g i p')"
  by (simp add: frame_def roster_set_player) (simp add: set_player_def)

section \<open>Settling the contract\<close>

lemma settle_contract_ok:
  assumes d: "deal_inv g" and b: "CurrentBid g = Some b" "bid_ok g b" "bid_log g (CurrentBid g)"
    and t: "0 \<le> Declarer g" "Declarer g < numSeats g"
  obtains g' where "settle_contract g = Inr g'" "exchanging_inv g'" "frame g g'" "books g' = books g"
    "Contract g' = Some b" "Declarer g' = Declarer g" "CurrentTurn g' = Declarer g" "Trump g' = bSuit b"
    "\<And>i. hand_of g' i = hand_of g i @ (if i = Declarer g then Kitty g else [])"
proof -
  let ?g = "g\<lparr>Status := PhaseExchanging, Contract := Some b, CurrentTurn := Declarer g,
    Trump := bSuit b\<rparr>"
  have tab: "table_ok g" using d by (simp add: deal_inv_def)
  obtain p where p: "player_at g (Declarer g) = Inr p" by (rule table_filled [OF tab t])
  have p': "player_at ?g (Declarer g) = Inr p" using p by (simp add: player_at_cong [of ?g g])
  let ?p = "p\<lparr>Hand := Hand p @ Kitty g\<rparr>"
  let ?g1 = "set_player ?g (Declarer g) ?p"
  let ?g' = "?g1\<lparr>Kitty := []\<rparr>"
  have run: "settle_contract g = Inr ?g'"
    using b(1) p' by (simp add: settle_contract_def Let_def)
  have hand: "hand_of ?g' i = hand_of g i @ (if i = Declarer g then Kitty g else [])" for i
    by (simp add: hand_of_cong [of ?g' ?g1] hand_of_set_player [OF p'] hand_of_player [OF p]
        hand_of_cong [of ?g g])
  have pts: "points_of ?g' i = points_of g i" for i
    by (simp add: points_of_cong [of ?g' ?g1] points_of_set_player [OF p'] points_of_player [OF p]
        points_of_cong [of ?g g])
  have tab': "table_ok ?g'"
    using tab table_ok_set_player [of ?g "Declarer g" p ?p] p'
    by (simp add: table_ok_cong [of ?g' ?g1] table_ok_cong [of ?g g])
  have "all_hands ?g1 + mset (Hand p) = all_hands g + mset (Hand p) + mset (Kitty g)"
    using all_hands_set_player [OF p', of ?p] t
    by (simp add: numSeats_cong [of ?g g] all_hands_cong [of ?g g])
  then have all: "all_hands ?g' = all_hands g + mset (Kitty g)"
    by (simp add: all_hands_cong [of ?g' ?g1])
  have fr: "frame ?g ?g1" by (rule frame_set_player [OF p']) simp_all
  have "contract_ok ?g'"
    using b t by (simp add: contract_ok_def numSeats_cong [of ?g' g] bid_ok_cong [of ?g' g]
        bid_log_cong [of ?g' g])
  then have "exchanging_inv ?g'"
    using d tab' hand pts all
    by (simp add: exchanging_inv_def deal_inv_def no_partner_def numSeats_cong [of ?g' g] add.commute)
  moreover have "frame g ?g'" using fr by (simp add: frame_def roster_def)
  ultimately show thesis
    by (rule that [OF run]) (simp_all add: hand books_def)
qed

section \<open>What the validators let through\<close>

definition outbids :: "Bid \<Rightarrow> Game \<Rightarrow> bool" where
  "outbids b g \<longleftrightarrow> (\<forall>cur. CurrentBid g = Some cur \<longrightarrow> bPoints cur < bPoints b)"

lemma check_id_None:
  "check_id g i uid msg k = None \<longleftrightarrow> (\<exists>q. player_at g i = Inr q \<and> pID q = uid) \<and> k = None"
  by (auto simp: check_id_def split: sum.splits)

lemma check_id_seat:
  assumes "check_id g i (pID p) msg k = None" "seats_ok g" "player_at g j = Inr p"
  shows "i = j"
  using assms seats_ID [OF assms(2)] by (auto simp: check_id_None)

lemma validateBid_accept:
  assumes "validateBid g p pl = None"
  obtains b where "pl = PBid b" "Status g = PhaseBidding" "bid_ok g b"
    "check_id g (CurrentTurn g) (pID p) ''not your turn to bid'' None = None"
    "outbids b g"
proof -
  obtain b where b: "pl = PBid b" and ph: "Status g = PhaseBidding"
    using assms by (cases pl) (auto simp: validateBid_def split: if_splits)
  have "check_id g (CurrentTurn g) (pID p) ''not your turn to bid'' None = None"
    using assms b ph by (auto simp: validateBid_def check_id_None)
  moreover have "bid_ok g b \<and> outbids b g"
    using assms b ph
    by (auto simp: outbids_def validateBid_def check_id_None bid_ok_def split: if_splits option.splits)
  ultimately show thesis using b ph that by blast
qed

lemma validatePass_accept:
  "validatePass g p = None \<longleftrightarrow> Status g = PhaseBidding \<and>
     check_id g (CurrentTurn g) (pID p) ''not your turn to pass'' None = None"
  by (simp add: validatePass_def)

section \<open>The history of bids\<close>

lemma minBidPoints_pos: "3 \<le> minBidPoints g" by (simp add: minBidPoints_def)

lemma bid_log_bid:
  assumes "bid_log g (CurrentBid g)" "0 < bPoints b" "Bids g' = Bids g @ [b]"
    and "\<And>cur. CurrentBid g = Some cur \<Longrightarrow> bPoints cur < bPoints b"
  shows "bid_log g' (Some b)"
proof -
  have "real_bids g' = real_bids g @ [b]" using assms(2,3) by (simp add: real_bids_def)
  moreover have "bPoints a < bPoints b" if "a \<in> set (real_bids g)" for a
  proof -
    have "real_bids g \<noteq> []" using that by auto
    then obtain as l where l: "real_bids g = as @ [l]" by (metis rev_exhaust)
    then have "bPoints a \<le> bPoints l" "bPoints l < bPoints b"
      using assms(1,4) that by (auto simp: bid_log_def sorted_wrt_append)
    then show ?thesis by simp
  qed
  ultimately show ?thesis using assms(1) by (simp add: bid_log_def sorted_wrt_append)
qed

lemma bid_log_pass: "Bids g' = Bids g @ [passBid p] \<Longrightarrow> bid_log g' t = bid_log g t"
  by (simp add: bid_log_def real_bids_def passBid_def)

section \<open>The turn after a bid or a pass\<close>

lemma advance_ok:
  assumes f: "gm_flags (PassedPlayers g)" "gm_keys (PassedPlayers g) \<subseteq> {0..<numSeats g}"
    and t: "0 \<le> CurrentTurn g" "CurrentTurn g < numSeats g"
    and some: "gm_len (PassedPlayers g) < numSeats g"
  obtains t' where "advanceToNextBidder g = Inr (g\<lparr>CurrentTurn := t'\<rparr>)" "0 \<le> t'" "t' < numSeats g"
    "\<not> gm_has (PassedPlayers g) t'"
    "ring (PassedPlayers g) (numSeats g) t' =
       (if gm_has (PassedPlayers g) (CurrentTurn g)
        then ring (PassedPlayers g) (numSeats g) (CurrentTurn g)
        else rotate1 (ring (PassedPlayers g) (numSeats g) (CurrentTurn g)))"
proof -
  have "ring (PassedPlayers g) (numSeats g) (CurrentTurn g) \<noteq> []"
    using ring_length [OF t f] some by force
  then obtain s where "s \<in> set (ring (PassedPlayers g) (numSeats g) (CurrentTurn g))"
    using last_in_set by blast
  then have "0 \<le> s \<and> s < numSeats g \<and> \<not> gm_has (PassedPlayers g) s"
    by (simp add: ring_set [OF t] gm_has_keys)
  then obtain t' where "next_bidder (PassedPlayers g) (numSeats g) (CurrentTurn g) = Some t'"
    "0 \<le> t'" "t' < numSeats g" "\<not> gm_has (PassedPlayers g) t'"
    "ring (PassedPlayers g) (numSeats g) t' =
      ring (PassedPlayers g) (numSeats g) ((CurrentTurn g + 1) mod numSeats g)"
    using next_bidder_walk [of "CurrentTurn g" "numSeats g" "PassedPlayers g"] t by auto
  with some show thesis
    by (intro that [of t']) (simp_all add: advanceToNextBidder_def ring_step [OF t])
qed

abbreviation the_ring :: "Game \<Rightarrow> int list" where
  "the_ring g \<equiv> ring (PassedPlayers g) (numSeats g) (CurrentTurn g)"

lemma auction_ring:
  assumes "auction_ok g"
  obtains rest where "the_ring g = CurrentTurn g # rest"
    "int (length (the_ring g)) = numSeats g - gm_len (PassedPlayers g)"
proof -
  have a: "0 \<le> CurrentTurn g" "CurrentTurn g < numSeats g" "\<not> gm_has (PassedPlayers g) (CurrentTurn g)"
    "gm_flags (PassedPlayers g)" "gm_keys (PassedPlayers g) \<subseteq> {0..<numSeats g}"
    using assms by (auto simp: auction_ok_def)
  from ring_Cons [OF a(1-3)] ring_length [OF a(1,2,4,5)] that show thesis by metis
qed

section \<open>A bid\<close>

lemma apply_bid_ok:
  assumes inv: "bidding_inv g" and p: "player_at g (CurrentTurn g) = Inr p"
    and b: "bid_ok g b" "outbids b g"
  obtains (closed) g' where "apply_bid g p b = Inr g'" "frame g g'" "books g' = books g"
      "bPoints b = 10 \<or> length (the_ring g) = 1"
      "exchanging_inv g'" "Declarer g' = CurrentTurn g" "Contract g' = Some (b\<lparr>bPlayerID := pID p\<rparr>)"
      "\<And>i. hand_of g' i = hand_of g i @ (if i = CurrentTurn g then Kitty g else [])"
  | (further) g' where "apply_bid g p b = Inr g'" "frame g g'" "books g' = books g"
      "bPoints b < 10" "2 \<le> length (the_ring g)"
      "bidding_inv g'" "the_ring g' = rotate1 (the_ring g)"
      "CurrentBid g' = Some (b\<lparr>bPlayerID := pID p\<rparr>)" "Declarer g' = CurrentTurn g"
proof -
  have a: "auction_ok g" and d: "deal_inv g" and ph: "Status g = PhaseBidding"
    using inv by (auto simp: bidding_inv_def)
  have s: "seats_ok g" using d by (simp add: deal_inv_def table_ok_def)
  have t: "0 \<le> CurrentTurn g" "CurrentTurn g < numSeats g" and log: "bid_log g (CurrentBid g)"
    and f: "gm_flags (PassedPlayers g)" "gm_keys (PassedPlayers g) \<subseteq> {0..<numSeats g}"
    and live: "\<not> gm_has (PassedPlayers g) (CurrentTurn g)"
    using a by (auto simp: auction_ok_def)
  have seat: "Seat p = CurrentTurn g" by (rule seats_Seat [OF s p])
  obtain rest where r: "the_ring g = CurrentTurn g # rest"
    "int (length (the_ring g)) = numSeats g - gm_len (PassedPlayers g)"
    by (rule auction_ring [OF a])
  let ?b = "b\<lparr>bPlayerID := pID p\<rparr>"
  let ?g = "g\<lparr>CurrentBid := Some ?b, Declarer := CurrentTurn g, Bids := Bids g @ [?b]\<rparr>"
  have bok: "bid_ok ?g ?b" using b(1) by (simp add: bid_ok_def minBidPoints_cong [of ?g g])
  have n: "numSeats ?g = numSeats g" by (simp add: numSeats_def)
  have d': "deal_inv ?g" using d deal_inv_cong [of ?g g] by simp
  have log': "bid_log ?g (Some ?b)"
    by (rule bid_log_bid [OF log, of ?b]) (use b minBidPoints_pos [of g] in \<open>auto simp: bid_ok_def outbids_def\<close>)
  show thesis
  proof (cases "bPoints b = 10 \<or> gm_len (PassedPlayers g) = numSeats g - 1")
    case True
    obtain g' where g': "settle_contract ?g = Inr g'" "exchanging_inv g'" "frame ?g g'"
      "books g' = books ?g" "Contract g' = Some ?b" "Declarer g' = Declarer ?g"
      "\<And>i. hand_of g' i = hand_of ?g i @ (if i = Declarer ?g then Kitty ?g else [])"
      by (rule settle_contract_ok [OF d', of ?b]) (use bok log' t n in simp_all)
    have run: "apply_bid g p b = Inr g'" using True g'(1) by (simp add: apply_bid_def Let_def seat n)
    have last: "bPoints b = 10 \<or> length (the_ring g) = 1" using True r by auto
    have fr: "frame g g'" using g'(3) by (simp add: frame_def roster_def)
    show thesis
      by (rule closed [OF run fr _ last]) (use g' in \<open>simp_all add: books_def hand_of_cong [of ?g g]\<close>)
  next
    case False
    have "gm_len (PassedPlayers g) < numSeats g" using r by simp
    then obtain t' where t': "advanceToNextBidder ?g = Inr (?g\<lparr>CurrentTurn := t'\<rparr>)"
      "0 \<le> t'" "t' < numSeats g" "\<not> gm_has (PassedPlayers g) t'"
      "ring (PassedPlayers g) (numSeats g) t' = rotate1 (the_ring g)"
      using advance_ok [of ?g] f t live by (auto simp: n)
    let ?g' = "?g\<lparr>CurrentTurn := t'\<rparr>"
    have n': "numSeats ?g' = numSeats g" by (simp add: numSeats_def)
    have rest: "rest \<noteq> []" using False r by auto
    have "apply_bid g p b = Inr ?g'" using False t'(1) by (simp add: apply_bid_def Let_def seat n)
    moreover have "frame g ?g'" by (simp add: frame_def roster_def)
    moreover have "books ?g' = books g" by (simp add: books_def)
    moreover have less: "bPoints b < 10" using False b(1) by (simp add: bid_ok_def)
    moreover have "2 \<le> length (the_ring g)" using r(1) rest by (cases rest) simp_all
    moreover have "bidding_inv ?g'"
    proof -
      have dd: "deal_inv ?g'" using d deal_inv_cong [of ?g' g] by simp
      have "bid_ok ?g' ?b" using bok bid_ok_cong [of ?g' ?g] by simp
      moreover have "bid_log ?g' (Some ?b)" using log' bid_log_cong [of ?g' ?g] by simp
      ultimately have "auction_ok ?g'"
        using f t' less r rest by (cases rest) (simp_all add: auction_ok_def n')
      then show ?thesis using ph dd by (simp add: bidding_inv_def)
    qed
    moreover have "the_ring ?g' = rotate1 (the_ring g)" using t'(5) by (simp add: n')
    ultimately show thesis by (rule further) simp_all
  qed
qed

section \<open>A fresh deal\<close>

lemma roster_Start: "seats_ok g \<Longrightarrow> roster (Start e g) = roster g"
proof -
  assume s: "seats_ok g"
  obtain hs kitty where hs: "length hs = nat (numSeats g)" "Players (Start e g) = hand_out (Players g) hs"
    using Start_deal [OF s, of e] by metis
  have le: "length hs \<le> length (Players g)"
    using hs(1) seats_range [OF s] s by (auto simp: seats_ok_def)
  have nth: "hand_out (Players g) hs ! i = (if i < length hs
      then map_option (\<lambda>p. p\<lparr>Hand := hs ! i, Points := []\<rparr>) (Players g ! i) else Players g ! i)"
    if "i < length (Players g)" for i
    using hand_out_nth [OF le that] .
  show ?thesis
    unfolding roster_def hs(2)
    by (rule nth_equalityI)
       (simp_all add: length_hand_out [OF le] nth option.map_comp o_def cong: map_option_cong)
qed

lemma Start_inv:
  fixes e :: Env
  assumes "table_ok g" "0 \<le> Dealer g" "Tricks g = []" "no_partner g"
    and "\<And>i. numSeats g \<le> i \<Longrightarrow> points_of g i = []"
  shows "deal_inv (Start e g)"
proof -
  have "no_partner (Start e g)" using assms(4) by (simp add: no_partner_def)
  then show ?thesis using assms Start_table [OF assms(1), where e = e] by (simp add: deal_inv_def)
qed

lemma fresh_auction:
  assumes "PassedPlayers g = []" "CurrentBid g = None" "Bids g = []"
    "0 \<le> CurrentTurn g" "CurrentTurn g < numSeats g"
  shows "auction_ok g"
  using assms by (simp add: auction_ok_def bid_log_def real_bids_def)

lemma throw_in_inv:
  assumes "deal_inv g"
  shows "bidding_inv (throw_in e g)" and "frame g (throw_in e g)" and "books (throw_in e g) = books g"
    and "the_ring (throw_in e g) = seats_from (numSeats g) 0" and "CurrentBid (throw_in e g) = None"
proof -
  let ?g = "g\<lparr>Bids := [], CurrentBid := None, Contract := None, Declarer := -1,
    PassedPlayers := [], PartnerCard := None, PartnerSeat := -1,
    IsNoFriend := False, Trump := EmptySuit, Tricks := []\<rparr>"
  have t: "throw_in e g = Start e ?g" by (simp add: throw_in_def)
  have n: "numSeats ?g = numSeats g" by (simp add: numSeats_def)
  have tab: "table_ok ?g" using assms table_ok_cong [of ?g g] by (simp add: deal_inv_def)
  have s: "seats_ok ?g" by (rule table_seats [OF tab])
  have "deal_inv ?g" using assms by (subst deal_inv_cong [of ?g g]) (simp_all add: deal_inv_def no_partner_def)
  then have d: "deal_inv (Start e ?g)" by (intro Start_inv) (simp_all add: deal_inv_def)
  moreover have "auction_ok (Start e ?g)"
    by (rule fresh_auction) (use seats_range [OF s] n in auto)
  ultimately show "bidding_inv (throw_in e g)" by (simp add: bidding_inv_def t)
  show "frame g (throw_in e g)"
    using roster_Start [OF s, of e] by (simp add: t frame_def) (simp add: Start_def roster_def split_def Let_def)
  show "books (throw_in e g) = books g" by (simp add: t books_def)
  show "the_ring (throw_in e g) = seats_from (numSeats g) 0" by (simp add: t n ring_def)
  show "CurrentBid (throw_in e g) = None" by (simp add: t)
qed

section \<open>A pass\<close>

lemma apply_pass_ok:
  assumes inv: "bidding_inv g" and p: "player_at g (CurrentTurn g) = Inr p"
  obtains (redeal) g' where "apply_pass e g p = Inr g'" "frame g g'" "books g' = books g"
      "CurrentBid g = None" "length (the_ring g) = 1" "bidding_inv g'"
      "the_ring g' = seats_from (numSeats g) 0" "CurrentBid g' = None"
  | (settled) g' b where "apply_pass e g p = Inr g'" "frame g g'" "books g' = books g"
      "CurrentBid g = Some b" "the_ring g = [CurrentTurn g, Declarer g]"
      "exchanging_inv g'" "Declarer g' = Declarer g" "Contract g' = Some b"
      "\<And>i. hand_of g' i = hand_of g i @ (if i = Declarer g then Kitty g else [])"
  | (further) g' where "apply_pass e g p = Inr g'" "frame g g'" "books g' = books g"
      "bidding_inv g'" "the_ring g' = tl (the_ring g)" "the_ring g' \<noteq> []"
      "CurrentBid g' = CurrentBid g" "Declarer g' = Declarer g"
proof -
  have a: "auction_ok g" and d: "deal_inv g" and ph: "Status g = PhaseBidding"
    using inv by (auto simp: bidding_inv_def)
  have s: "seats_ok g" using d by (simp add: deal_inv_def table_ok_def)
  have t: "0 \<le> CurrentTurn g" "CurrentTurn g < numSeats g" and log: "bid_log g (CurrentBid g)"
    and f: "gm_flags (PassedPlayers g)" "gm_keys (PassedPlayers g) \<subseteq> {0..<numSeats g}"
    and live: "\<not> gm_has (PassedPlayers g) (CurrentTurn g)"
    using a by (auto simp: auction_ok_def)
  have seat: "Seat p = CurrentTurn g" by (rule seats_Seat [OF s p])
  obtain rest where r: "the_ring g = CurrentTurn g # rest"
    using auction_ring [OF a] by metis
  let ?P = "gm_set (CurrentTurn g) True (PassedPlayers g)"
  let ?g = "g\<lparr>PassedPlayers := ?P, Bids := Bids g @ [passBid p]\<rparr>"
  have f': "gm_flags ?P" "gm_keys ?P \<subseteq> {0..<numSeats g}" using f t by auto
  have n: "numSeats ?g = numSeats g" by (simp add: numSeats_def)
  have r': "ring ?P (numSeats g) (CurrentTurn g) = rest" using ring_pass [OF t live] r by simp
  have len: "gm_len ?P = numSeats g - int (length rest)" using ring_length [OF t f'] r' by simp
  have d': "deal_inv ?g" using d deal_inv_cong [of ?g g] by simp
  have log': "bid_log ?g (CurrentBid g)" using log bid_log_pass [of ?g g p] by simp
  have fr: "frame g ?g" by (simp add: frame_def roster_def)
  have bk: "books ?g = books g" by (simp add: books_def)
  have cur: "bid_ok g b \<and> bPoints b < 10 \<and> rest \<noteq> [] \<and> last rest = Declarer g"
    if "CurrentBid g = Some b" for b
    using a that r by (cases rest) (auto simp: auction_ok_def)
  have unfold: "apply_pass e g p = bindE (advanceToNextBidder ?g)
      (\<lambda>g1. if gm_len (PassedPlayers g1) = numSeats g1 - 1 \<and> CurrentBid g1 \<noteq> None
             then settle_contract g1
             else if gm_len (PassedPlayers g1) = numSeats g1 then Inr (throw_in e g1)
             else Inr g1)"
    by (simp add: apply_pass_def seat)
  show thesis
  proof (cases "rest = []")
    case True
    then have none: "CurrentBid g = None" using cur by (cases "CurrentBid g") auto
    have "apply_pass e g p = Inr (throw_in e ?g)"
      using True len none by (simp add: unfold advanceToNextBidder_def n)
    then show thesis
      using throw_in_inv [OF d', of e] fr bk none True r n
      by (intro redeal) (auto intro: frame_trans)
  next
    case False
    have "gm_len (PassedPlayers ?g) < numSeats ?g" using len False by (simp add: n)
    then obtain t' where t': "advanceToNextBidder ?g = Inr (?g\<lparr>CurrentTurn := t'\<rparr>)"
      "0 \<le> t'" "t' < numSeats g" "\<not> gm_has ?P t'" "ring ?P (numSeats g) t' = rest"
      using advance_ok [of ?g] f' t r' by (auto simp: n)
    let ?g' = "?g\<lparr>CurrentTurn := t'\<rparr>"
    have n': "numSeats ?g' = numSeats g" by (simp add: numSeats_def)
    have d'': "deal_inv ?g'" using d deal_inv_cong [of ?g' g] by simp
    have log'': "bid_log ?g' (CurrentBid g)" using log' bid_log_cong [of ?g' ?g] by simp
    have fr': "frame g ?g'" by (simp add: frame_def roster_def)
    have bk': "books ?g' = books g" by (simp add: books_def)
    show thesis
    proof (cases "length rest = 1 \<and> CurrentBid g \<noteq> None")
      case True
      then obtain b where b: "CurrentBid g = Some b" by auto
      have rest: "rest = [Declarer g]" using True cur [OF b] by (cases rest) auto
      have "Declarer g \<in> set (the_ring g)" using r rest by simp
      then have dec: "0 \<le> Declarer g" "Declarer g < numSeats g" by (simp_all add: ring_set [OF t])
      have bok: "bid_ok ?g' b" using cur [OF b] bid_ok_cong [of ?g' g] by simp
      obtain g' where g': "settle_contract ?g' = Inr g'" "exchanging_inv g'" "frame ?g' g'"
        "books g' = books ?g'" "Contract g' = Some b" "Declarer g' = Declarer ?g'"
        "\<And>i. hand_of g' i = hand_of ?g' i @ (if i = Declarer ?g' then Kitty ?g' else [])"
        by (rule settle_contract_ok [OF d'', of b]) (use bok log'' dec n' b in simp_all)
      have "apply_pass e g p = settle_contract ?g'"
        using True len t'(1) b by (simp add: unfold n')
      then have run: "apply_pass e g p = Inr g'" using g'(1) by simp
      show thesis
        by (rule settled [OF run frame_trans [OF fr' g'(3)] _ b])
           (use g' rest r bk' in \<open>simp_all add: hand_of_cong [of ?g' g]\<close>)
    next
      case more: False
      have run: "apply_pass e g p = Inr ?g'"
        using more False len t'(1) by (auto simp: unfold n')
      have "auction_ok ?g'"
      proof (cases "CurrentBid g")
        case None
        then show ?thesis using f' t' log'' by (simp add: auction_ok_def n')
      next
        case (Some b)
        then have "2 \<le> length rest" using more cur [OF Some] by (cases rest rule: list.exhaust) (auto simp: Suc_le_eq)
        then show ?thesis
          using f' t' log'' Some cur [OF Some] bid_ok_cong [of ?g' g] by (simp add: auction_ok_def n')
      qed
      then have inv': "bidding_inv ?g'" using d'' ph by (simp add: bidding_inv_def)
      show thesis
        by (rule further [OF run fr' bk' inv']) (use t'(5) r False in \<open>simp_all add: n'\<close>)
    qed
  qed
qed

section \<open>The moves of the auction\<close>

lemma ValidateMove_player:
  assumes "ValidateMove g uid mt pl = None"
  obtains i p where "GetPlayer g uid = Some i" "player_at g i = Inr p" "pID p = uid"
    "resolve_pointer g uid = Inr (i, p)"
proof -
  obtain i where i: "GetPlayer g uid = Some i"
    using assms by (cases "GetPlayer g uid") (auto simp: ValidateMove_def)
  then obtain p where "player_at g i = Inr p" "pID p = uid" by (rule GetPlayer_Some)
  with i that show thesis by (simp add: resolve_pointer_def)
qed

lemma ValidateMove_dispatch:
  assumes "ValidateMove g uid mt pl = None" "resolve_pointer g uid = Inr (i, p)"
  shows "mt = MoveBid \<Longrightarrow> validateBid g p pl = None" "mt = MovePass \<Longrightarrow> validatePass g p = None"
    "mt = MoveDiscard \<Longrightarrow> validateDiscard g p pl = None"
    "mt = MoveCallPartner \<Longrightarrow> validateCallPartner g p pl = None"
    "mt = MovePlayCard \<Longrightarrow> validatePlayCard g p pl = None"
    "mt = MovePlayAgain \<or> mt = MoveChangeConfig \<Longrightarrow> Status g = PhaseFinished"
    "\<forall>s. mt \<noteq> OtherMove s"
proof -
  obtain j q where j: "GetPlayer g uid = Some j" "player_at g j = Inr q" "pID q = uid"
    "resolve_pointer g uid = Inr (j, q)" by (rule ValidateMove_player [OF assms(1)])
  then have q: "q = p" using assms(2) by simp
  note d = assms(1) [unfolded ValidateMove_def j(1) option.case j(2) sum.case Let_def q]
  show "mt = MoveBid \<Longrightarrow> validateBid g p pl = None" "mt = MovePass \<Longrightarrow> validatePass g p = None"
    "mt = MoveDiscard \<Longrightarrow> validateDiscard g p pl = None"
    "mt = MoveCallPartner \<Longrightarrow> validateCallPartner g p pl = None"
    "mt = MovePlayCard \<Longrightarrow> validatePlayCard g p pl = None"
    "mt = MovePlayAgain \<or> mt = MoveChangeConfig \<Longrightarrow> Status g = PhaseFinished"
    "\<forall>s. mt \<noteq> OtherMove s"
    using d by (auto simp: check_id_None split: if_splits)
qed

lemma resolve_pointer_player: "resolve_pointer g uid = Inr (i, p) \<Longrightarrow> player_at g i = Inr p"
  by (auto simp: resolve_pointer_def split: option.splits)

text \<open>Whose move it is: the bidder on turn.\<close>

lemma accepted_bid:
  assumes inv: "bidding_inv g" and v: "ValidateMove g uid MoveBid pl = None"
  obtains b p where "pl = PBid b" "bid_ok g b" "player_at g (CurrentTurn g) = Inr p" "pID p = uid"
    "outbids b g"
    "ApplyMove e g uid MoveBid pl = bindE (apply_bid g p b) (\<lambda>g'. Inr (touch e g'))"
proof -
  obtain i p where p: "player_at g i = Inr p" "pID p = uid" "resolve_pointer g uid = Inr (i, p)"
    by (rule ValidateMove_player [OF v])
  obtain b where b: "pl = PBid b" "bid_ok g b" "Status g = PhaseBidding"
    "check_id g (CurrentTurn g) (pID p) ''not your turn to bid'' None = None"
    "outbids b g"
    using validateBid_accept [OF ValidateMove_dispatch(1) [OF v p(3) refl]] by metis
  have "seats_ok g" using inv by (simp add: bidding_inv_def deal_inv_def table_ok_def)
  then have "CurrentTurn g = i" using check_id_seat [OF b(4) _ p(1)] by simp
  then show thesis
    using p b by (intro that [of b p]) (simp_all add: ApplyMove_def Let_def asBid_def)
qed

lemma accepted_pass:
  assumes inv: "bidding_inv g" and v: "ValidateMove g uid MovePass pl = None"
  obtains p where "player_at g (CurrentTurn g) = Inr p" "pID p = uid"
    "ApplyMove e g uid MovePass pl = bindE (apply_pass e g p) (\<lambda>g'. Inr (touch e g'))"
proof -
  obtain i p where p: "player_at g i = Inr p" "pID p = uid" "resolve_pointer g uid = Inr (i, p)"
    by (rule ValidateMove_player [OF v])
  have b: "Status g = PhaseBidding" "check_id g (CurrentTurn g) (pID p) ''not your turn to pass'' None = None"
    using ValidateMove_dispatch(2) [OF v p(3) refl] by (auto simp: validatePass_accept)
  have "seats_ok g" using inv by (simp add: bidding_inv_def deal_inv_def table_ok_def)
  then have "CurrentTurn g = i" using check_id_seat [OF b(2) _ p(1)] by simp
  then show thesis
    using p b by (intro that [of p]) (simp_all add: ApplyMove_def Let_def)
qed

text \<open>
  The auction refines the ring of remaining bidders. A bid that validation accepts is always applied;
  it either closes the auction (ten points, or nobody else is left) with that bid as the contract and
  the bidder as declarer, or it becomes the standing bid and sends the bidder to the end of the ring.
\<close>

lemma bid_rotates_ring:
  assumes "bidding_inv g" "ValidateMove g uid MoveBid pl = None"
  shows "\<exists>b g'. pl = PBid b \<and> ApplyMove e g uid MoveBid pl = Inr g' \<and>
    Declarer g' = CurrentTurn g \<and>
    (if bPoints b = 10 \<or> length (the_ring g) = 1
     then exchanging_inv g' \<and> Contract g' = Some (b\<lparr>bPlayerID := uid\<rparr>)
     else bidding_inv g' \<and> CurrentBid g' = Some (b\<lparr>bPlayerID := uid\<rparr>) \<and>
       the_ring g' = rotate1 (the_ring g))"
proof -
  obtain b p where a: "pl = PBid b" "bid_ok g b" "player_at g (CurrentTurn g) = Inr p" "pID p = uid"
    "outbids b g"
    "ApplyMove e g uid MoveBid pl = bindE (apply_bid g p b) (\<lambda>g'. Inr (touch e g'))"
    using accepted_bid [OF assms] by metis
  show ?thesis
    using assms(1) a(3,2,5)
  proof (cases rule: apply_bid_ok)
    case (closed g')
    with a show ?thesis by (intro exI [of _ b] exI [of _ "touch e g'"]) auto
  next
    case (further g')
    with a show ?thesis by (intro exI [of _ b] exI [of _ "touch e g'"]) auto
  qed
qed

text \<open>
  An accepted pass is always applied and takes the head out of the ring. With a standing bid, the
  second-last pass settles the contract for the player who made it; without one, the last pass throws
  the hand in, and everybody bids on a fresh deal.
\<close>

lemma pass_shrinks_ring:
  assumes "bidding_inv g" "ValidateMove g uid MovePass pl = None"
  shows "\<exists>g'. ApplyMove e g uid MovePass pl = Inr g' \<and>
    (case CurrentBid g of
       Some b \<Rightarrow>
         if length (the_ring g) = 2
         then exchanging_inv g' \<and> Contract g' = Some b \<and> Declarer g' = Declarer g
         else bidding_inv g' \<and> the_ring g' = tl (the_ring g) \<and> CurrentBid g' = Some b
     | None \<Rightarrow> bidding_inv g' \<and> CurrentBid g' = None \<and>
         the_ring g' = (if length (the_ring g) = 1 then seats_from (numSeats g) 0
                        else tl (the_ring g)))"
proof -
  obtain p where a: "player_at g (CurrentTurn g) = Inr p"
    "ApplyMove e g uid MovePass pl = bindE (apply_pass e g p) (\<lambda>g'. Inr (touch e g'))"
    using accepted_pass [OF assms] by metis
  have len: "2 \<le> length (the_ring g)" if "CurrentBid g = Some b" for b
    using assms(1) that by (simp add: bidding_inv_def auction_ok_def Let_def)
  have open2: "CurrentBid g \<noteq> None \<Longrightarrow> length (the_ring g) \<noteq> 2"
    if "bidding_inv g'" "the_ring g' = tl (the_ring g)" "CurrentBid g' = CurrentBid g" for g'
    using that by (auto simp: bidding_inv_def auction_ok_def Let_def)
  show ?thesis
    using assms(1) a(1)
  proof (cases rule: apply_pass_ok [where e = e])
    case (redeal g')
    with a show ?thesis by (intro exI [of _ "touch e g'"]) auto
  next
    case (settled g' b)
    with a show ?thesis by (intro exI [of _ "touch e g'"]) auto
  next
    case (further g')
    moreover from further(5,6) have "length (the_ring g) \<noteq> 1" by (cases "the_ring g") auto
    ultimately show ?thesis using a open2 [OF further(4,5,7)]
      by (intro exI [of _ "touch e g'"]) (auto split: option.split)
  qed
qed

section \<open>The abstract auction\<close>

text \<open>
  What an auction is at the table: the players who have not passed, in the order in which they speak, with
  the standing bid, whose bidder speaks last; or the bid that settled it and the declarer. A bid of ten
  points, a bid when nobody else is left, and a pass that leaves the standing bidder alone settle it.
\<close>

datatype auction = Speaking "int list" "Bid option" | Settled Bid int

fun auction_bid :: "string \<Rightarrow> Bid \<Rightarrow> auction \<Rightarrow> auction" where
  "auction_bid uid b (Speaking seats hi) =
     (if bPoints b = 10 \<or> length seats = 1 then Settled (b\<lparr>bPlayerID := uid\<rparr>) (hd seats)
      else Speaking (rotate1 seats) (Some (b\<lparr>bPlayerID := uid\<rparr>)))"
| "auction_bid uid b (Settled c d) = Settled c d"

fun auction_pass :: "int \<Rightarrow> auction \<Rightarrow> auction" where
  "auction_pass n (Speaking seats (Some b)) =
     (if length seats = 2 then Settled b (last seats) else Speaking (tl seats) (Some b))"
| "auction_pass n (Speaking seats None) =
     Speaking (if length seats = 1 then seats_from n 0 else tl seats) None"
| "auction_pass n (Settled c d) = Settled c d"

definition auction_move :: "int \<Rightarrow> string \<Rightarrow> MoveType \<Rightarrow> payload \<Rightarrow> auction \<Rightarrow> auction" where
  "auction_move n uid mt pl a =
     (if mt = MovePass then auction_pass n a else case pl of PBid b \<Rightarrow> auction_bid uid b a | _ \<Rightarrow> a)"

definition auction_of :: "Game \<Rightarrow> auction" where
  "auction_of g =
     (if Status g = PhaseBidding then Speaking (the_ring g) (CurrentBid g)
      else Settled (the (Contract g)) (Declarer g))"

lemma auction_of_bidding: "bidding_inv g \<Longrightarrow> auction_of g = Speaking (the_ring g) (CurrentBid g)"
  by (simp add: auction_of_def bidding_inv_def)

lemma auction_of_settled: "exchanging_inv g \<Longrightarrow> Contract g = Some b \<Longrightarrow> auction_of g = Settled b (Declarer g)"
  by (simp add: auction_of_def exchanging_inv_def)

text \<open>A bid, and a pass, against the abstract auction.\<close>

lemma bid_refines:
  assumes "bidding_inv g" "ValidateMove g uid MoveBid pl = None"
  shows "\<exists>g'. ApplyMove e g uid MoveBid pl = Inr g' \<and> (bidding_inv g' \<or> exchanging_inv g') \<and>
    auction_of g' = auction_move (numSeats g) uid MoveBid pl (auction_of g)"
proof -
  have "auction_ok g" using assms(1) by (simp add: bidding_inv_def)
  then obtain rest where r: "the_ring g = CurrentTurn g # rest" using auction_ring by metis
  obtain b g' where a: "pl = PBid b" "ApplyMove e g uid MoveBid pl = Inr g'" "Declarer g' = CurrentTurn g"
    and c: "if bPoints b = 10 \<or> length (the_ring g) = 1
     then exchanging_inv g' \<and> Contract g' = Some (b\<lparr>bPlayerID := uid\<rparr>)
     else bidding_inv g' \<and> CurrentBid g' = Some (b\<lparr>bPlayerID := uid\<rparr>) \<and> the_ring g' = rotate1 (the_ring g)"
    using bid_rotates_ring [OF assms, of e] by blast
  have "bidding_inv g' \<or> exchanging_inv g'" using c by (auto split: if_splits)
  moreover have "auction_of g' = auction_move (numSeats g) uid MoveBid pl (auction_of g)"
    using c a r by (auto simp: auction_move_def auction_of_bidding [OF assms(1)] auction_of_bidding auction_of_settled split: if_splits)
  ultimately show ?thesis using a(2) by blast
qed

lemma pass_refines:
  assumes "bidding_inv g" "ValidateMove g uid MovePass pl = None"
  shows "\<exists>g'. ApplyMove e g uid MovePass pl = Inr g' \<and> (bidding_inv g' \<or> exchanging_inv g') \<and>
    auction_of g' = auction_move (numSeats g) uid MovePass pl (auction_of g)"
proof -
  obtain p where a: "player_at g (CurrentTurn g) = Inr p"
    "ApplyMove e g uid MovePass pl = bindE (apply_pass e g p) (\<lambda>g'. Inr (touch e g'))"
    using accepted_pass [OF assms] by metis
  note s = auction_of_bidding [OF assms(1)]
  have len: "length (the_ring g') \<noteq> 1" if "bidding_inv g'" "CurrentBid g' \<noteq> None" for g'
    using that by (auto simp: bidding_inv_def auction_ok_def Let_def)
  have t: "bidding_inv (touch e k) = bidding_inv k" "exchanging_inv (touch e k) = exchanging_inv k"
    "auction_of (touch e k) = auction_of k" for k
    by (simp_all add: auction_of_def)
  have "\<exists>k. apply_pass e g p = Inr k \<and> (bidding_inv k \<or> exchanging_inv k) \<and>
      auction_of k = auction_move (numSeats g) uid MovePass pl (auction_of g)"
    using assms(1) a(1)
  proof (cases rule: apply_pass_ok [where e = e])
    case (redeal k)
    then show ?thesis by (auto simp: s auction_move_def auction_of_bidding)
  next
    case (settled k b)
    then show ?thesis by (auto simp: s auction_move_def auction_of_settled)
  next
    case (further k)
    then have "CurrentBid g \<noteq> None \<Longrightarrow> length (the_ring g) \<noteq> 2" using len [of k] by auto
    moreover have "length (the_ring g) \<noteq> 1" using further(5,6) by (cases "the_ring g") auto
    ultimately show ?thesis using further by (cases "CurrentBid g") (auto simp: s auction_move_def auction_of_bidding)
  qed
  then show ?thesis using a(2) t by auto
qed

text \<open>
  C10. The auction is the abstract one. On a legal table in its bidding phase (\<open>bidding_inv\<close>, which C1 gives unless someone was
  seated outside the waiting room), every bid and pass that validation accepts is applied, and what it does to the turn
  counter, the map of passed seats, the standing bid, the contract and the declarer is what the abstract
  auction does to the row of speakers: a bidder goes to the end of the row, who passes leaves it, the
  auction settles for the right bid and player, and a hand that all have passed is dealt again.
\<close>

theorem auction_refines_speakers:
  assumes "bidding_inv g" "mt = MoveBid \<or> mt = MovePass" "ValidateMove g uid mt pl = None"
  shows "\<exists>g'. ApplyMove e g uid mt pl = Inr g' \<and> (bidding_inv g' \<or> exchanging_inv g') \<and>
    auction_of g' = auction_move (numSeats g) uid mt pl (auction_of g)"
  using assms bid_refines pass_refines by blast

text \<open>The measure: bids left to make, plus players left to pass.\<close>

definition auction_left :: "Game \<Rightarrow> nat" where
  "auction_left g =
     nat (10 - (case CurrentBid g of None \<Rightarrow> 0 | Some b \<Rightarrow> bPoints b)) + length (the_ring g)"

text \<open>
  The auction of a deal ends. Every accepted bid or pass makes the measure (points left to bid plus
  players left) smaller, unless it settles the contract or is the last pass of an auction without a
  bid, which starts a new deal; so one deal sees at most fifteen bids and passes.
\<close>

lemma auction_move_decreases:
  assumes "bidding_inv g" "mt = MoveBid \<or> mt = MovePass" "ValidateMove g uid mt pl = None"
    "ApplyMove e g uid mt pl = Inr g'"
  shows "Status g' = PhaseExchanging \<or>
    Status g' = PhaseBidding \<and> auction_left g' < auction_left g \<or>
    Status g' = PhaseBidding \<and> mt = MovePass \<and> CurrentBid g = None \<and>
      the_ring g = [CurrentTurn g] \<and> auction_left g' = nat (10 + numSeats g)"
  using assms(2)
proof
  assume mt: "mt = MoveBid"
  obtain b p where a: "pl = PBid b" "bid_ok g b" "player_at g (CurrentTurn g) = Inr p" "pID p = uid"
    "outbids b g"
    "ApplyMove e g uid MoveBid pl = bindE (apply_bid g p b) (\<lambda>g'. Inr (touch e g'))"
    using accepted_bid [OF assms(1) assms(3) [unfolded mt]] by metis
  show ?thesis
    using assms(1) a(3,2,5)
  proof (cases rule: apply_bid_ok)
    case (closed k)
    with a(6) assms(4) mt show ?thesis by (auto simp: exchanging_inv_def)
  next
    case (further k)
    have "(case CurrentBid g of None \<Rightarrow> 0 | Some b \<Rightarrow> bPoints b) < bPoints b"
      using a(2,5) minBidPoints_pos [of g] by (cases "CurrentBid g") (auto simp: bid_ok_def outbids_def)
    moreover have "g' = touch e k" using a(6) assms(4) mt further by simp
    ultimately show ?thesis using further by (simp add: bidding_inv_def auction_left_def)
  qed
next
  assume mt: "mt = MovePass"
  obtain p where a: "player_at g (CurrentTurn g) = Inr p"
    "ApplyMove e g uid MovePass pl = bindE (apply_pass e g p) (\<lambda>g'. Inr (touch e g'))"
    using accepted_pass [OF assms(1) assms(3) [unfolded mt]] by metis
  have auc: "auction_ok g" using assms(1) by (simp add: bidding_inv_def)
  obtain rest where r: "the_ring g = CurrentTurn g # rest" using auction_ring [OF auc] by metis
  have n: "0 < numSeats g" using auc by (simp add: auction_ok_def)
  show ?thesis
    using assms(1) a(1)
  proof (cases rule: apply_pass_ok [where e = e])
    case (redeal k)
    moreover have "length (seats_from (numSeats g) 0) = nat (numSeats g)" by (simp add: seats_from_def)
    moreover have g': "g' = touch e k" using a(2) assms(4) mt redeal(1) by simp
    ultimately show ?thesis using mt r n unfolding g'
      by (simp add: bidding_inv_def auction_left_def nat_add_distrib)
  next
    case (settled k b)
    with a(2) assms(4) mt show ?thesis by (auto simp: exchanging_inv_def)
  next
    case (further k)
    with a(2) assms(4) mt r show ?thesis by (auto simp: bidding_inv_def auction_left_def)
  qed
qed

section \<open>A table to try the properties on\<close>

definition demo_seat :: "int \<Rightarrow> Player" where
  "demo_seat i = \<lparr>pID = replicate (nat i + 1) CHR ''x'', pName = [], Seat = i, Hand = [], Points = [],
     IsConnected = True\<rparr>"

definition demo_table :: "int \<Rightarrow> Game" where
  "demo_table n = (NewWithConfig demo_env ''g'' (DefaultConfig\<lparr>NumPlayers := n\<rparr>))
     \<lparr>Players := map (\<lambda>i. if i < n then Some (demo_seat i) else None) [0, 1, 2, 3, 4]\<rparr>"

definition demo_deal :: "int \<Rightarrow> Game" where
  "demo_deal n = Start demo_env (demo_table n)"

lemma demo_table_player:
  "player_at (demo_table 5) i = (if 0 \<le> i \<and> i < 5 then Inr (demo_seat i) else Inl index_panic)"
proof (cases "0 \<le> i \<and> i < 5")
  case True
  then have "i \<in> {0, 1, 2, 3, 4}" by auto
  then show ?thesis by (auto simp: player_at_def demo_table_def)
next
  case False
  then show ?thesis by (auto simp: player_at_def demo_table_def)
qed

lemma demo_table_ok: "table_ok (demo_table 5)" "numSeats (demo_table 5) = 5"
proof -
  show n: "numSeats (demo_table 5) = 5" by (simp add: numSeats_def demo_table_def NewWithConfig_def DefaultConfig_def)
  have "length (Players (demo_table 5)) = 5" "NumPlayers (Config (demo_table 5)) = 5"
    by (simp_all add: demo_table_def NewWithConfig_def DefaultConfig_def)
  moreover have "Seat p = i" "pID p = replicate (nat i + 1) CHR ''x''" "0 \<le> i"
    if "player_at (demo_table 5) i = Inr p" for i p
    using that by (auto simp: demo_table_player demo_seat_def split: if_splits)
  ultimately have "seats_ok (demo_table 5)"
    unfolding seats_ok_def by (metis add_right_cancel eq_nat_nat_iff length_replicate)
  then show "table_ok (demo_table 5)"
    by (simp add: table_ok_def filled_def n demo_table_player)
qed

lemma demo_deal_bidding: "bidding_inv (demo_deal 5)" "the_ring (demo_deal 5) = [0, 1, 2, 3, 4]"
  "CurrentTurn (demo_deal 5) = 0" "CurrentBid (demo_deal 5) = None"
proof -
  have "points_of (demo_table 5) i = []" for i
    by (simp add: points_of_def demo_table_player demo_seat_def)
  then have "deal_inv (demo_deal 5)"
    unfolding demo_deal_def
    by (intro Start_inv [OF demo_table_ok(1)])
       (simp_all add: no_partner_def demo_table_def NewWithConfig_def Let_def)
  moreover have "auction_ok (demo_deal 5)"
    by (rule fresh_auction)
       (simp_all add: demo_deal_def demo_table_ok, simp_all add: demo_table_def NewWithConfig_def Let_def)
  ultimately show "bidding_inv (demo_deal 5)" by (simp add: bidding_inv_def) (simp add: demo_deal_def)
  have "PassedPlayers (demo_table 5) = []" by (simp add: demo_table_def NewWithConfig_def Let_def)
  then show "the_ring (demo_deal 5) = [0, 1, 2, 3, 4]"
    by (simp add: demo_deal_def demo_table_ok ring_def seats_from_def upt_conv_Cons)
  show "CurrentTurn (demo_deal 5) = 0" "CurrentBid (demo_deal 5) = None"
    by (simp_all add: demo_deal_def demo_table_def NewWithConfig_def Let_def)
qed

lemma demo_deal_player:
  obtains p where "player_at (demo_deal 5) 0 = Inr p" "pID p = ''x''"
    "resolve_pointer (demo_deal 5) ''x'' = Inr (0, p)" "GetPlayer (demo_deal 5) ''x'' = Some 0"
proof -
  have s: "seats_ok (demo_deal 5)"
    using demo_deal_bidding(1) by (simp add: bidding_inv_def deal_inv_def table_ok_def)
  obtain hs kitty where "length hs = nat (numSeats (demo_table 5))"
    "Players (demo_deal 5) = hand_out (Players (demo_table 5)) hs"
    using Start_deal [OF table_seats [OF demo_table_ok(1)], of demo_env] unfolding demo_deal_def by metis
  then obtain p where p: "player_at (demo_deal 5) 0 = Inr p" "pID p = ''x''"
    using player_at_Start [OF table_seats [OF demo_table_ok(1)], of demo_env hs 0]
    by (auto simp: demo_deal_def demo_table_player demo_seat_def demo_table_ok)
  with GetPlayer_player_at [OF s p(1)] that show thesis by (simp add: resolve_pointer_def)
qed

definition demo_bid :: "nat \<Rightarrow> Bid" where
  "demo_bid n = \<lparr>bPlayerID = [], bPoints = int n, bSuit = Spades, IsNoTrump = False\<rparr>"

lemma demo_bid_valid:
  "ValidateMove (demo_deal 5) ''x'' MoveBid (PBid (demo_bid 5)) = None"
  "ValidateMove (demo_deal 5) ''x'' MovePass PNil = None"
proof -
  obtain p where p: "player_at (demo_deal 5) 0 = Inr p" "pID p = ''x''"
    "GetPlayer (demo_deal 5) ''x'' = Some 0" by (rule demo_deal_player)
  have d: "Status (demo_deal 5) = PhaseBidding" "minBidPoints (demo_deal 5) = 3"
    by (simp_all add: demo_deal_def minBidPoints_def demo_table_ok)
  show "ValidateMove (demo_deal 5) ''x'' MoveBid (PBid (demo_bid 5)) = None"
    "ValidateMove (demo_deal 5) ''x'' MovePass PNil = None"
    using p d demo_deal_bidding(3,4)
    by (simp_all add: ValidateMove_def validateBid_def validatePass_def check_id_def demo_bid_def)
qed

theorem next_bidder_returns_iff_witness:
  "(\<exists>t'. next_bidder [(0, True), (1, True)] 5 4 = Some t') \<longleftrightarrow>
   (\<exists>s::int. 0 \<le> s \<and> s < 5 \<and> \<not> gm_has [(0, True), (1, True)] s)"
  by (rule next_bidder_returns_iff) simp_all

theorem bid_rotates_ring_witness:
  "\<exists>g'. ApplyMove demo_env (demo_deal 5) ''x'' MoveBid (PBid (demo_bid 5)) = Inr g' \<and>
     the_ring g' = [1, 2, 3, 4, 0] \<and> Declarer g' = 0"
  using bid_rotates_ring [OF demo_deal_bidding(1) demo_bid_valid(1), of demo_env]
  by (auto simp: demo_deal_bidding demo_deal_bidding(2) [unfolded demo_deal_bidding(3)] demo_bid_def)

theorem pass_shrinks_ring_witness:
  "\<exists>g'. ApplyMove demo_env (demo_deal 5) ''x'' MovePass PNil = Inr g' \<and> the_ring g' = [1, 2, 3, 4]"
  using pass_shrinks_ring [OF demo_deal_bidding(1) demo_bid_valid(2), of demo_env]
  by (auto simp: demo_deal_bidding demo_deal_bidding(2) [unfolded demo_deal_bidding(3)])

theorem auction_refines_speakers_witness:
  "\<exists>g'. ApplyMove demo_env (demo_deal 5) ''x'' MoveBid (PBid (demo_bid 5)) = Inr g' \<and>
     auction_of g' = Speaking [1, 2, 3, 4, 0] (Some ((demo_bid 5)\<lparr>bPlayerID := ''x''\<rparr>))"
  using auction_refines_speakers [OF demo_deal_bidding(1) _ demo_bid_valid(1), of demo_env]
  by (auto simp: auction_of_bidding [OF demo_deal_bidding(1)] demo_deal_bidding demo_deal_bidding(2) [unfolded demo_deal_bidding(3)]
      demo_bid_def auction_move_def)

theorem auction_move_decreases_witness:
  "\<exists>g'. ApplyMove demo_env (demo_deal 5) ''x'' MoveBid (PBid (demo_bid 5)) = Inr g' \<and>
     (Status g' = PhaseExchanging \<or> Status g' = PhaseBidding \<and> auction_left g' < 15)"
proof -
  obtain b p where a: "player_at (demo_deal 5) 0 = Inr p" "bid_ok (demo_deal 5) (demo_bid 5)"
    "outbids (demo_bid 5) (demo_deal 5)"
    "ApplyMove demo_env (demo_deal 5) ''x'' MoveBid (PBid (demo_bid 5))
      = bindE (apply_bid (demo_deal 5) p (demo_bid 5)) (\<lambda>g'. Inr (touch demo_env g'))"
    by (rule accepted_bid [OF demo_deal_bidding(1) demo_bid_valid(1), of demo_env])
       (simp add: demo_deal_bidding(3))
  have t: "player_at (demo_deal 5) (CurrentTurn (demo_deal 5)) = Inr p" using a(1) demo_deal_bidding(3) by simp
  obtain k where "apply_bid (demo_deal 5) p (demo_bid 5) = Inr k"
    by (rule apply_bid_ok [OF demo_deal_bidding(1) t a(2,3)])
  then obtain g' where g': "ApplyMove demo_env (demo_deal 5) ''x'' MoveBid (PBid (demo_bid 5)) = Inr g'"
    using a(4) by simp
  have "auction_left (demo_deal 5) = 15" by (simp add: auction_left_def demo_deal_bidding demo_deal_bidding(2) [unfolded demo_deal_bidding(3)])
  with auction_move_decreases [OF demo_deal_bidding(1) _ demo_bid_valid(1) g'] g' show ?thesis
    by auto
qed

end
