(* ===== verification/Exchange.thy ===== *)
theory Exchange
  imports Bidding
begin

text \<open>
  The exchange and the partner call: an accepted discard takes the named cards out of the
  declarer's hand and counts their points, an accepted call opens the first trick. The validator
  does not ask for three different cards, and what follows from that is proved too.
\<close>

section \<open>Cards of a hand\<close>

lemma HasCard_iff: "HasCard p c \<longleftrightarrow> c \<in> set (Hand p)"
proof -
  have "h = c" if "Suit h = Suit c" "Rank h = Rank c" for h using that by (intro Card.equality) simp_all
  then show ?thesis unfolding HasCard_def list_ex_iff by metis
qed

lemma distinct_subset_deck:
  assumes "mset xs \<subseteq># deck_of g"
  shows "distinct xs" "set xs \<subseteq> set (NewDeckFor (numSeats g))"
proof -
  obtain Z where "deck_of g = mset xs + Z" using assms by (metis mset_subset_eq_exists_conv)
  moreover obtain zs where "mset zs = Z" using ex_mset by blast
  ultimately have "mset (NewDeckFor (numSeats g)) = mset (xs @ zs)" by simp
  then show "distinct xs"
    using mset_eq_imp_distinct_iff deck_facts(1) distinct_append by metis
  show "set xs \<subseteq> set (NewDeckFor (numSeats g))" using set_mset_mono [OF assms] by simp
qed

lemma mset_cancel: "A + (D + F) = B + F \<Longrightarrow> A + D = (B :: 'a multiset)"
  by (simp add: add.assoc [symmetric])

lemma chosen_cards:
  assumes "distinct hand" "set cards \<subseteq> set hand"
  shows "length (filter (\<lambda>c. c \<in> set cards) hand) = card (set cards)"
proof -
  have "set (filter (\<lambda>c. c \<in> set cards) hand) = set cards" using assms(2) by auto
  then show ?thesis using distinct_card [of "filter (\<lambda>c. c \<in> set cards) hand"] assms(1) by simp
qed

section \<open>The discard\<close>

lemma validateDiscard_accept:
  assumes "validateDiscard g p pl = None"
  obtains cards where "pl = PCards cards" "Status g = PhaseExchanging" "length cards = 3"
    "set cards \<subseteq> set (Hand p)" "check_id g (Declarer g) (pID p) ''only declarer can discard'' None = None"
proof -
  obtain cards where c: "pl = PCards cards" and ph: "Status g = PhaseExchanging"
    using assms by (cases pl) (auto simp: validateDiscard_def check_id_None split: if_splits)
  have "length cards = 3" "set cards \<subseteq> set (Hand p)"
    "check_id g (Declarer g) (pID p) ''only declarer can discard'' None = None"
    using assms c ph by (auto simp: validateDiscard_def check_id_None HasCard_iff find_None_iff
      split: if_splits option.splits)
  with c ph that show thesis by blast
qed

lemma accepted_discard:
  assumes inv: "exchanging_inv g" and v: "ValidateMove g uid MoveDiscard pl = None"
  obtains cards p where "pl = PCards cards" "length cards = 3" "set cards \<subseteq> set (Hand p)"
    "player_at g (Declarer g) = Inr p" "pID p = uid"
    "ApplyMove e g uid MoveDiscard pl = Inr (touch e (apply_discard g (Declarer g) p cards))"
proof -
  obtain i p where p: "player_at g i = Inr p" "pID p = uid" "resolve_pointer g uid = Inr (i, p)"
    by (rule ValidateMove_player [OF v])
  obtain cards where c: "pl = PCards cards" "Status g = PhaseExchanging" "length cards = 3"
    "set cards \<subseteq> set (Hand p)" "check_id g (Declarer g) (pID p) ''only declarer can discard'' None = None"
    by (rule validateDiscard_accept [OF ValidateMove_dispatch(3) [OF v p(3) refl]])
  have "seats_ok g" using inv by (simp add: exchanging_inv_def table_ok_def)
  then have "Declarer g = i" using check_id_seat [OF c(5) _ p(1)] by simp
  then show thesis
    using p c by (intro that [of cards p]) (simp_all add: ApplyMove_def Let_def asCards_def)
qed

lemma apply_discard_ok:
  assumes inv: "exchanging_inv g" and p: "player_at g (Declarer g) = Inr p"
    and c: "length cards = 3" "set cards \<subseteq> set (Hand p)"
  shows "(h \<longrightarrow> distinct cards) \<longrightarrow> calling_inv h (apply_discard g (Declarer g) p cards)"
    and "frame g (apply_discard g (Declarer g) p cards)"
    and "books (apply_discard g (Declarer g) p cards) = books g"
    and "length (hand_of (apply_discard g (Declarer g) p cards) (Declarer g)) + card (set cards) = 13"
    and "all_hands (apply_discard g (Declarer g) p cards) + mset_set (set cards) = deck_of g"
    and "all_points (apply_discard g (Declarer g) p cards) = points_in (mset_set (set cards))"
proof -
  let ?sel = "\<lambda>c. c \<in> set cards"
  let ?p = "p\<lparr>Hand := filter (\<lambda>c. \<not> ?sel c) (Hand p),
      Points := Points p @ filter (\<lambda>c. ?sel c \<and> IsPointCard c) (Hand p)\<rparr>"
  let ?g = "set_player g (Declarer g) ?p" and ?d = "Declarer g"
  let ?g' = "?g\<lparr>Status := PhaseCalling\<rparr>"
  let ?D = "mset (filter ?sel (Hand p))"
  have run: "apply_discard g ?d p cards = ?g'" by (simp add: apply_discard_def Let_def)
  have tab: "table_ok g" and con: "contract_ok g" and all: "all_hands g = deck_of g"
    and len: "\<And>i. 0 \<le> i \<Longrightarrow> i < numSeats g \<Longrightarrow> length (hand_of g i) = (if i = ?d then 13 else 10)"
    and pts: "\<And>i. points_of g i = []"
    using inv by (auto simp: exchanging_inv_def)
  have t: "0 \<le> ?d" "?d < numSeats g" using con by (auto simp: contract_ok_def)
  have five: "?d < 5" using t seats_range [OF table_seats [OF tab]] by auto
  have n: "numSeats ?g' = numSeats g" by (simp add: numSeats_cong [of ?g' ?g])
  have Pp: "Points p = []" using pts [of ?d] points_of_player [OF p] by simp
  have "mset (Hand p) \<subseteq># deck_of g"
    using hand_subset_all [OF t] all hand_of_player [OF p] by simp
  then have dist: "distinct (Hand p)" by (rule distinct_subset_deck)
  have size: "length (filter ?sel (Hand p)) = card (set cards)" by (rule chosen_cards [OF dist c(2)])
  have hand: "hand_of ?g' i = (if i = ?d then filter (\<lambda>c. \<not> ?sel c) (Hand p) else hand_of g i)" for i
    by (simp add: hand_of_cong [of ?g' ?g] hand_of_set_player [OF p])
  have split: "length (filter (\<lambda>c. \<not> ?sel c) (Hand p)) + card (set cards) = 13"
    using sum_length_filter_compl [of ?sel "Hand p"] len [OF t] hand_of_player [OF p] size by simp
  have sizeD: "size ?D = card (set cards)" by (simp only: size_mset size)
  have setD: "?D = mset_set (set cards)"
  proof -
    have "set (filter ?sel (Hand p)) = set cards" using c(2) by auto
    then show ?thesis using mset_set_set [of "filter ?sel (Hand p)"] dist by simp
  qed
  have "cards \<noteq> []" using c(1) by auto
  then have D: "discard_ok h ?D" if "h \<longrightarrow> distinct cards"
    unfolding discard_ok_def sizeD
    using that c(1) card_length [of cards] distinct_card [of cards]
    by (auto simp: card_gt_0_iff Suc_le_eq)
  have "all_hands ?g + mset (Hand p) = deck_of g + mset (filter (\<lambda>c. \<not> ?sel c) (Hand p))"
    using all_hands_set_player [OF p t, of ?p] all by simp
  then have "all_hands ?g + ?D = deck_of g"
    unfolding mset_filter_split [of ?sel "Hand p", symmetric] by (rule mset_cancel)
  then have H: "all_hands ?g' + ?D = deck_of ?g'" using all_hands_cong [of ?g' ?g] n by simp
  have "all_points g = {#}" using pts by (simp add: all_points_def)
  then have "all_points ?g = mset (filter (\<lambda>c. ?sel c \<and> IsPointCard c) (Hand p))"
    using all_points_set_player [OF p t(1) five, of ?p] Pp by simp
  then have P: "all_points ?g' = points_in ?D"
    using all_points_cong [of ?g' ?g] by (simp add: conj_commute filter_filter_mset)
  have tab': "table_ok ?g'"
    using table_ok_set_player [OF tab p, of ?p] table_ok_cong [of ?g' ?g] by simp
  have con': "contract_ok ?g'" using con contract_ok_cong [of ?g' g] by simp
  have lens: "length (hand_of ?g' i) + (if i = ?d then size ?D else 3) = 13"
    if "0 \<le> i" "i < numSeats g" for i
    unfolding sizeD using len [OF that] split by (auto simp: hand)
  show "(h \<longrightarrow> distinct cards) \<longrightarrow> calling_inv h (apply_discard g ?d p cards)"
    unfolding run calling_inv_def
    using inv tab' con' D H P lens n
    by (intro impI conjI exI [of _ ?D]) (simp_all add: exchanging_inv_def no_partner_def)
  show "all_hands (apply_discard g ?d p cards) + mset_set (set cards) = deck_of g"
    using H setD n by (simp add: run)
  show "all_points (apply_discard g ?d p cards) = points_in (mset_set (set cards))"
    using P setD by (simp add: run)
  show "length (hand_of (apply_discard g ?d p cards) ?d) + card (set cards) = 13"
    using split by (simp add: run hand)
  have "frame g ?g" by (rule frame_set_player [OF p]) simp_all
  then show "frame g (apply_discard g ?d p cards)" by (simp add: run frame_def roster_def)
  show "books (apply_discard g ?d p cards) = books g" by (simp add: run books_def)
qed

section \<open>Calling the partner\<close>

lemma apply_call_partner_ok:
  assumes inv: "calling_inv h g"
  shows "playing_inv h (apply_call_partner g m)" "frame g (apply_call_partner g m)"
    "books (apply_call_partner g m) = books g" "Players (apply_call_partner g m) = Players g"
proof -
  let ?g = "apply_call_partner g m"
  have eq [simp]: "Players ?g = Players g" "Config ?g = Config g" "Declarer ?g = Declarer g"
    "CurrentTurn ?g = Declarer g" "Status ?g = PhasePlaying" "Dealer ?g = Dealer g"
    "Contract ?g = Contract g" "Trump ?g = Trump g" "Bids ?g = Bids g" "Kitty ?g = Kitty g"
    "Tricks ?g = Tricks g @ [newTrick]"
    by (simp_all add: apply_call_partner_def Let_def)
  have n [simp]: "numSeats ?g = numSeats g" by (rule numSeats_cong) simp
  have hand [simp]: "hand_of ?g i = hand_of g i" for i by (rule hand_of_cong) simp
  have con: "contract_ok g" and tr: "Tricks g = []" and kit: "Kitty g = []"
    using inv by (auto simp: calling_inv_def)
  have d: "0 \<le> Declarer g" "Declarer g < numSeats g" using con by (auto simp: contract_ok_def)
  have pos: "0 < numSeats g" using d by simp
  obtain D where D: "discard_ok h D" "all_hands g + D = deck_of g" "all_points g = points_in D"
    "\<And>i. 0 \<le> i \<Longrightarrow> i < numSeats g \<Longrightarrow>
       length (hand_of g i) + (if i = Declarer g then size D else 3) = 13"
    using inv by (auto simp: calling_inv_def)
  have len: "10 \<le> length (hand_of g i)" if "0 \<le> i" "i < numSeats g" for i
    using D(4) [OF that] D(1) by (auto simp: discard_ok_def split: if_splits)
  have "special_ok ?g (hand_of g i)" if "0 \<le> i" "i < numSeats g" for i
    using len [OF that] by (simp add: special_ok_def)
  moreover have "tricks_ok ?g"
    using tr d
    by (auto simp: tricks_ok_def newTrick_def trick_turn_def intro!: exI [of _ "Declarer g"])
  moreover have "contract_ok ?g" using con contract_ok_cong [of ?g g] by simp
  moreover have "table_ok ?g" using inv table_ok_cong [of ?g g] by (simp add: calling_inv_def)
  ultimately show "playing_inv h ?g"
    using inv D tr pos all_hands_cong [of ?g g] all_points_cong [of ?g g]
    by (auto simp: playing_inv_def playing_core_def calling_inv_def newTrick_def has_played_def
        intro!: exI [of _ D])
  show "frame g ?g" by (simp add: frame_def roster_def apply_call_partner_def Let_def)
  show "books ?g = books g" by (simp add: books_def apply_call_partner_def Let_def)
  show "Players ?g = Players g" by simp
qed

lemma accepted_call:
  assumes inv: "calling_inv h g" and v: "ValidateMove g uid MoveCallPartner pl = None"
  obtains m where "asCallPartnerMove pl = Inr m" "NoFriend m \<longleftrightarrow> cpCard m = None"
    "\<And>c. cpCard m = Some c \<Longrightarrow> c \<in> set NewDeck"
    "ApplyMove e g uid MoveCallPartner pl = Inr (touch e (apply_call_partner g m))"
proof -
  obtain i p where p: "player_at g i = Inr p" "pID p = uid" "resolve_pointer g uid = Inr (i, p)"
    by (rule ValidateMove_player [OF v])
  have w: "validateCallPartner g p pl = None" by (rule ValidateMove_dispatch(4) [OF v p(3) refl])
  have ph: "Status g = PhaseCalling" using inv by (simp add: calling_inv_def)
  obtain m where m: "asCallPartnerMove pl = Inr m"
    using w ph by (cases "asCallPartnerMove pl") (auto simp: validateCallPartner_def check_id_None)
  have x: "NoFriend m \<longleftrightarrow> cpCard m = None"
    using w ph m by (auto simp: validateCallPartner_def check_id_None split: if_splits)
  have "c \<in> set NewDeck" if c: "cpCard m = Some c" for c
  proof (cases "Suit c = NoneSuit \<and> Rank c = Joker")
    case True
    then have "c = mkCard NoneSuit Joker" by (intro Card.equality) simp_all
    then show ?thesis by (simp add: NewDeck_def in_deck)
  next
    case False
    then have "suitRank (Suit c) \<noteq> None" "validRanks (Rank c)"
      using w ph m c x by (auto simp: validateCallPartner_def check_id_None split: if_splits)
    then show ?thesis
      by (cases "Suit c"; cases "Rank c") (auto simp: NewDeck_def in_deck deck_skips_def validRanks_def)
  qed
  with m x ph show thesis by (intro that [of m]) (simp_all add: ApplyMove_def Let_def)
qed

section \<open>The cards of the round\<close>

lemma accepted_discard_ok:
  assumes inv: "exchanging_inv g" and v: "ValidateMove g uid MoveDiscard (PCards cards) = None"
  obtains k where "ApplyMove e g uid MoveDiscard (PCards cards) = Inr (touch e k)"
    "length cards = 3" "(h \<longrightarrow> distinct cards) \<longrightarrow> calling_inv h k" "frame g k" "books k = books g"
    "length (hand_of k (Declarer g)) + card (set cards) = 13"
    "all_hands k + mset_set (set cards) = deck_of g" "all_points k = points_in (mset_set (set cards))"
    "\<forall>i. i \<noteq> Declarer g \<longrightarrow> hand_of k i = hand_of g i"
proof -
  obtain cs p where p: "PCards cards = PCards cs" "length cs = 3" "set cs \<subseteq> set (Hand p)"
    "player_at g (Declarer g) = Inr p"
    "ApplyMove e g uid MoveDiscard (PCards cards) = Inr (touch e (apply_discard g (Declarer g) p cs))"
    by (rule accepted_discard [OF inv v])
  note k = apply_discard_ok [OF inv p(4,2,3)]
  have "hand_of (apply_discard g (Declarer g) p cs) i = hand_of g i" if "i \<noteq> Declarer g" for i
    using that
    by (simp add: apply_discard_def Let_def hand_of_set_player [OF p(4)]
        hand_of_cong [of "(set_player g j q)\<lparr>Status := s\<rparr>" "set_player g j q" for j q s])
  with p k show thesis by (intro that [of "apply_discard g (Declarer g) p cs"]) simp_all
qed

text \<open>
  A discard of three different cards that validation accepts leaves the declarer with ten cards, and no
  card is lost: the hands and the three discarded cards are the whole deck, and the captured cards
  are exactly the scoring cards among the three.
\<close>

lemma discard_keeps_all_cards:
  assumes "exchanging_inv g" "ValidateMove g uid MoveDiscard (PCards cards) = None" "distinct cards"
  shows "\<exists>g'. ApplyMove e g uid MoveDiscard (PCards cards) = Inr g' \<and> Status g' = PhaseCalling \<and>
    all_hands g' + mset cards = deck_of g' \<and> all_points g' = points_in (mset cards) \<and>
    length (hand_of g' (Declarer g)) = 10"
proof -
  obtain k where k: "ApplyMove e g uid MoveDiscard (PCards cards) = Inr (touch e k)"
    "length cards = 3" "(True \<longrightarrow> distinct cards) \<longrightarrow> calling_inv True k" "frame g k" "books k = books g"
    "length (hand_of k (Declarer g)) + card (set cards) = 13"
    "all_hands k + mset_set (set cards) = deck_of g" "all_points k = points_in (mset_set (set cards))"
    "\<forall>i. i \<noteq> Declarer g \<longrightarrow> hand_of k i = hand_of g i"
    by (rule accepted_discard_ok [OF assms(1,2), where e = e and h = True])
  have "mset_set (set cards) = mset cards" "card (set cards) = 3"
    using assms(3) k(2) by (simp_all add: mset_set_set distinct_card)
  moreover have "numSeats k = numSeats g" using k(4) by (simp add: frame_def numSeats_def)
  ultimately show ?thesis using k assms(3)
    by (intro exI [of _ "touch e k"]) (simp add: calling_inv_def)
qed

text \<open>
  C18. The guard of the discard counts three entries and checks that each is held, but not that they
  differ. The declarer may name one card three times; the move is accepted, one card leaves the hand,
  and the declarer goes into the play with twelve cards instead of ten.
\<close>

theorem duplicate_discard_keeps_twelve:
  assumes "exchanging_inv g" "player_at g (Declarer g) = Inr p" "c \<in> set (Hand p)"
  shows "ValidateMove g (pID p) MoveDiscard (PCards [c, c, c]) = None \<and>
    (\<exists>g'. ApplyMove e g (pID p) MoveDiscard (PCards [c, c, c]) = Inr g' \<and>
       Status g' = PhaseCalling \<and> length (hand_of g' (Declarer g)) = 12)"
proof -
  have s: "seats_ok g" and ph: "Status g = PhaseExchanging"
    using assms(1) by (auto simp: exchanging_inv_def table_ok_def)
  have v: "ValidateMove g (pID p) MoveDiscard (PCards [c, c, c]) = None"
    using assms(2,3) ph GetPlayer_player_at [OF s assms(2)]
    by (simp add: ValidateMove_def validateDiscard_def check_id_def HasCard_iff)
  obtain k where k: "ApplyMove e g (pID p) MoveDiscard (PCards [c, c, c]) = Inr (touch e k)"
    "length [c, c, c] = 3" "(False \<longrightarrow> distinct [c, c, c]) \<longrightarrow> calling_inv False k" "frame g k" "books k = books g"
    "length (hand_of k (Declarer g)) + card (set [c, c, c]) = 13"
    "all_hands k + mset_set (set [c, c, c]) = deck_of g" "all_points k = points_in (mset_set (set [c, c, c]))"
    "\<forall>i. i \<noteq> Declarer g \<longrightarrow> hand_of k i = hand_of g i"
    by (rule accepted_discard_ok [OF assms(1) v, where e = e and h = False])
  then show ?thesis using v by (auto simp: calling_inv_def)
qed

section \<open>Witnesses\<close>

lemma demo_exchange:
  obtains g p c where "exchanging_inv g" "player_at g (Declarer g) = Inr p" "c \<in> set (Hand p)"
    "take 3 (Hand p) = [c, Hand p ! 1, Hand p ! 2]" "distinct (take 3 (Hand p))"
    "frame (demo_deal 5) g" "\<forall>i. i \<noteq> 0 \<longrightarrow> hand_of g i = hand_of (demo_deal 5) i"
proof -
  obtain p where p: "player_at (demo_deal 5) (CurrentTurn (demo_deal 5)) = Inr p"
    by (rule demo_deal_player) (simp add: demo_deal_bidding)
  have b: "bid_ok (demo_deal 5) (demo_bid 10)" "outbids (demo_bid 10) (demo_deal 5)"
    using demo_deal_bidding
    by (simp_all add: bid_ok_def demo_bid_def minBidPoints_def outbids_def)
  obtain g where g: "exchanging_inv g" "frame (demo_deal 5) g"
      "\<forall>i. i \<noteq> 0 \<longrightarrow> hand_of g i = hand_of (demo_deal 5) i"
    by (rule apply_bid_ok [OF demo_deal_bidding(1) p b])
       (simp_all add: demo_bid_def demo_deal_bidding(3))
  then have d: "0 \<le> Declarer g" "Declarer g < numSeats g" and tab: "table_ok g"
    and all: "all_hands g = deck_of g" by (auto simp: exchanging_inv_def contract_ok_def)
  obtain q where q: "player_at g (Declarer g) = Inr q" by (rule table_filled [OF tab d])
  have len: "length (Hand q) = 13"
    using g d hand_of_player [OF q] by (auto simp: exchanging_inv_def)
  have "distinct (Hand q)"
    by (rule distinct_subset_deck [of _ g]) (use hand_subset_all [OF d] all hand_of_player [OF q] in simp)
  moreover obtain a b c rest where "Hand q = a # b # c # rest"
  proof -
    obtain a xs where "Hand q = a # xs" using len by (cases "Hand q") auto
    moreover from this obtain b ys where "xs = b # ys" using len by (cases xs) auto
    moreover from this calculation obtain c zs where "ys = c # zs" using len by (cases ys) auto
    ultimately show thesis using that by blast
  qed
  ultimately show thesis using g q by (intro that [of g q a]) auto
qed

lemma discard_keeps_all_cards_witness:
  "\<exists>g uid cards g'. ApplyMove demo_env g uid MoveDiscard (PCards cards) = Inr g' \<and>
     all_hands g' + mset cards = deck_of g' \<and> length (hand_of g' (Declarer g)) = 10"
proof -
  obtain g p c where g: "exchanging_inv g" "player_at g (Declarer g) = Inr p" "c \<in> set (Hand p)"
    "take 3 (Hand p) = [c, Hand p ! 1, Hand p ! 2]" "distinct (take 3 (Hand p))" by (rule demo_exchange) blast
  have s: "seats_ok g" and ph: "Status g = PhaseExchanging"
    using g(1) by (auto simp: exchanging_inv_def table_ok_def)
  have sub: "set (take 3 (Hand p)) \<subseteq> set (Hand p)" by (rule set_take_subset)
  have "ValidateMove g (pID p) MoveDiscard (PCards (take 3 (Hand p))) = None"
    using g(2,4) sub ph GetPlayer_player_at [OF s g(2)]
    by (simp add: ValidateMove_def validateDiscard_def check_id_def HasCard_iff)
  from discard_keeps_all_cards [OF g(1) this g(5), of demo_env] show ?thesis by blast
qed

theorem duplicate_discard_keeps_twelve_witness:
  "\<exists>g uid c g'. ApplyMove demo_env g uid MoveDiscard (PCards [c, c, c]) = Inr g' \<and>
     length (hand_of g' (Declarer g)) = 12"
proof -
  obtain g p c where g: "exchanging_inv g" "player_at g (Declarer g) = Inr p" "c \<in> set (Hand p)"
    by (rule demo_exchange) blast
  from duplicate_discard_keeps_twelve [OF this, of demo_env] show ?thesis by blast
qed

end
