(* ===== verification/Play.thy ===== *)
theory Play
  imports Exchange
begin

text \<open>
  The play of the cards: which card the validator accepts, that the player on turn always has one,
  and that playing an accepted card keeps the invariant of the phase, through the end of a trick
  and the end of the round.
\<close>

section \<open>What the validator lets through\<close>

lemma validatePlayCard_accept:
  assumes "validatePlayCard g p pl = None"
  obtains m where "asPlayCardMove pl = Some m" "Status g = PhasePlaying" "pmCard m \<in> set (Hand p)"
    "Tricks g \<noteq> []" "check_forced g p (last (Tricks g)) (pmCard m) = None"
    "if tCards (last (Tricks g)) = [] then check_lead g p m = None
     else check_follow g p (last (Tricks g)) m = None"
    "check_id g (CurrentTurn g) (pID p) ''not your turn'' None = None"
proof -
  obtain m where m: "asPlayCardMove pl = Some m" and ph: "Status g = PhasePlaying"
    using assms by (cases "asPlayCardMove pl") (auto simp: validatePlayCard_def check_id_None split: if_splits)
  have rest: "pmCard m \<in> set (Hand p)" "Tricks g \<noteq> []"
    "check_id g (CurrentTurn g) (pID p) ''not your turn'' None = None"
    "(case check_forced g p (last (Tricks g)) (pmCard m) of Some e \<Rightarrow> Some e
      | None \<Rightarrow> if tCards (last (Tricks g)) = [] then check_lead g p m
                else check_follow g p (last (Tricks g)) m) = None"
    using assms m ph by (auto simp: validatePlayCard_def check_id_None HasCard_iff Let_def split: if_splits)
  from rest(4) have "check_forced g p (last (Tricks g)) (pmCard m) = None"
    "if tCards (last (Tricks g)) = [] then check_lead g p m = None
     else check_follow g p (last (Tricks g)) m = None"
    by (auto split: option.splits if_splits)
  with m ph rest(1-3) that show thesis by blast
qed

lemma validatePlayCard_intro:
  assumes "asPlayCardMove pl = Some m" "Status g = PhasePlaying" "pmCard m \<in> set (Hand p)"
    "Tricks g \<noteq> []" "check_forced g p (last (Tricks g)) (pmCard m) = None"
    "tCards (last (Tricks g)) = [] \<Longrightarrow> check_lead g p m = None"
    "tCards (last (Tricks g)) \<noteq> [] \<Longrightarrow> check_follow g p (last (Tricks g)) m = None"
    "player_at g (CurrentTurn g) = Inr p"
  shows "validatePlayCard g p pl = None"
  using assms by (simp add: validatePlayCard_def check_id_def HasCard_iff Let_def)

text \<open>The special cards of a hand, and when one of them must be played.\<close>

definition special :: "Game \<Rightarrow> Card \<Rightarrow> bool" where
  "special g c \<longleftrightarrow> IsMighty g c \<or> Rank c = Joker"

definition has_mighty :: "Game \<Rightarrow> Player \<Rightarrow> bool" where
  "has_mighty g p \<longleftrightarrow> (\<exists>c \<in> set (Hand p). IsMighty g c)"

definition has_joker :: "Player \<Rightarrow> bool" where
  "has_joker p \<longleftrightarrow> (\<exists>c \<in> set (Hand p). Rank c = Joker)"

lemma HasMighty_iff [simp]: "HasMighty p g = has_mighty g p"
  by (simp add: HasMighty_def has_mighty_def list_ex_iff)

lemma HasRank_Joker [simp]: "HasRank p Joker = has_joker p"
  by (simp add: HasRank_def has_joker_def list_ex_iff)

definition must_special :: "Game \<Rightarrow> Trick \<Rightarrow> Player \<Rightarrow> bool" where
  "must_special g t p \<longleftrightarrow>
     length (Hand p) = 3 \<and> has_mighty g p \<and> has_joker p \<or>
     length (Hand p) = 2 \<and> (has_mighty g p \<or> has_joker p) \<or>
     JokerCalled t \<and> has_joker p"

lemma check_forced_None: "check_forced g p t c = None \<longleftrightarrow> special g c \<or> \<not> must_special g t p"
  by (auto simp: check_forced_def must_special_def special_def Let_def)

lemma special_ok_iff: "special_ok g hand \<longleftrightarrow>
    (length hand \<le> 2 \<longrightarrow> \<not> ((\<exists>c \<in> set hand. IsMighty g c) \<and> (\<exists>c \<in> set hand. Rank c = Joker))) \<and>
    (length hand \<le> 1 \<longrightarrow> (\<forall>c \<in> set hand. \<not> special g c))"
  by (auto simp: special_ok_def list_ex_iff special_def)

text \<open>A hand of the deck has at most one joker, as every hand has at most one mighty.\<close>

definition one_joker :: "Card list \<Rightarrow> bool" where
  "one_joker hand \<longleftrightarrow> (\<forall>c \<in> set hand. \<forall>d \<in> set hand. Rank c = Joker \<longrightarrow> Rank d = Joker \<longrightarrow> c = d)"

lemma deck_joker: "c \<in> set (NewDeckFor n) \<Longrightarrow> Rank c = Joker \<Longrightarrow> c = mkCard NoneSuit Joker"
  by (auto simp: in_deck)

lemma deck_one_joker: "set hand \<subseteq> set (NewDeckFor n) \<Longrightarrow> one_joker hand"
  unfolding one_joker_def using deck_joker by blast

text \<open>Playing a card that the forcing rules allow keeps the hand free to finish.\<close>

lemma special_ok_after:
  assumes "special_ok g (Hand p)" "distinct (Hand p)" "one_joker (Hand p)" "c \<in> set (Hand p)"
    and "check_forced g p t c = None"
  shows "special_ok g (filter (\<lambda>d. d \<noteq> c) (Hand p))"
proof -
  let ?H = "filter (\<lambda>d. d \<noteq> c) (Hand p)"
  have len: "Suc (length ?H) = length (Hand p)" by (rule filter_neq_length [OF assms(2,4)])
  have f: "special g c \<or> \<not> must_special g t p" using assms(5) by (simp only: check_forced_None)
  have "\<not> ((\<exists>d \<in> set ?H. IsMighty g d) \<and> (\<exists>d \<in> set ?H. Rank d = Joker))" if "length ?H \<le> 2"
  proof
    assume both: "(\<exists>d \<in> set ?H. IsMighty g d) \<and> (\<exists>d \<in> set ?H. Rank d = Joker)"
    then have hm: "has_mighty g p" and hj: "has_joker p" by (auto simp: has_mighty_def has_joker_def)
    have "length (Hand p) = 3 \<or> length (Hand p) \<le> 2" using that len by linarith
    then show False
    proof
      assume "length (Hand p) = 3"
      then have "special g c" using f hm hj by (simp add: must_special_def)
      then show False
        using both assms(3,4) mighty_unique unfolding special_def one_joker_def by auto
    next
      assume "length (Hand p) \<le> 2"
      then show False using assms(1) hm hj by (auto simp: special_ok_iff has_mighty_def has_joker_def)
    qed
  qed
  moreover have "\<not> special g d" if "length ?H \<le> 1" and d: "d \<in> set ?H" for d
  proof
    assume sd: "special g d"
    have two: "length (Hand p) = 2" using that len by (cases ?H) auto
    then have "must_special g t p"
      using sd d by (auto simp: must_special_def has_mighty_def has_joker_def special_def)
    then have "special g c" using f by simp
    then show False
      using two sd d assms(1,3,4) mighty_unique [of g c d] IsMighty_not_Joker
      unfolding special_def special_ok_iff one_joker_def by auto
  qed
  ultimately show ?thesis unfolding special_ok_iff by blast
qed

section \<open>The player on turn\<close>

lemma seats_from_nth: "k < nat n \<Longrightarrow> seats_from n t ! k = (t + int k) mod n"
  by (simp add: seats_from_def)

lemma turn_not_played:
  assumes "trick_turn g t" "int (length (tCards t)) < numSeats g"
  shows "0 \<le> CurrentTurn g" "CurrentTurn g < numSeats g" "\<not> has_played t (CurrentTurn g)"
proof -
  obtain lead where l: "0 \<le> lead" "lead < numSeats g"
    "map pcSeat (tCards t) = take (length (tCards t)) (seats_from (numSeats g) lead)"
    "CurrentTurn g = (lead + int (length (tCards t))) mod numSeats g"
    using assms(1) by (auto simp: trick_turn_def)
  have n: "length (tCards t) < nat (numSeats g)" using assms(2) by simp
  show "0 \<le> CurrentTurn g" "CurrentTurn g < numSeats g" using l by auto
  have len: "length (seats_from (numSeats g) lead) = nat (numSeats g)" by (simp add: seats_from_def)
  have "CurrentTurn g = seats_from (numSeats g) lead ! length (tCards t)"
    using l(4) seats_from_nth [OF n] by simp
  then have "CurrentTurn g \<notin> set (take (length (tCards t)) (seats_from (numSeats g) lead))"
    using seats_from_set(2) [OF l(1,2)] n len by (auto simp: in_set_conv_nth nth_eq_iff_index_eq)
  then show "\<not> has_played t (CurrentTurn g)"
    using l(3) by (metis has_played_def image_set)
qed

lemma playing_turn:
  assumes "playing_inv h g"
  obtains p D where "player_at g (CurrentTurn g) = Inr p" "0 \<le> CurrentTurn g" "CurrentTurn g < numSeats g"
    "distinct (Hand p)" "set (Hand p) \<subseteq> set (NewDeckFor (numSeats g))" "special_ok g (Hand p)"
    "length (Hand p) + length (Tricks g) + (if CurrentTurn g = Declarer g then size D else 3) = 14"
    "discard_ok h D" "\<not> has_played (last (Tricks g)) (CurrentTurn g)"
proof -
  have tab: "table_ok g" and tr: "trick_turn g (last (Tricks g))"
    and less: "int (length (tCards (last (Tricks g)))) < numSeats g"
    using assms by (auto simp: playing_inv_def playing_core_def tricks_ok_def)
  note t = turn_not_played [OF tr less]
  obtain p where p: "player_at g (CurrentTurn g) = Inr p" by (rule table_filled [OF tab t(1,2)])
  obtain D where D: "discard_ok h D" "all_hands g + cards_in (Tricks g) + D = deck_of g"
    "length (hand_of g (CurrentTurn g)) + length (Tricks g)
       + (if CurrentTurn g = Declarer g then size D else 3) = 14"
    using assms t by (fastforce simp: playing_inv_def playing_core_def)
  have "mset (Hand p) \<subseteq># all_hands g" using hand_subset_all [OF t(1,2)] hand_of_player [OF p] by simp
  also have "\<dots> \<subseteq># deck_of g" unfolding D(2) [symmetric] by (simp add: add.assoc)
  finally have sub: "mset (Hand p) \<subseteq># deck_of g" .
  have "special_ok g (Hand p)"
    using assms t hand_of_player [OF p] by (metis playing_inv_def playing_core_def)
  with that [OF p t(1,2) distinct_subset_deck(1) [OF sub] distinct_subset_deck(2) [OF sub] _ _ D(1) t(3)]
  show thesis using D(3) hand_of_player [OF p] by simp
qed

section \<open>There is always a card to play\<close>

lemma LeadSuit_card:
  assumes "suitRank s \<noteq> None" "Suit c = s" "c \<in> set (NewDeckFor n)"
  shows "Rank c \<noteq> Joker"
  using assms deck_joker by fastforce

lemma plain_card:
  assumes "distinct hand" "one_joker hand" "3 \<le> length hand"
  obtains c where "c \<in> set hand" "\<not> special g c"
proof -
  let ?S = "{c \<in> set hand. special g c}"
  have "?S \<subseteq> {c \<in> set hand. IsMighty g c} \<union> {c \<in> set hand. Rank c = Joker}" by (auto simp: special_def)
  moreover have "card {c \<in> set hand. IsMighty g c} \<le> 1"
    using mighty_unique by (auto simp: card_le_Suc0_iff_eq)
  moreover have "card {c \<in> set hand. Rank c = Joker} \<le> 1"
    using assms(2) by (auto simp: card_le_Suc0_iff_eq one_joker_def)
  ultimately have "card ?S \<le> 2"
    using card_mono [of "{c \<in> set hand. IsMighty g c} \<union> {c \<in> set hand. Rank c = Joker}" ?S]
      card_Un_le [of "{c \<in> set hand. IsMighty g c}" "{c \<in> set hand. Rank c = Joker}"] by force
  then have "?S \<noteq> set hand" using assms(1,3) distinct_card [of hand] by auto
  then show thesis using that by auto
qed

text \<open>Leading the card: the joker names a suit.\<close>

definition as_lead :: "Card \<Rightarrow> PlayCardMove" where
  "as_lead c = \<lparr>pmCard = c, CallJoker = False,
     CalledSuit = (if Rank c = Joker then Spades else EmptySuit)\<rparr>"

definition as_follow :: "Card \<Rightarrow> PlayCardMove" where
  "as_follow c = \<lparr>pmCard = c, CallJoker = False, CalledSuit = EmptySuit\<rparr>"

lemma lead_exists:
  assumes hand: "distinct (Hand p)" "one_joker (Hand p)" "Hand p \<noteq> []"
    and first: "length (Tricks g) = 1 \<longrightarrow> 4 \<le> length (Hand p)"
    and nojoker: "\<not> JokerCalled t"
  obtains c where "c \<in> set (Hand p)" "check_forced g p t c = None" "check_lead g p (as_lead c) = None"
proof (cases "length (Tricks g) = 1")
  case True
  have free: "check_forced g p t c = None" for c
    using first True nojoker by (auto simp: check_forced_None must_special_def)
  have "3 \<le> length (Hand p)" using first True by simp
  then obtain c where c: "c \<in> set (Hand p)" "\<not> special g c" by (rule plain_card [OF hand(1,2)])
  show thesis
  proof (cases "HasNonTrumpMightyJoker p g")
    case True
    then obtain d where "d \<in> set (Hand p)" "Suit d \<noteq> Trump g" "\<not> special g d"
      by (auto simp: HasNonTrumpMightyJoker_def list_ex_iff special_def)
    with free that [of d] show thesis by (simp add: check_lead_def as_lead_def special_def Let_def)
  next
    case False
    with c free that [of c] show thesis by (simp add: check_lead_def as_lead_def special_def Let_def)
  qed
next
  case False
  have ok: "check_lead g p (as_lead c) = None" for c
    using False by (simp add: check_lead_def as_lead_def Let_def)
  show thesis
  proof (cases "must_special g t p")
    case True
    then obtain c where "c \<in> set (Hand p)" "special g c"
      by (auto simp: must_special_def has_mighty_def has_joker_def special_def)
    with ok that [of c] show thesis by (simp add: check_forced_None)
  next
    case False
    obtain c where "c \<in> set (Hand p)" using hand(3) by (cases "Hand p") auto
    with ok False that [of c] show thesis by (simp add: check_forced_None)
  qed
qed

lemma follow_exists:
  assumes hand: "distinct (Hand p)" "one_joker (Hand p)" "Hand p \<noteq> []"
    and deck: "set (Hand p) \<subseteq> set (NewDeckFor n)" and lead: "suitRank (LeadSuit t) \<noteq> None"
    and first: "length (Tricks g) = 1 \<longrightarrow> 4 \<le> length (Hand p) \<and> \<not> JokerCalled t"
  obtains c where "c \<in> set (Hand p)" "check_forced g p t c = None" "check_follow g p t (as_follow c) = None"
proof (cases "length (Tricks g) = 1")
  case True
  have free: "check_forced g p t c = None" for c
    using first True by (auto simp: check_forced_None must_special_def)
  show thesis
  proof (cases "\<exists>c \<in> set (Hand p). Suit c = LeadSuit t \<and> \<not> IsMighty g c")
    case True
    then obtain c where c: "c \<in> set (Hand p)" "Suit c = LeadSuit t" "\<not> IsMighty g c" by blast
    then have "Rank c \<noteq> Joker" using LeadSuit_card [OF lead c(2)] deck by blast
    with c free that [of c] show thesis by (simp add: check_follow_def as_follow_def Let_def)
  next
    case only: False
    show thesis
    proof (cases "\<exists>c \<in> set (Hand p). Suit c = LeadSuit t")
      case True
      then obtain c where c: "c \<in> set (Hand p)" "Suit c = LeadSuit t" by blast
      then have m: "IsMighty g c" using only by blast
      have "set (filter (\<lambda>d. Suit d = LeadSuit t) (Hand p)) \<subseteq> {c}"
        using only m mighty_unique by auto
      then have "GetSuitCount p (LeadSuit t) \<le> 1"
        using hand(1) distinct_card [of "filter (\<lambda>d. Suit d = LeadSuit t) (Hand p)"]
          card_mono [of "{c}" "set (filter (\<lambda>d. Suit d = LeadSuit t) (Hand p))"]
        by (simp add: GetSuitCount_def)
      then show thesis
        using c m IsMighty_not_Joker [OF m] free that [of c]
        by (simp add: check_follow_def as_follow_def Let_def)
    next
      case False
      have "3 \<le> length (Hand p)" using first \<open>length (Tricks g) = 1\<close> by simp
      then obtain c where "c \<in> set (Hand p)" "\<not> special g c" by (rule plain_card [OF hand(1,2)])
      with False free that [of c] show thesis
        by (simp add: check_follow_def as_follow_def special_def HasSuit_def list_ex_iff Let_def)
    qed
  qed
next
  case False
  have ok: "check_follow g p t (as_follow c) = None"
    if "special g c \<or> Suit c = LeadSuit t \<or> \<not> HasSuit p (LeadSuit t)" for c
    using False that by (auto simp: check_follow_def as_follow_def special_def Let_def)
  show thesis
  proof (cases "must_special g t p")
    case True
    then obtain c where "c \<in> set (Hand p)" "special g c"
      by (auto simp: must_special_def has_mighty_def has_joker_def special_def)
    with ok that [of c] show thesis by (simp add: check_forced_None)
  next
    case free: False
    show thesis
    proof (cases "HasSuit p (LeadSuit t)")
      case True
      then obtain c where "c \<in> set (Hand p)" "Suit c = LeadSuit t" by (auto simp: HasSuit_def list_ex_iff)
      with ok free that [of c] show thesis by (simp add: check_forced_None)
    next
      case False
      obtain c where "c \<in> set (Hand p)" using hand(3) by (cases "Hand p") auto
      with ok free False that [of c] show thesis by (simp add: check_forced_None)
    qed
  qed
qed

lemma play_possible:
  assumes "playing_inv h g"
  shows "\<exists>p m. player_at g (CurrentTurn g) = Inr p \<and>
    ValidateMove g (pID p) MovePlayCard (PPlayCard m) = None \<and>
    pmCard m \<in> set (NewDeckFor (numSeats g)) \<and> CalledSuit m \<in> {Spades, EmptySuit}"
proof -
  obtain p D where p: "player_at g (CurrentTurn g) = Inr p"
    "distinct (Hand p)" "set (Hand p) \<subseteq> set (NewDeckFor (numSeats g))"
    "length (Hand p) + length (Tricks g) + (if CurrentTurn g = Declarer g then size D else 3) = 14"
    "discard_ok h D" by (rule playing_turn [OF assms])
  let ?t = "last (Tricks g)"
  have T: "Tricks g \<noteq> []" "length (Tricks g) \<le> 10" and ph: "Status g = PhasePlaying" and s: "seats_ok g"
    and jc: "tCards ?t = [] \<or> length (Tricks g) = 1 \<longrightarrow> \<not> JokerCalled ?t"
    and ls: "tCards ?t \<noteq> [] \<longrightarrow> suitRank (LeadSuit ?t) \<noteq> None"
    using assms by (auto simp: playing_inv_def playing_core_def tricks_ok_def table_ok_def)
  have one: "one_joker (Hand p)" by (rule deck_one_joker [OF p(3)])
  have ne: "Hand p \<noteq> []" and first: "length (Tricks g) = 1 \<longrightarrow> 4 \<le> length (Hand p)"
    using p(4,5) T(2) by (auto simp: discard_ok_def split: if_splits)
  obtain m where m: "pmCard m \<in> set (Hand p)" "check_forced g p ?t (pmCard m) = None"
    "tCards ?t = [] \<Longrightarrow> check_lead g p m = None"
    "tCards ?t \<noteq> [] \<Longrightarrow> check_follow g p ?t m = None" "CalledSuit m \<in> {Spades, EmptySuit}"
  proof (cases "tCards ?t = []")
    case True
    with jc have j: "\<not> JokerCalled ?t" by simp
    obtain c where "c \<in> set (Hand p)" "check_forced g p ?t c = None" "check_lead g p (as_lead c) = None"
      by (rule lead_exists [OF p(2) one ne first j])
    with that [of "as_lead c"] True show thesis by (simp add: as_lead_def)
  next
    case False
    with ls have l: "suitRank (LeadSuit ?t) \<noteq> None" by simp
    have f: "length (Tricks g) = 1 \<longrightarrow> 4 \<le> length (Hand p) \<and> \<not> JokerCalled ?t" using first jc by simp
    obtain c where "c \<in> set (Hand p)" "check_forced g p ?t c = None"
      "check_follow g p ?t (as_follow c) = None" by (rule follow_exists [OF p(2) one ne p(3) l f])
    with that [of "as_follow c"] False show thesis by (simp add: as_follow_def)
  qed
  have "validatePlayCard g p (PPlayCard m) = None"
    by (rule validatePlayCard_intro [OF _ ph m(1) T(1) m(2,3,4) p(1)]) (simp_all add: asPlayCardMove_def)
  then have "ValidateMove g (pID p) MovePlayCard (PPlayCard m) = None"
    using p(1) GetPlayer_player_at [OF s p(1)] by (simp add: ValidateMove_def check_id_def)
  with p(1,3) m(1,5) show ?thesis by blast
qed

text \<open>
  C17. On a legally dealt table in the playing phase (\<open>playing_inv\<close>, which C1 gives unless someone was seated outside the waiting
  room) the player on turn holds a card the rules allow: whatever the forcing of mighty and joker, the
  joker call and the restrictions of the first trick leave, some play is accepted.
\<close>

theorem player_can_always_play:
  assumes "playing_inv h g"
  shows "\<exists>p m. player_at g (CurrentTurn g) = Inr p \<and>
    ValidateMove g (pID p) MovePlayCard (PPlayCard m) = None"
  using play_possible [OF assms] by blast

section \<open>Laying down the card\<close>

text \<open>The state just after the card is in the trick, before a complete trick is resolved.\<close>

definition after_card :: "Game \<Rightarrow> int \<Rightarrow> Player \<Rightarrow> PlayCardMove \<Rightarrow> Game" where
  "after_card g i p move =
     (let g1 = set_player g i (p\<lparr>Hand := filter (\<lambda>h. h \<noteq> pmCard move) (Hand p)\<rparr>)
      in g1\<lparr>Tricks := butlast (Tricks g1) @ [lay_card g1 (last (Tricks g1)) p move],
            CurrentTurn := go_rem (CurrentTurn g1 + 1) (numSeats g1)\<rparr>)"

lemma lay_card_cards [simp]:
  "tCards (lay_card g t p m) = tCards t @ [\<lparr>pcPlayerID = pID p, pcSeat = Seat p, pcCard = pmCard m\<rparr>]"
  by (simp add: lay_card_def Let_def)

lemma apply_play_card_eq:
  "Tricks g \<noteq> [] \<Longrightarrow> apply_play_card g i p m =
     (let k = after_card g i p m
      in if int (length (tCards (last (Tricks k)))) = numSeats k then finish_trick k else Inr k)"
  by (simp add: apply_play_card_def after_card_def Let_def numSeats_def)

lemma accepted_play:
  assumes inv: "playing_inv h g" and v: "ValidateMove g uid MovePlayCard pl = None"
  obtains m p where "asPlayCardMove pl = Some m" "player_at g (CurrentTurn g) = Inr p" "pID p = uid"
    "pmCard m \<in> set (Hand p)" "check_forced g p (last (Tricks g)) (pmCard m) = None"
    "if tCards (last (Tricks g)) = [] then check_lead g p m = None
     else check_follow g p (last (Tricks g)) m = None"
    "ApplyMove e g uid MovePlayCard pl =
       bindE (apply_play_card g (CurrentTurn g) p m) (\<lambda>g'. Inr (touch e g'))"
proof -
  obtain i p where p: "player_at g i = Inr p" "pID p = uid" "resolve_pointer g uid = Inr (i, p)"
    by (rule ValidateMove_player [OF v])
  obtain m where m: "asPlayCardMove pl = Some m" "Status g = PhasePlaying" "pmCard m \<in> set (Hand p)"
    "Tricks g \<noteq> []" "check_forced g p (last (Tricks g)) (pmCard m) = None"
    "if tCards (last (Tricks g)) = [] then check_lead g p m = None
     else check_follow g p (last (Tricks g)) m = None"
    "check_id g (CurrentTurn g) (pID p) ''not your turn'' None = None"
    by (rule validatePlayCard_accept [OF ValidateMove_dispatch(5) [OF v p(3) refl]])
  have "seats_ok g" using inv by (simp add: playing_inv_def playing_core_def table_ok_def)
  then have "CurrentTurn g = i" using check_id_seat [OF m(7) _ p(1)] by simp
  then show thesis
    using p m by (intro that [of m p]) (simp_all add: ApplyMove_def Let_def asPlay_def)
qed

lemma trick_turn_next:
  assumes "trick_turn g t" "int (length (tCards t)) < numSeats g" "numSeats g' = numSeats g"
    and "map pcSeat (tCards t') = map pcSeat (tCards t) @ [CurrentTurn g]"
    and "CurrentTurn g' = (CurrentTurn g + 1) mod numSeats g"
  shows "trick_turn g' t'"
proof -
  obtain lead where l: "0 \<le> lead" "lead < numSeats g"
    "map pcSeat (tCards t) = take (length (tCards t)) (seats_from (numSeats g) lead)"
    "CurrentTurn g = (lead + int (length (tCards t))) mod numSeats g"
    using assms(1) by (auto simp: trick_turn_def)
  have n: "length (tCards t) < nat (numSeats g)" using assms(2) by simp
  have "length (map pcSeat (tCards t')) = length (map pcSeat (tCards t)) + 1"
    using assms(4) by (metis One_nat_def length_append list.size(3,4) add.commute plus_1_eq_Suc)
  then have len: "length (tCards t') = Suc (length (tCards t))" by simp
  have "length (tCards t) < length (seats_from (numSeats g) lead)" using n by (simp add: seats_from_def)
  then have "map pcSeat (tCards t') = take (length (tCards t')) (seats_from (numSeats g) lead)"
    using assms(4) l(3,4) len seats_from_nth [OF n, of lead] by (simp add: take_Suc_conv_app_nth)
  moreover have "CurrentTurn g' = (lead + int (length (tCards t'))) mod numSeats g"
    using assms(5) l(4) len by (simp add: mod_add_left_eq mod_add_right_eq algebra_simps)
  ultimately show ?thesis
    using l(1,2) len assms(2,3) by (auto simp: trick_turn_def intro!: exI [of _ lead])
qed

lemma mset_take: "A' + add_mset x H' = A + H' \<Longrightarrow> add_mset x A' = (A :: 'a multiset)"
  by simp

lemma mset_move:
  "add_mset x H' = H \<Longrightarrow> H + (B + L) + D = X \<Longrightarrow> H' + (B + add_mset x L) + D = (X :: 'a multiset)"
  by auto

lemma cards_in_butlast: "ts \<noteq> [] \<Longrightarrow> cards_in ts = cards_in (butlast ts) + mset (map pcCard (tCards (last ts)))"
  by (metis append_butlast_last_id cards_in_simps add_0_right)

text \<open>The lead suit is a suit, and nobody calls the joker in the first trick.\<close>

lemma lay_card_lead:
  assumes "pmCard m \<in> set (NewDeckFor n)" "tCards t = [] \<Longrightarrow> check_lead g p m = None"
  shows "tCards t \<noteq> [] \<longrightarrow> suitRank (LeadSuit t) \<noteq> None \<Longrightarrow> suitRank (LeadSuit (lay_card k t p m)) \<noteq> None"
    and "\<not> JokerCalled t \<Longrightarrow> length (Tricks g) = 1 \<Longrightarrow> \<not> JokerCalled (lay_card k t p m)"
proof -
  have "suitRank (Suit (pmCard m)) \<noteq> None" if "Rank (pmCard m) \<noteq> Joker"
    using assms(1) that by (fastforce simp: in_deck)
  then show "suitRank (LeadSuit (lay_card k t p m)) \<noteq> None" if "tCards t \<noteq> [] \<longrightarrow> suitRank (LeadSuit t) \<noteq> None"
    using assms(2) that by (cases "tCards t = []") (auto simp: lay_card_def Let_def check_lead_def split: if_splits)
  show "\<not> JokerCalled (lay_card k t p m)" if "\<not> JokerCalled t" "length (Tricks g) = 1"
    using assms(2) that by (cases "tCards t = []") (auto simp: lay_card_def Let_def check_lead_def split: if_splits)
qed

lemma after_card_inv:
  assumes inv: "playing_inv h g" and p: "player_at g (CurrentTurn g) = Inr p"
    and c: "pmCard m \<in> set (Hand p)" "check_forced g p (last (Tricks g)) (pmCard m) = None"
    and v: "if tCards (last (Tricks g)) = [] then check_lead g p m = None
            else check_follow g p (last (Tricks g)) m = None"
  shows "playing_core h (after_card g (CurrentTurn g) p m)"
    and "size (all_hands (after_card g (CurrentTurn g) p m)) < size (all_hands g)"
proof -
  let ?u = "CurrentTurn g" and ?t = "last (Tricks g)" and ?n = "numSeats g"
  let ?p = "p\<lparr>Hand := filter (\<lambda>h. h \<noteq> pmCard m) (Hand p)\<rparr>"
  let ?g1 = "set_player g ?u ?p" and ?k = "after_card g ?u p m"
  let ?t' = "lay_card ?g1 ?t p m"
  obtain q D0 where q: "player_at g ?u = Inr q" "0 \<le> ?u" "?u < ?n" "distinct (Hand q)"
    "set (Hand q) \<subseteq> set (NewDeckFor ?n)" "special_ok g (Hand q)"
    "\<not> has_played ?t ?u" by (rule playing_turn [OF inv])
  have pq: "p = q" using p q(1) by simp
  note q = q [folded pq]
  have core: "playing_core h g" and less: "int (length (tCards ?t)) < ?n"
    using inv by (auto simp: playing_inv_def)
  have T: "Tricks g \<noteq> []" and tab: "table_ok g" and tt: "trick_turn g ?t"
    and ls: "tCards ?t \<noteq> [] \<longrightarrow> suitRank (LeadSuit ?t) \<noteq> None"
    and jc: "tCards ?t = [] \<or> length (Tricks g) = 1 \<longrightarrow> \<not> JokerCalled ?t"
    using core by (auto simp: playing_core_def tricks_ok_def)
  have seat: "Seat p = ?u" by (rule seats_Seat [OF table_seats [OF tab] p])
  have eq [simp]: "Players ?k = Players ?g1" "Config ?k = Config g" "Status ?k = Status g"
    "Dealer ?k = Dealer g" "Contract ?k = Contract g" "Declarer ?k = Declarer g" "Trump ?k = Trump g"
    "Bids ?k = Bids g" "Kitty ?k = Kitty g" "Tricks ?k = butlast (Tricks g) @ [?t']"
    "CurrentTurn ?k = (?u + 1) mod ?n"
    using q(2,3) by (simp_all add: after_card_def Let_def)
  have n [simp]: "numSeats ?k = ?n" by (rule numSeats_cong) simp
  have hand: "hand_of ?k i = (if i = ?u then Hand ?p else hand_of g i)" for i
    by (simp add: hand_of_cong [of ?k ?g1] hand_of_set_player [OF p])
  have tab': "table_ok ?k"
    using table_ok_set_player [OF tab p, of ?p] table_ok_cong [of ?k ?g1] by simp
  have con: "contract_ok ?k"
    using core contract_ok_cong [of ?k g] by (simp add: playing_core_def)
  have spec: "special_ok ?k (hand_of ?k i)" if "0 \<le> i" "i < ?n" for i
    using special_ok_after [OF q(6,4) deck_one_joker [OF q(5)] c] core that
    by (auto simp: special_ok_cong [of ?k g] hand playing_core_def)
  have turn: "trick_turn ?k ?t'"
    by (rule trick_turn_next [OF tt less]) (simp_all add: seat)
  have pd: "pmCard m \<in> set (NewDeckFor ?n)" using c(1) q(5) by blast
  have cl: "tCards ?t = [] \<Longrightarrow> check_lead g p m = None" using v by simp
  have lead: "suitRank (LeadSuit ?t') \<noteq> None" by (rule lay_card_lead(1) [OF pd cl ls])
  have call: "length (Tricks g) = 1 \<longrightarrow> \<not> JokerCalled ?t'" using lay_card_lead(2) [OF pd cl] jc by blast
  have len1: "length (Tricks ?k) = length (Tricks g)" using T by (cases "Tricks g") simp_all
  have tok: "tricks_ok ?k"
    using core turn lead call len1 T by (simp add: tricks_ok_def playing_core_def)
  obtain D where D: "discard_ok h D" "all_hands g + cards_in (Tricks g) + D = deck_of g"
    "all_points g = points_in (cards_in (butlast (Tricks g))) + points_in D"
    "\<forall>i. 0 \<le> i \<and> i < ?n \<longrightarrow> length (hand_of g i) + length (Tricks g) + (if has_played ?t i then 1 else 0)
        + (if i = Declarer g then size D else 3) = 14"
    using core by (auto simp: playing_core_def)
  have ah: "all_hands ?g1 + mset (Hand p) = all_hands g + mset (Hand ?p)"
    by (rule all_hands_set_player [OF p q(2,3)])
  have hp1: "mset (Hand p) = add_mset (pmCard m) (mset (Hand ?p))"
    using mset_filter_neq [OF q(4) c(1)] by simp
  have "all_hands ?k = all_hands ?g1" by (rule all_hands_cong) simp_all
  then have moved: "add_mset (pmCard m) (all_hands ?k) = all_hands g"
    using mset_take [OF ah [unfolded hp1]] by (simp only:)
  then have cards: "all_hands ?k + cards_in (Tricks ?k) + D = deck_of ?k"
  proof -
    have eqk: "cards_in (Tricks ?k) = cards_in (butlast (Tricks g)) + add_mset (pmCard m) (mset (map pcCard (tCards ?t)))"
      unfolding eq cards_in_simps lay_card_cards by simp
    show ?thesis
      unfolding eqk n by (rule mset_move [OF moved D(2) [unfolded cards_in_butlast [OF T]]])
  qed
  have "all_points ?k = all_points g"
    using all_points_cong [of ?k ?g1] all_points_set_player [OF p q(2), of ?p]
      q(3) seats_range [OF table_seats [OF tab]] by auto
  then have pts: "all_points ?k = points_in (cards_in (butlast (Tricks ?k))) + points_in D"
    using D(3) by simp
  have hp: "has_played ?t' i \<longleftrightarrow> has_played ?t i \<or> i = ?u" for i
    by (auto simp: has_played_def seat)
  have "Suc (length (Hand ?p)) = length (Hand p)" using filter_neq_length [OF q(4) c(1)] by simp
  then have lens: "\<forall>i. 0 \<le> i \<and> i < ?n \<longrightarrow> length (hand_of ?k i) + length (Tricks ?k)
      + (if has_played (last (Tricks ?k)) i then 1 else 0) + (if i = Declarer ?k then size D else 3) = 14"
    using D(4) q(7) hand_of_player [OF p] len1 by (auto simp: hand hp)
  show "size (all_hands ?k) < size (all_hands g)" unfolding moved [symmetric] by simp
  show "playing_core h ?k"
    using core tab' con tok spec D(1) cards pts lens
    by (auto simp: playing_core_def intro!: exI [of _ D])
qed

section \<open>Taking the trick\<close>

definition reveal :: "Game \<Rightarrow> int \<Rightarrow> Game" where
  "reveal g w =
     (let g1 = g\<lparr>Tricks := butlast (Tricks g) @ [(last (Tricks g))\<lparr>Winner := w\<rparr>]\<rparr>;
          fs = friendSeat g1
      in if PartnerSeat g1 < 0 \<and> fs \<ge> 0 \<and> w = fs \<and> trickRevealsFriend (last (Tricks g1)) fs
         then g1\<lparr>PartnerSeat := fs\<rparr> else g1)"

definition take_trick :: "Game \<Rightarrow> int \<Rightarrow> Card list \<Rightarrow> Player \<Rightarrow> Game" where
  "take_trick g w pts q = (set_player (reveal g w) w (q\<lparr>Points := Points q @ pts\<rparr>))\<lparr>CurrentTurn := w\<rparr>"

lemma reveal_fields [simp]:
  "Players (reveal g w) = Players g" "Config (reveal g w) = Config g" "Status (reveal g w) = Status g"
  "Dealer (reveal g w) = Dealer g" "Contract (reveal g w) = Contract g" "Declarer (reveal g w) = Declarer g"
  "Trump (reveal g w) = Trump g" "Bids (reveal g w) = Bids g" "Kitty (reveal g w) = Kitty g"
  "PlayAgainVotes (reveal g w) = PlayAgainVotes g" "Version (reveal g w) = Version g"
  "gID (reveal g w) = gID g" "CreatedAt (reveal g w) = CreatedAt g" "IsNoFriend (reveal g w) = IsNoFriend g"
  "PartnerCard (reveal g w) = PartnerCard g" "ScoreHistory (reveal g w) = ScoreHistory g"
  "TotalScores (reveal g w) = TotalScores g"
  "Tricks (reveal g w) = butlast (Tricks g) @ [(last (Tricks g))\<lparr>Winner := w\<rparr>]"
  by (simp_all add: reveal_def Let_def)

lemma player_at_reveal [simp]: "player_at (reveal g w) i = player_at g i"
  by (rule player_at_cong) simp

lemma finish_trick_eq:
  assumes "ResolveTrick g (last (Tricks g)) = Inr (w, pts)" "player_at g w = Inr q"
  shows "finish_trick g = Inr (let k = take_trick g w pts q
    in if length (Tricks k) = 10 then finish_round k else k\<lparr>Tricks := Tricks k @ [newTrick]\<rparr>)"
proof -
  have "player_at (reveal g w) w = Inr q" using assms(2) by simp
  with assms(1) show ?thesis
    by (simp add: finish_trick_def take_trick_def reveal_def Let_def)
qed

lemma full_trick_seats:
  assumes "trick_turn g t" "int (length (tCards t)) = numSeats g"
  shows "pcSeat ` set (tCards t) = {0..<numSeats g}"
proof -
  obtain lead where l: "0 \<le> lead" "lead < numSeats g"
    "map pcSeat (tCards t) = take (length (tCards t)) (seats_from (numSeats g) lead)"
    using assms(1) by (auto simp: trick_turn_def)
  have "length (seats_from (numSeats g) lead) = length (tCards t)"
    using assms(2) by (simp add: seats_from_def)
  then have "map pcSeat (tCards t) = seats_from (numSeats g) lead" using l(3) by simp
  then show ?thesis using seats_from_set(1) [OF l(1,2)] by (metis image_set)
qed

lemma taken_trick:
  assumes core: "playing_core h g" and full: "int (length (tCards (last (Tricks g)))) = numSeats g"
  obtains w pts q k where "ResolveTrick g (last (Tricks g)) = Inr (w, pts)" "player_at g w = Inr q"
    "0 \<le> w" "w < numSeats g" "k = take_trick g w pts q"
    "seats_ok k" "table_ok k" "contract_ok k" "numSeats k = numSeats g" "\<And>i. hand_of k i = hand_of g i"
    "all_hands k = all_hands g"
    "all_points k = all_points g + points_in (mset (map pcCard (tCards (last (Tricks g)))))"
    "Tricks k = butlast (Tricks g) @ [(last (Tricks g))\<lparr>Winner := w\<rparr>]" "CurrentTurn k = w"
    "Status k = PhasePlaying" "Dealer k = Dealer g" "Kitty k = []" "Declarer k = Declarer g"
    "Trump k = Trump g" "frame g k" "books k = books g"
proof -
  let ?t = "last (Tricks g)"
  have tab: "table_ok g" and tr: "trick_turn g ?t" and T: "Tricks g \<noteq> []"
    using core by (auto simp: playing_core_def tricks_ok_def)
  have n: "numSeats g = 4 \<or> numSeats g = 5" by (rule seats_range [OF table_seats [OF tab]])
  have "tCards ?t \<noteq> []" using full n by auto
  then obtain i where i: "i < length (tCards ?t)"
    "ResolveTrick g ?t = Inr (pcSeat (tCards ?t ! i), filter IsPointCard (map pcCard (tCards ?t)))"
    using ResolveTrick_spec by blast
  let ?w = "pcSeat (tCards ?t ! i)" and ?pts = "filter IsPointCard (map pcCard (tCards ?t))"
  have "?w \<in> pcSeat ` set (tCards ?t)" using i(1) by simp
  then have w: "0 \<le> ?w" "?w < numSeats g" using full_trick_seats [OF tr full] by auto
  obtain q where q: "player_at g ?w = Inr q" by (rule table_filled [OF tab w])
  let ?q = "q\<lparr>Points := Points q @ ?pts\<rparr>" and ?r = "reveal g ?w"
  let ?s = "set_player ?r ?w ?q" and ?k = "take_trick g ?w ?pts q"
  have qr: "player_at ?r ?w = Inr q" using q by simp
  have k: "?k = ?s\<lparr>CurrentTurn := ?w\<rparr>" by (simp add: take_trick_def)
  have nr: "numSeats ?r = numSeats g" by (rule numSeats_cong) simp
  have tabr: "table_ok ?r" using tab table_ok_cong [of ?r g] by simp
  have tabk: "table_ok ?k"
    using table_ok_set_player [OF tabr qr, of ?q] table_ok_cong [of ?k ?s] by (simp add: k)
  have hand: "hand_of ?k j = hand_of g j" for j
    by (simp add: k hand_of_cong [of "?s\<lparr>CurrentTurn := ?w\<rparr>" ?s] hand_of_set_player [OF qr]
        hand_of_cong [of ?r g] hand_of_player [OF q])
  have all: "all_hands ?k = all_hands g"
    by (simp add: all_hands_def hand) (simp add: k numSeats_def)
  have "all_points ?s + mset (Points q) = all_points ?r + mset (Points ?q)"
    by (rule all_points_set_player [OF qr w(1)]) (use w n in auto)
  then have pts: "all_points ?k = all_points g + points_in (mset (map pcCard (tCards ?t)))"
    by (simp add: k all_points_cong [of "?s\<lparr>CurrentTurn := ?w\<rparr>" ?s] all_points_cong [of ?r g])
  have con: "contract_ok ?k" using core contract_ok_cong [of ?k g] by (simp add: k playing_core_def)
  have "frame ?r ?s" by (rule frame_set_player [OF qr]) simp_all
  then have fr: "frame g ?k" by (simp add: k frame_def roster_def)
  show thesis
    by (rule that [of ?w ?pts q ?k, OF i(2) q w refl table_seats [OF tabk] tabk con _ hand all pts _ _ _ _ _ _ _ fr])
       (use core in \<open>simp_all add: k numSeats_def playing_core_def books_def\<close>)
qed

section \<open>The end of a trick\<close>

lemma finish_trick_next:
  assumes core: "playing_core h g" and full: "int (length (tCards (last (Tricks g)))) = numSeats g"
    and more: "length (Tricks g) \<noteq> 10"
  obtains g' where "finish_trick g = Inr g'" "playing_inv h g'" "frame g g'" "books g' = books g"
    "\<And>i. hand_of g' i = hand_of g i"
proof -
  obtain w pts q k where r: "ResolveTrick g (last (Tricks g)) = Inr (w, pts)" "player_at g w = Inr q"
    "0 \<le> w" "w < numSeats g" "k = take_trick g w pts q"
    and k: "seats_ok k" "table_ok k" "contract_ok k" "numSeats k = numSeats g" "\<And>i. hand_of k i = hand_of g i"
    "all_hands k = all_hands g"
    "all_points k = all_points g + points_in (mset (map pcCard (tCards (last (Tricks g)))))"
    "Tricks k = butlast (Tricks g) @ [(last (Tricks g))\<lparr>Winner := w\<rparr>]" "CurrentTurn k = w"
    "Status k = PhasePlaying" "Dealer k = Dealer g" "Kitty k = []" "Declarer k = Declarer g"
    "Trump k = Trump g" "frame g k" "books k = books g"
    by (rule taken_trick [OF core full]) blast
  let ?t = "last (Tricks g)" and ?g = "k\<lparr>Tricks := Tricks k @ [newTrick]\<rparr>"
  have T: "Tricks g \<noteq> []" "length (Tricks g) \<le> 10" and tr: "trick_turn g ?t"
    and bl: "\<forall>t \<in> set (butlast (Tricks g)).
      int (length (tCards t)) = numSeats g \<and> pcSeat ` set (tCards t) = {0..<numSeats g}"
    using core by (auto simp: playing_core_def tricks_ok_def)
  have len: "length (Tricks k) = length (Tricks g)" using T(1) k(8) by (cases "Tricks g") simp_all
  have run: "finish_trick g = Inr ?g"
    using finish_trick_eq [OF r(1,2)] more len r(5) by (simp add: Let_def)
  have pos: "0 < numSeats g" using r(3,4) by simp
  have n: "numSeats ?g = numSeats g" using k(4) numSeats_cong [of ?g k] by simp
  have hand: "hand_of ?g i = hand_of g i" for i using k(5) hand_of_cong [of ?g k] by simp
  have tt: "trick_turn ?g newTrick"
    using r(3,4) k(9) n by (auto simp: trick_turn_def newTrick_def intro!: exI [of _ w])
  have tok: "tricks_ok ?g"
  proof -
    have "\<forall>t \<in> set (Tricks k).
        int (length (tCards t)) = numSeats g \<and> pcSeat ` set (tCards t) = {0..<numSeats g}"
      using bl full full_trick_seats [OF tr full] k(8) by auto
    moreover have "tCards newTrick = []" "\<not> JokerCalled newTrick" by (simp_all add: newTrick_def)
    ultimately show ?thesis using tt n more T len by (simp add: tricks_ok_def)
  qed
  have played: "has_played ?t i" if "0 \<le> i" "i < numSeats g" for i
    using full_trick_seats [OF tr full] that by (simp add: has_played_def)
  obtain D where D: "discard_ok h D" "all_hands g + cards_in (Tricks g) + D = deck_of g"
    "all_points g = points_in (cards_in (butlast (Tricks g))) + points_in D"
    "\<forall>i. 0 \<le> i \<and> i < numSeats g \<longrightarrow> length (hand_of g i) + length (Tricks g)
      + (if has_played ?t i then 1 else 0) + (if i = Declarer g then size D else 3) = 14"
    using core by (auto simp: playing_core_def)
  have bt: "butlast (Tricks ?g) = Tricks k" "last (Tricks ?g) = newTrick" by simp_all
  have ci: "cards_in (Tricks ?g) = cards_in (Tricks g)" "cards_in (Tricks k) = cards_in (Tricks g)"
    by (simp_all add: k(8) newTrick_def cards_in_butlast [OF T(1)])
  have pts: "all_points ?g = points_in (cards_in (butlast (Tricks ?g))) + points_in D"
    unfolding bt ci cards_in_butlast [OF T(1)] using k(7) D(3) all_points_cong [of ?g k] by simp
  have cards: "all_hands ?g + cards_in (Tricks ?g) + D = deck_of ?g"
    unfolding ci n using D(2) k(6) all_hands_cong [of ?g k] by simp
  have "\<not> has_played newTrick i" for i by (simp add: has_played_def newTrick_def)
  then have lens: "\<forall>i. 0 \<le> i \<and> i < numSeats ?g \<longrightarrow> length (hand_of ?g i) + length (Tricks ?g)
      + (if has_played (last (Tricks ?g)) i then 1 else 0) + (if i = Declarer ?g then size D else 3) = 14"
    using D(4) played hand n len k(13) by simp
  have "table_ok ?g" "contract_ok ?g"
    using k(2,3) table_ok_cong [of ?g k] contract_ok_cong [of ?g k] by simp_all
  moreover have "special_ok ?g (hand_of ?g i)" if "0 \<le> i" "i < numSeats g" for i
    using core that hand k(14) special_ok_cong [of ?g g] by (simp add: playing_core_def)
  ultimately have "playing_core h ?g"
    using core tok D(1) cards pts lens n k(10,11,12)
    by (auto simp: playing_core_def intro!: exI [of _ D])
  then have inv: "playing_inv h ?g" using pos n by (simp add: playing_inv_def newTrick_def)
  have "frame g ?g" using k(15) by (simp add: frame_def roster_def)
  moreover have "books ?g = books g" using k(16) by (simp add: books_def)
  ultimately show thesis using that [OF run inv] hand by blast
qed


section \<open>The end of the round\<close>

text \<open>The friend is someone at the table: the holder of the called card, or who played it.\<close>

definition friend_seated :: "Game \<Rightarrow> bool" where
  "friend_seated g \<longleftrightarrow> (0 \<le> friendSeat g \<longrightarrow> filled g (friendSeat g))"

lemma hand_holder_seat: "hand_holder pc ps = Some s \<Longrightarrow> \<exists>p. Some p \<in> set ps \<and> s = Seat p"
  by (induction pc ps rule: hand_holder.induct) (auto split: if_splits)

lemma played_by_seat: "played_by pc cs = Some s \<Longrightarrow> \<exists>c \<in> set cs. s = pcSeat c"
  by (induction cs) (auto split: if_splits)

lemma friend_seatedI:
  assumes tab: "table_ok g" and tr: "\<forall>t \<in> set (Tricks g). pcSeat ` set (tCards t) \<subseteq> {0..<numSeats g}"
  shows "friend_seated g"
  unfolding friend_seated_def
proof
  assume "0 \<le> friendSeat g"
  then consider (holder) pc where "hand_holder pc (Players g) = Some (friendSeat g)"
    | (player) pc where "played_by pc (concat (map tCards (Tricks g))) = Some (friendSeat g)"
    by (auto simp: friendSeat_def split: if_splits option.splits)
  then show "filled g (friendSeat g)"
  proof cases
    case holder
    then obtain p where p: "Some p \<in> set (Players g)" "friendSeat g = Seat p" using hand_holder_seat by blast
    then obtain i where "i < length (Players g)" "Players g ! i = Some p" by (metis in_set_conv_nth)
    then have at: "player_at g (int i) = Inr p" by (simp add: player_at_def)
    then have "Seat p = int i" by (rule seats_Seat [OF table_seats [OF tab]])
    then show ?thesis using at p(2) by (auto simp: filled_def)
  next
    case player
    then obtain t c where "t \<in> set (Tricks g)" "c \<in> set (tCards t)" "friendSeat g = pcSeat c"
      using played_by_seat by fastforce
    then have "friendSeat g \<in> {0..<numSeats g}" using tr by blast
    then show ?thesis using tab by (simp add: table_ok_def)
  qed
qed

lemma finish_round_fields [simp]:
  "Players (finish_round g) = Players g" "Config (finish_round g) = Config g"
  "Status (finish_round g) = PhaseFinished" "Dealer (finish_round g) = Dealer g"
  "Tricks (finish_round g) = Tricks g" "PlayAgainVotes (finish_round g) = PlayAgainVotes g"
  "Version (finish_round g) = Version g" "gID (finish_round g) = gID g"
  "Kitty (finish_round g) = Kitty g"
  "CreatedAt (finish_round g) = CreatedAt g"
  by (simp_all add: finish_round_def Let_def)

lemma finish_trick_last:
  assumes core: "playing_core h g" and full: "int (length (tCards (last (Tricks g)))) = numSeats g"
    and last: "length (Tricks g) = 10" and votes: "PlayAgainVotes g = []" and sp: "h \<longrightarrow> spare g"
  obtains k where "finish_trick g = Inr (finish_round k)" "finished_inv h (finish_round k)"
    "frame g (finish_round k)" "books k = books g" "table_ok k" "contract_ok k" "friend_seated k"
    "h \<longrightarrow> size (all_points k) = 20" "size (all_points k) \<le> 20"
proof -
  obtain w pts q k where r: "ResolveTrick g (last (Tricks g)) = Inr (w, pts)" "player_at g w = Inr q"
    "0 \<le> w" "w < numSeats g" "k = take_trick g w pts q"
    and k: "seats_ok k" "table_ok k" "contract_ok k" "numSeats k = numSeats g" "\<And>i. hand_of k i = hand_of g i"
    "all_hands k = all_hands g"
    "all_points k = all_points g + points_in (mset (map pcCard (tCards (last (Tricks g)))))"
    "Tricks k = butlast (Tricks g) @ [(last (Tricks g))\<lparr>Winner := w\<rparr>]" "CurrentTurn k = w"
    "Status k = PhasePlaying" "Dealer k = Dealer g" "Kitty k = []" "Declarer k = Declarer g"
    "Trump k = Trump g" "frame g k" "books k = books g"
    by (rule taken_trick [OF core full]) blast
  let ?t = "List.last (Tricks g)" and ?g = "finish_round k"
  have T: "Tricks g \<noteq> []" and tr: "trick_turn g ?t"
    using core by (auto simp: playing_core_def tricks_ok_def)
  have len: "length (Tricks k) = 10" by (simp add: k(8) last)
  have run: "finish_trick g = Inr ?g"
    using finish_trick_eq [OF r(1,2)] len r(5) by (simp add: Let_def)
  obtain D where D: "discard_ok h D" "all_hands g + cards_in (Tricks g) + D = deck_of g"
    "all_points g = points_in (cards_in (butlast (Tricks g))) + points_in D"
    "\<forall>i. 0 \<le> i \<and> i < numSeats g \<longrightarrow> length (hand_of g i) + length (Tricks g)
      + (if has_played ?t i then 1 else 0) + (if i = Declarer g then size D else 3) = 14"
    using core by (auto simp: playing_core_def)
  have empty: "hand_of g i = []" if h for i
  proof (cases "0 \<le> i \<and> i < numSeats g")
    case True
    then have "has_played ?t i" using full_trick_seats [OF tr full] by (simp add: has_played_def)
    moreover have "size D = 3" using D(1) \<open>h\<close> by (simp add: discard_ok_def)
    ultimately show ?thesis using D(4) [rule_format, of i] True last by (simp split: if_splits)
  next
    case False
    have "hand_of g i = []" if "i < 0" using that by (simp add: hand_of_def player_at_def)
    with False sp \<open>h\<close> show ?thesis by (cases "i < 0") (simp_all add: spare_def)
  qed
  have ap: "all_points k = points_in (cards_in (Tricks g) + D)"
    unfolding k(7) D(3) cards_in_butlast [OF T] by simp
  have "all_hands g = {#}" if h using empty [OF that] by (simp add: all_hands_def)
  then have "cards_in (Tricks g) + D = deck_of g" if h using D(2) that by simp
  then have "all_points k = mset (filter IsPointCard (NewDeckFor (numSeats g)))" if h
    using ap that by simp
  then have "size (all_points k) = 20" if h using that by (simp only: size_mset deck_facts(3))
  then have twenty: "h \<longrightarrow> size (all_points k) = 20" by blast
  have "numSeats g = 4 \<or> numSeats g = 5" using core table_seats seats_range by (auto simp: playing_core_def)
  moreover have "size D = 3" if h using D(1) that by (simp add: discard_ok_def)
  moreover have same: "cards_in (Tricks k) = cards_in (Tricks g)"
    unfolding k(8) cards_in_butlast [OF T] by (simp add: cards_in_def)
  ultimately have deck: "h \<longrightarrow> (\<exists>n D. (n = 4 \<or> n = 5) \<and> size D = 3 \<and> cards_in (Tricks k) + D = mset (NewDeckFor n) \<and>
      all_points k = points_in (cards_in (Tricks k) + D))"
    using \<open>h \<Longrightarrow> cards_in (Tricks g) + D = deck_of g\<close> ap by metis
  have "points_in (cards_in (Tricks g) + D) \<subseteq># points_in (deck_of g)"
    using D(2) by (intro multiset_filter_mono) (metis add.assoc mset_subset_eq_add_right)
  then have "size (all_points k) \<le> size (points_in (deck_of g))" unfolding ap by (rule size_mset_mono)
  also have "\<dots> = 20" unfolding mset_filter [symmetric] size_mset by (rule deck_facts(3))
  finally have most: "size (all_points k) \<le> 20" .
  have "filled k i" if "0 \<le> i" "i < 4" for i
    using k(2) that seats_range [OF k(1)] by (auto simp: table_ok_def)
  then have "finished_inv h ?g"
    using k(1,11,12,15) core len deck empty k(5) votes
      seats_ok_cong [of ?g k] filled_cong [of ?g k] hand_of_cong [of ?g k] all_points_cong [of ?g k]
    by (auto simp: finished_inv_def playing_core_def frame_def)
  moreover have "frame g ?g" using k(15) by (simp add: frame_def roster_def)
  moreover have "friend_seated k"
  proof (rule friend_seatedI [OF k(2)], intro ballI)
    fix t assume "t \<in> set (Tricks k)"
    then consider "t \<in> set (butlast (Tricks g))" | "t = ?t\<lparr>Winner := w\<rparr>" by (auto simp: k(8))
    then show "pcSeat ` set (tCards t) \<subseteq> {0..<numSeats k}"
      using core full_trick_seats [OF tr full] by cases (auto simp: playing_core_def tricks_ok_def k(4))
  qed
  ultimately show thesis using that [OF run] k(2,3,16) twenty most by blast
qed

section \<open>One accepted card\<close>

lemma frame_after_card:
  assumes "player_at g i = Inr p"
  shows "frame g (after_card g i p m)" "books (after_card g i p m) = books g"
    "spare g \<Longrightarrow> i < numSeats g \<Longrightarrow> spare (after_card g i p m)"
proof -
  let ?s = "set_player g i (p\<lparr>Hand := filter (\<lambda>h. h \<noteq> pmCard m) (Hand p)\<rparr>)"
  have "frame g ?s" by (rule frame_set_player [OF assms]) simp_all
  then show "frame g (after_card g i p m)" by (simp add: after_card_def Let_def frame_def roster_def)
  show "books (after_card g i p m) = books g" by (simp add: after_card_def Let_def books_def)
  assume "spare g" "i < numSeats g"
  then have "spare ?s" by (auto simp: spare_def hand_of_set_player [OF assms])
  then show "spare (after_card g i p m)"
    using spare_cong [of "after_card g i p m" ?s] by (simp add: after_card_def Let_def)
qed

lemma spare_frame:
  assumes "spare g" "numSeats g' = numSeats g" "\<And>i. numSeats g \<le> i \<Longrightarrow> hand_of g' i = hand_of g i"
  shows "spare g'"
  using assms by (simp add: spare_def)

lemma apply_play_card_ok:
  assumes inv: "playing_inv h g" and p: "player_at g (CurrentTurn g) = Inr p"
    and c: "pmCard m \<in> set (Hand p)" "check_forced g p (last (Tricks g)) (pmCard m) = None"
    and v: "if tCards (last (Tricks g)) = [] then check_lead g p m = None
            else check_follow g p (last (Tricks g)) m = None"
    and votes: "PlayAgainVotes g = []" and sp: "h \<longrightarrow> spare g"
  obtains (further) g' where "apply_play_card g (CurrentTurn g) p m = Inr g'" "frame g g'"
      "books g' = books g" "playing_inv h g'" "h \<longrightarrow> spare g'" "size (all_hands g') < size (all_hands g)"
  | (finished) k where "apply_play_card g (CurrentTurn g) p m = Inr (finish_round k)"
      "frame g (finish_round k)" "books k = books g" "finished_inv h (finish_round k)"
      "h \<longrightarrow> spare (finish_round k)" "table_ok k" "contract_ok k" "friend_seated k" "size (all_points k) \<le> 20"
proof -
  let ?k = "after_card g (CurrentTurn g) p m"
  have core: "playing_core h ?k" and small: "size (all_hands ?k) < size (all_hands g)"
    by (rule after_card_inv [OF inv p c v])+
  have T: "Tricks g \<noteq> []" using inv by (auto simp: playing_inv_def playing_core_def tricks_ok_def)
  have u: "CurrentTurn g < numSeats g" using playing_turn [OF inv] by metis
  note fk = frame_after_card [OF p, of m]
  have spk: "h \<longrightarrow> spare ?k" using sp u fk(3) by blast
  have nk: "numSeats ?k = numSeats g" using fk(1) by (simp add: frame_def numSeats_def)
  have le: "int (length (tCards (last (Tricks ?k)))) \<le> numSeats ?k"
    using core by (auto simp: playing_core_def tricks_ok_def trick_turn_def)
  show thesis
  proof (cases "int (length (tCards (last (Tricks ?k)))) = numSeats ?k")
    case False
    then have "apply_play_card g (CurrentTurn g) p m = Inr ?k" by (simp add: apply_play_card_eq [OF T] Let_def)
    moreover have "playing_inv h ?k" using core False le by (simp add: playing_inv_def)
    ultimately show thesis using further fk(1,2) spk small by blast
  next
    case full: True
    then have eq: "apply_play_card g (CurrentTurn g) p m = finish_trick ?k"
      by (simp add: apply_play_card_eq [OF T] Let_def)
    show thesis
    proof (cases "length (Tricks ?k) = 10")
      case True
      have vk: "PlayAgainVotes ?k = []" using votes fk(1) by (simp add: frame_def)
      obtain k where k: "finish_trick ?k = Inr (finish_round k)" "finished_inv h (finish_round k)"
        "frame ?k (finish_round k)" "books k = books ?k" "table_ok k" "contract_ok k" "friend_seated k"
        "size (all_points k) \<le> 20"
        by (rule finish_trick_last [OF core full True vk spk])
      have "h \<longrightarrow> spare (finish_round k)" using k(2) by (auto simp: finished_inv_def spare_def)
      then show thesis using finished [of k] eq k fk(1,2) frame_trans by metis
    next
      case False
      obtain g' where g': "finish_trick ?k = Inr g'" "playing_inv h g'" "frame ?k g'"
        "books g' = books ?k" "\<And>i. hand_of g' i = hand_of ?k i"
        by (rule finish_trick_next [OF core full False]) blast
      have "numSeats g' = numSeats ?k" using g'(3) by (simp add: frame_def numSeats_def)
      then have "h \<longrightarrow> spare g'" using spk g'(5) by (auto simp: spare_def)
      moreover have "all_hands g' = all_hands ?k"
        by (simp add: all_hands_def g'(5) \<open>numSeats g' = numSeats ?k\<close>)
      ultimately show thesis using further [of g'] eq g'(1-4) fk(1,2) frame_trans small by metis
    qed
  qed
qed

end
