(* ===== verification/Room.thy ===== *)
theory Room
  imports Play
begin

text \<open>
  The whole life of a table: votes and reconfiguration between rounds, one theorem for all moves
  together, and the reachable states as an inductive step relation.
\<close>

section \<open>Between rounds\<close>

lemma Start_spare:
  assumes "seats_ok g" "spare g"
  shows "spare (Start e g)"
proof -
  obtain hs kitty where hs: "length hs = nat (numSeats g)" "Players (Start e g) = hand_out (Players g) hs"
    using Start_deal [OF assms(1), of e] by metis
  have "player_at (Start e g) i = player_at g i" if "numSeats g \<le> i" for i
    using player_at_Start [OF assms(1) hs(2,1), of i] that by (auto split: sum.splits)
  then show ?thesis using assms(2) by (simp add: spare_def hand_of_def)
qed

lemma clear_points_player:
  assumes "Players g' = clear_points (Players g)"
  shows "player_at g' i = (case player_at g i of Inl x \<Rightarrow> Inl x | Inr p \<Rightarrow> Inr (p\<lparr>Points := []\<rparr>))"
proof (cases "0 \<le> i \<and> i < int (length (Players g))")
  case True
  then have "nat i < length (Players g)" by (simp add: nat_less_iff)
  with True assms show ?thesis by (simp add: player_at_def clear_points_def split: option.splits)
next
  case False
  with assms show ?thesis by (auto simp: player_at_def clear_points_def)
qed

lemma roster_clear: "Players g' = clear_points (Players g) \<Longrightarrow> roster g' = roster g"
  by (simp add: roster_def clear_points_def option.map_comp o_def cong: map_option_cong)

lemma reset_ok:
  fixes e :: Env
  assumes s: "seats_ok g" and full: "\<forall>i. 0 \<le> i \<and> i < numSeats g \<longrightarrow> filled g i" and d: "0 \<le> Dealer g"
  defines "g' \<equiv> resetForNextRound e g"
  shows "bidding_inv g'" "PlayAgainVotes g' = []" "roster g' = roster g" "Config g' = Config g"
    "Version g' = Version g" "books g' = books g" "CurrentBid g' = None"
    "Dealer g' = (Dealer g + 1) mod numSeats g" "CurrentTurn g' = Dealer g'"
    "the_ring g' = seats_from (numSeats g) (Dealer g')" "spare g \<Longrightarrow> spare g'"
    "gID g' = gID g" "CreatedAt g' = CreatedAt g"
proof -
  let ?k = "g\<lparr>PlayAgainVotes := [], Tricks := [], Bids := [], CurrentBid := None,
    Contract := None, Declarer := -1, PartnerCard := None, PartnerSeat := -1,
    PassedPlayers := [], Scores := [], IsNoFriend := False,
    Dealer := go_rem (Dealer g + 1) (NumPlayers (Config g)), Players := clear_points (Players g)\<rparr>"
  have g': "g' = (Start e ?k)\<lparr>CurrentTurn := Dealer (Start e ?k)\<rparr>"
    by (simp add: g'_def resetForNextRound_def Let_def)
  have n: "numSeats ?k = numSeats g" by (simp add: numSeats_def)
  have nn: "0 < numSeats g" "numSeats g = NumPlayers (Config g)"
    using seats_range [OF s] seats_numSeats [OF s] by auto
  have dl: "Dealer ?k = (Dealer g + 1) mod numSeats g" using d nn by simp
  have pl: "player_at ?k i = (case player_at g i of Inl x \<Rightarrow> Inl x | Inr p \<Rightarrow> Inr (p\<lparr>Points := []\<rparr>))" for i
    by (rule clear_points_player) simp
  have "seats_ok ?k"
  proof -
    have at: "player_at ?k i = Inr q \<longleftrightarrow> (\<exists>p. player_at g i = Inr p \<and> q = p\<lparr>Points := []\<rparr>)" for i q
      by (auto simp: pl split: sum.splits)
    have "length (Players ?k) = length (Players g)" "Config ?k = Config g"
      by (simp_all add: clear_points_def)
    then show ?thesis using s unfolding seats_ok_def at by auto
  qed
  moreover have "filled ?k i = filled g i" for i by (auto simp: filled_def pl split: sum.splits)
  ultimately have tab: "table_ok ?k" using full n by (simp add: table_ok_def)
  have "points_of ?k i = []" for i by (simp add: points_of_def pl split: sum.splits)
  then have deal: "deal_inv (Start e ?k)"
    by (intro Start_inv [OF tab]) (use dl nn in \<open>simp_all add: no_partner_def\<close>)
  have dr: "0 \<le> Dealer ?k" "Dealer ?k < numSeats g" unfolding dl using nn by simp_all
  have n': "numSeats g' = numSeats g" using numSeats_cong [of g' g] by (simp add: g')
  have "CurrentTurn g' = Dealer ?k" by (simp add: g')
  then have "auction_ok g'"
    by (intro fresh_auction) (use dr n' in \<open>simp_all add: g'\<close>)
  moreover have "deal_inv g'" using deal deal_inv_cong [of g' "Start e ?k"] by (simp add: g')
  ultimately show "bidding_inv g'" by (simp add: bidding_inv_def g')
  show "PlayAgainVotes g' = []" "Config g' = Config g" "Version g' = Version g" "books g' = books g"
    "CurrentBid g' = None" "CurrentTurn g' = Dealer g'"
    by (simp_all add: g' books_def)
  show dg: "Dealer g' = (Dealer g + 1) mod numSeats g" using dl by (simp add: g')
  show "the_ring g' = seats_from (numSeats g) (Dealer g')" using n' by (simp add: ring_def g')
  have "roster g' = roster (Start e ?k)" by (simp add: g' roster_def)
  also have "\<dots> = roster g" using roster_Start [OF table_seats [OF tab]] roster_clear [of ?k g] by simp
  finally show "roster g' = roster g" .
  show "gID g' = gID g" "CreatedAt g' = CreatedAt g"
    by (simp_all add: g')
  assume sp: "spare g"
  have "hand_of ?k i = hand_of g i" for i by (simp add: hand_of_def pl split: sum.splits)
  then have "spare ?k" using sp n by (simp add: spare_def)
  then have sps: "spare (Start e ?k)" by (rule Start_spare [OF table_seats [OF tab]])
  have "hand_of g' i = hand_of (Start e ?k) i" for i by (rule hand_of_cong) (simp add: g')
  then have "hand_of g' i = []" if "numSeats g \<le> i" for i using sps that n by (simp add: spare_def)
  then show "spare g'" using n' by (simp add: spare_def)
qed

lemma filled_range: "seats_ok g \<Longrightarrow> filled g i \<Longrightarrow> 0 \<le> i \<and> i < 5"
  by (auto simp: filled_def seats_ok_def dest!: player_at_range)

text \<open>A vote for the next round: it counts, and the last one starts the next deal.\<close>

lemma play_again_ok:
  fixes e :: Env
  assumes inv: "finished_inv h g" and p: "player_at g i = Inr p"
  defines "g' \<equiv> apply_play_again e g p"
  shows "finished_inv h g' \<and> PlayAgainVotes g' = gm_set i True (PlayAgainVotes g) \<and>
      gm_len (PlayAgainVotes g') \<noteq> numSeats g \<and> Dealer g' = Dealer g \<or>
    bidding_inv g' \<and> PlayAgainVotes g' = [] \<and> Dealer g' = (Dealer g + 1) mod numSeats g \<and>
      CurrentTurn g' = Dealer g' \<and> CurrentBid g' = None \<and>
      gm_len (gm_set i True (PlayAgainVotes g)) = numSeats g"
    "roster g' = roster g" "Version g' = Version g" "h \<longrightarrow> spare g'" "Config g' = Config g"
    "books g' = books g" "gID g' = gID g" "CreatedAt g' = CreatedAt g"
proof -
  let ?V = "gm_set i True (PlayAgainVotes g)"
  let ?g = "g\<lparr>PlayAgainVotes := ?V\<rparr>"
  have s: "seats_ok g" using inv by (simp add: finished_inv_def)
  have seat: "Seat p = i" by (rule seats_Seat [OF s p])
  have n: "NumPlayers (Config g) = numSeats g" using seats_numSeats [OF s] by simp
  have g': "g' = (if gm_len ?V = numSeats g then resetForNextRound e ?g else ?g)"
    by (simp add: g'_def apply_play_again_def Let_def seat n)
  have flags: "gm_flags ?V" "gm_keys ?V \<subseteq> {i. filled g i}"
    using inv p by (auto simp: finished_inv_def filled_def)
  have inv1: "finished_inv h ?g"
    using inv flags seats_ok_cong [of ?g g] filled_cong [of ?g g] all_points_cong [of ?g g]
      hand_of_cong [of ?g g]
    by (simp add: finished_inv_def)
  have sp: "h \<longrightarrow> spare ?g" using inv1 by (simp add: finished_inv_def spare_def)
  have rows: "roster ?g = roster g" by (simp add: roster_def)
  show "finished_inv h g' \<and> PlayAgainVotes g' = gm_set i True (PlayAgainVotes g) \<and>
      gm_len (PlayAgainVotes g') \<noteq> numSeats g \<and> Dealer g' = Dealer g \<or>
    bidding_inv g' \<and> PlayAgainVotes g' = [] \<and> Dealer g' = (Dealer g + 1) mod numSeats g \<and>
      CurrentTurn g' = Dealer g' \<and> CurrentBid g' = None \<and>
      gm_len (gm_set i True (PlayAgainVotes g)) = numSeats g"
    "roster g' = roster g" "Version g' = Version g" "h \<longrightarrow> spare g'" "Config g' = Config g"
    "books g' = books g" "gID g' = gID g" "CreatedAt g' = CreatedAt g"
  proof -
    have full: "\<forall>j. 0 \<le> j \<and> j < numSeats ?g \<longrightarrow> filled ?g j" if all: "gm_len ?V = numSeats g"
    proof -
      have "{j. filled g j} \<subseteq> {0..<5}" using filled_range [OF s] by auto
      then have "gm_keys ?V \<subseteq> {0..<5}" using flags(2) by blast
      then have "gm_keys ?V = {0..<5}" if "numSeats g = 5"
        using gm_keys_full [OF flags(1), of "{0..<5}"] all that by simp
      then have "filled g j" if "numSeats g = 5" "0 \<le> j" "j < 5" for j
        using flags(2) that by auto
      moreover have "\<forall>j. 0 \<le> j \<and> j < 4 \<longrightarrow> filled g j" using inv by (simp add: finished_inv_def)
      ultimately have "filled g j" if "0 \<le> j" "j < numSeats g" for j
        using seats_range [OF s] that by auto
      then show ?thesis using filled_cong [of ?g g] numSeats_cong [of ?g g] by simp
    qed
    have s1: "seats_ok ?g" and d1: "0 \<le> Dealer ?g" using inv1 by (auto simp: finished_inv_def)
    have nk: "numSeats ?g = numSeats g" by (rule numSeats_cong) simp
    note r = reset_ok [OF s1 full d1, where e = e, unfolded nk]
    show "finished_inv h g' \<and> PlayAgainVotes g' = gm_set i True (PlayAgainVotes g) \<and>
      gm_len (PlayAgainVotes g') \<noteq> numSeats g \<and> Dealer g' = Dealer g \<or>
    bidding_inv g' \<and> PlayAgainVotes g' = [] \<and> Dealer g' = (Dealer g + 1) mod numSeats g \<and>
      CurrentTurn g' = Dealer g' \<and> CurrentBid g' = None \<and>
      gm_len (gm_set i True (PlayAgainVotes g)) = numSeats g"
      using r inv1 by (auto simp: g')
    show "roster g' = roster g" "Version g' = Version g" "h \<longrightarrow> spare g'" "Config g' = Config g"
      "books g' = books g" "gID g' = gID g" "CreatedAt g' = CreatedAt g"
      using r sp rows by (auto simp: g' books_def)
  qed
qed

lemma change_config_ok:
  fixes pl :: payload
  assumes inv: "finished_inv h g"
  defines "g' \<equiv> apply_change_config g pl"
  shows "finished_inv h g'" "roster g' = roster g" "Version g' = Version g" "h \<longrightarrow> spare g'"
    "books g' = books g" "gID g' = gID g" "CreatedAt g' = CreatedAt g" "Dealer g' = Dealer g"
    "PlayAgainVotes g' = PlayAgainVotes g \<or> PlayAgainVotes g' = []"
proof -
  have c: "g' = g \<or> (\<exists>n. (n = 4 \<or> n = 5) \<and>
      g' = g\<lparr>Config := (Config g)\<lparr>NumPlayers := n\<rparr>, PlayAgainVotes := []\<rparr>)"
    by (auto simp: g'_def apply_change_config_def Let_def)
  have sp: "h \<longrightarrow> spare g" using inv by (simp add: finished_inv_def spare_def)
  from c show "finished_inv h g'"
  proof
    assume "\<exists>n. (n = 4 \<or> n = 5) \<and> g' = g\<lparr>Config := (Config g)\<lparr>NumPlayers := n\<rparr>, PlayAgainVotes := []\<rparr>"
    then obtain n where n: "n = 4 \<or> n = 5"
      "g' = g\<lparr>Config := (Config g)\<lparr>NumPlayers := n\<rparr>, PlayAgainVotes := []\<rparr>" by blast
    then have ps: "Players g' = Players g" by simp
    have at: "player_at g' = player_at g" by (rule ext) (rule player_at_cong [OF ps])
    have "NumPlayers (Config g') = n" using n(2) by simp
    then have "seats_ok g'"
      using inv n(1) unfolding seats_ok_def at ps finished_inv_def by blast
    moreover have "filled g' = filled g" "hand_of g' = hand_of g" "all_points g' = all_points g"
      using filled_cong [OF ps] all_points_cong [OF ps] hand_of_cong [OF ps] by (auto simp: fun_eq_iff)
    moreover have "Status g' = Status g" "Dealer g' = Dealer g" "Tricks g' = Tricks g"
      "PlayAgainVotes g' = []" "Kitty g' = Kitty g" using n(2) by simp_all
    ultimately show ?thesis using inv by (simp only: finished_inv_def) simp
  qed (use inv in simp)
  then show "h \<longrightarrow> spare g'" by (simp add: finished_inv_def spare_def)
  show "roster g' = roster g" "Version g' = Version g" "books g' = books g" "gID g' = gID g"
    "CreatedAt g' = CreatedAt g" "Dealer g' = Dealer g"
    "PlayAgainVotes g' = PlayAgainVotes g \<or> PlayAgainVotes g' = []"
    using c by (auto simp: roster_def books_def)
qed

section \<open>Every move, in every phase\<close>

text \<open>A discard that names three different cards; every other move is careful.\<close>

definition careful :: "MoveType \<Rightarrow> payload \<Rightarrow> bool" where
  "careful mt pl \<longleftrightarrow> (mt = MoveDiscard \<longrightarrow> (\<forall>cards. pl = PCards cards \<longrightarrow> distinct cards))"

text \<open>What one accepted move does to the phase and to the record of the table.\<close>

definition phase_step :: "Phase \<Rightarrow> Phase \<Rightarrow> bool" where
  "phase_step a b \<longleftrightarrow> a = b \<or> phase_index b = Suc (phase_index a) \<or> a = PhaseFinished \<and> b = PhaseBidding"

definition table_kept :: "Game \<Rightarrow> Game \<Rightarrow> bool" where
  "table_kept g g' \<longleftrightarrow> gID g' = gID g \<and> CreatedAt g' = CreatedAt g \<and> roster g' = roster g \<and>
     phase_step (Status g) (Status g')"

lemma frame_kept: "frame g g' \<Longrightarrow> phase_step (Status g) (Status g') \<Longrightarrow> table_kept g g'"
  by (simp add: frame_def table_kept_def)

lemma roster_touch [simp]: "roster (touch e g) = roster g" by (simp add: roster_def)

lemma round_inv_phases:
  "bidding_inv g \<Longrightarrow> PlayAgainVotes g = [] \<Longrightarrow> h \<longrightarrow> spare g \<Longrightarrow> round_inv h g"
  "exchanging_inv g \<Longrightarrow> PlayAgainVotes g = [] \<Longrightarrow> h \<longrightarrow> spare g \<Longrightarrow> round_inv h g"
  "calling_inv h g \<Longrightarrow> PlayAgainVotes g = [] \<Longrightarrow> h \<longrightarrow> spare g \<Longrightarrow> round_inv h g"
  "playing_inv h g \<Longrightarrow> PlayAgainVotes g = [] \<Longrightarrow> h \<longrightarrow> spare g \<Longrightarrow> round_inv h g"
  "finished_inv h g \<Longrightarrow> h \<longrightarrow> spare g \<Longrightarrow> round_inv h g"
  by (simp_all add: round_inv_def bidding_inv_def exchanging_inv_def calling_inv_def playing_inv_def
      playing_core_def finished_inv_def)

text \<open>
  What a move does to the books: nothing, or it ends the round of a table whose declarer and friend are
  seated, and books the scores of that round.
\<close>

definition booked :: "Game \<Rightarrow> Game \<Rightarrow> bool" where
  "booked g g' \<longleftrightarrow> (Status g = PhaseFinished \<or> Config g' = Config g) \<and>
    (Status g' \<noteq> PhaseFinished \<and> books g' = books g \<or>
     Status g = PhaseFinished \<and> books g' = books g \<or>
     Status g' = PhaseFinished \<and>
     (\<exists>k. table_ok k \<and> contract_ok k \<and> friend_seated k \<and> size (all_points k) \<le> 20 \<and> roster k = roster g \<and> Config k = Config g \<and>
        books k = books g \<and> books g' = books (finish_round k) \<and> Scores g' = Scores (finish_round k)))"

text \<open>Applying a move that was validated: it succeeds, with a result of which \<open>P\<close> holds.\<close>

definition moves_to :: "Env \<Rightarrow> Game \<Rightarrow> string \<Rightarrow> MoveType \<Rightarrow> payload \<Rightarrow> bool \<Rightarrow> bool" where
  "moves_to e g uid mt pl h \<longleftrightarrow> (\<exists>g'. ApplyMove e g uid mt pl = Inr g' \<and> round_inv h g' \<and>
     Version g' = Version g + 1 \<and> table_kept g g' \<and> booked g g')"

lemma booked_touch [simp]: "booked g (touch e k) = booked g k"
  by (simp add: booked_def books_def)

lemma moves_toI:
  assumes "ApplyMove e g uid mt pl = Inr (touch e k)" "round_inv h k" "frame g k"
    "phase_step (Status g) (Status k)" "books k = books g \<and> Status k \<noteq> PhaseFinished \<or> booked g k"
  shows "moves_to e g uid mt pl h"
proof -
  have "Config k = Config g" using assms(3) by (simp add: frame_def)
  then have "booked g k" using assms(5) booked_def [of g k] by blast
  then show ?thesis using assms(1-4) by (auto simp: moves_to_def frame_def table_kept_def intro!: exI [of _ "touch e k"])
qed

lemma spare_hands:
  "spare g \<Longrightarrow> frame g k \<Longrightarrow> (\<And>i. numSeats g \<le> i \<Longrightarrow> hand_of k i = hand_of g i) \<Longrightarrow> spare k"
  by (simp add: spare_def frame_def numSeats_def)


lemma exchanging_spare:
  assumes "spare g" "frame g k" "0 \<le> d" "d < numSeats g"
    "\<And>i. hand_of k i = hand_of g i @ (if i = d then xs else [])"
  shows "spare k"
  by (rule spare_hands [OF assms(1,2)]) (use assms in auto)

lemma bidding_turn:
  "bidding_inv g \<Longrightarrow> 0 \<le> CurrentTurn g \<and> CurrentTurn g < numSeats g \<and> 0 \<le> Dealer g \<and> seats_ok g"
  by (auto simp: bidding_inv_def auction_ok_def deal_inv_def table_ok_def)

lemma apply_bid_hands:
  assumes "apply_bid g p b = Inr k" "bidding_inv k"
  shows "Players k = Players g"
proof -
  have "Status k = PhaseBidding" using assms(2) by (simp add: bidding_inv_def)
  then show ?thesis
    using assms(1)
    by (auto simp: apply_bid_def settle_contract_def advanceToNextBidder_def Let_def
        split: if_splits option.splits)
qed

lemma move_bid:
  assumes inv: "bidding_inv g" "PlayAgainVotes g = []" "h \<longrightarrow> spare g"
    and v: "ValidateMove g uid MoveBid pl = None"
  shows "moves_to e g uid MoveBid pl h"
proof -
  obtain b p where a: "pl = PBid b" "bid_ok g b" "player_at g (CurrentTurn g) = Inr p" "pID p = uid"
    "outbids b g" "ApplyMove e g uid MoveBid pl = bindE (apply_bid g p b) (\<lambda>g'. Inr (touch e g'))"
    by (rule accepted_bid [OF inv(1) v])
  have ph: "Status g = PhaseBidding" using inv(1) by (simp add: bidding_inv_def)
  note t = bidding_turn [OF inv(1)]
  show ?thesis
    using inv(1) a(3,2,5)
  proof (cases rule: apply_bid_ok)
    case (closed k)
    have "h \<longrightarrow> spare k" using exchanging_spare [OF _ closed(2) _ _ closed(8)] inv(3) t by blast
    then show ?thesis
      using closed a(6) inv(2) ph round_inv_phases(2) [of k h]
      by (intro moves_toI [of _ _ _ _ _ k]) (auto simp: frame_def phase_step_def exchanging_inv_def)
  next
    case (further k)
    have ps: "Players k = Players g" by (rule apply_bid_hands [OF further(1,6)])
    have "Config k = Config g" using further(2) by (simp add: frame_def)
    then have "h \<longrightarrow> spare k" using spare_cong [OF ps] inv(3) by blast
    then show ?thesis
      using further a(6) inv(2) ph round_inv_phases(1) [of k h]
      by (intro moves_toI [of _ _ _ _ _ k]) (auto simp: frame_def phase_step_def bidding_inv_def)
  qed
qed


lemma advance_players:
  "advanceToNextBidder g = Inr k \<Longrightarrow> Players k = Players g \<and> Config k = Config g \<and> Status k = Status g"
  by (auto simp: advanceToNextBidder_def split: if_splits option.splits)

lemma throw_in_spare:
  assumes "seats_ok g" "spare g"
  shows "spare (throw_in e g)"
proof -
  let ?g = "g\<lparr>Bids := [], CurrentBid := None, Contract := None, Declarer := -1,
    PassedPlayers := [], PartnerCard := None, PartnerSeat := -1,
    IsNoFriend := False, Trump := EmptySuit, Tricks := []\<rparr>"
  have "seats_ok ?g" "spare ?g"
    using assms seats_ok_cong [of ?g g] spare_cong [of ?g g] by simp_all
  then show ?thesis unfolding throw_in_def by (rule Start_spare)
qed

lemma apply_pass_spare:
  assumes "apply_pass e g p = Inr k" "bidding_inv k" "seats_ok g" "spare g"
  shows "spare k"
proof -
  let ?g = "g\<lparr>PassedPlayers := gm_set (Seat p) True (PassedPlayers g), Bids := Bids g @ [passBid p]\<rparr>"
  obtain g1 where g1: "advanceToNextBidder ?g = Inr g1"
    "(if gm_len (PassedPlayers g1) = numSeats g1 - 1 \<and> CurrentBid g1 \<noteq> None then settle_contract g1
      else if gm_len (PassedPlayers g1) = numSeats g1 then Inr (throw_in e g1) else Inr g1) = Inr k"
    using assms(1) by (auto simp: apply_pass_def)
  have same: "Players g1 = Players g" "Config g1 = Config g" using advance_players [OF g1(1)] by simp_all
  have s1: "seats_ok g1" "spare g1"
    using assms(3,4) seats_ok_cong [OF same] spare_cong [OF same] by simp_all
  have "settle_contract g1 \<noteq> Inr k"
    using assms(2) by (auto simp: settle_contract_def bidding_inv_def Let_def split: option.splits)
  then have "k = throw_in e g1 \<or> k = g1" using g1(2) by (auto split: if_splits)
  then show ?thesis using s1 throw_in_spare by blast
qed

lemma move_pass:
  assumes inv: "bidding_inv g" "PlayAgainVotes g = []" "h \<longrightarrow> spare g"
    and v: "ValidateMove g uid MovePass pl = None"
  shows "moves_to e g uid MovePass pl h"
proof -
  obtain p where a: "player_at g (CurrentTurn g) = Inr p" "pID p = uid"
    "ApplyMove e g uid MovePass pl = bindE (apply_pass e g p) (\<lambda>g'. Inr (touch e g'))"
    by (rule accepted_pass [OF inv(1) v])
  have ph: "Status g = PhaseBidding" using inv(1) by (simp add: bidding_inv_def)
  have con: "0 \<le> Declarer g \<and> Declarer g < numSeats g"
    if "the_ring g = [CurrentTurn g, Declarer g]"
  proof -
    have "Declarer g \<in> set (the_ring g)" using that by simp
    then show ?thesis using ring_set bidding_turn [OF inv(1)] by simp
  qed
  note t = bidding_turn [OF inv(1)]
  show ?thesis
    using inv(1) a(1)
  proof (cases rule: apply_pass_ok [where e = e])
    case (redeal k)
    have "h \<longrightarrow> spare k" using apply_pass_spare [OF redeal(1,6)] inv(3) t by blast
    then show ?thesis
      using redeal a(3) inv(2) ph round_inv_phases(1) [of k h]
      by (intro moves_toI [of _ _ _ _ _ k]) (auto simp: frame_def phase_step_def bidding_inv_def)
  next
    case (settled k b)
    have "h \<longrightarrow> spare k"
      using exchanging_spare [OF _ settled(2) _ _ settled(9)] inv(3) con [OF settled(5)] by blast
    then show ?thesis
      using settled a(3) inv(2) ph round_inv_phases(2) [of k h]
      by (intro moves_toI [of _ _ _ _ _ k]) (auto simp: frame_def phase_step_def exchanging_inv_def)
  next
    case (further k)
    have "h \<longrightarrow> spare k" using apply_pass_spare [OF further(1,4)] inv(3) t by blast
    then show ?thesis
      using further a(3) inv(2) ph round_inv_phases(1) [of k h]
      by (intro moves_toI [of _ _ _ _ _ k]) (auto simp: frame_def phase_step_def bidding_inv_def)
  qed
qed

lemma move_discard:
  assumes inv: "exchanging_inv g" "PlayAgainVotes g = []" "h \<longrightarrow> spare g"
    and v: "ValidateMove g uid MoveDiscard pl = None" and c: "h \<longrightarrow> careful MoveDiscard pl"
  shows "moves_to e g uid MoveDiscard pl h"
proof -
  obtain cards where pl: "pl = PCards cards"
    using accepted_discard [OF inv(1) v] by metis
  obtain k where k: "ApplyMove e g uid MoveDiscard (PCards cards) = Inr (touch e k)"
    "length cards = 3" "(h \<longrightarrow> distinct cards) \<longrightarrow> calling_inv h k" "frame g k" "books k = books g"
    "length (hand_of k (Declarer g)) + card (set cards) = 13"
    "all_hands k + mset_set (set cards) = deck_of g" "all_points k = points_in (mset_set (set cards))"
    "\<forall>i. i \<noteq> Declarer g \<longrightarrow> hand_of k i = hand_of g i"
    by (rule accepted_discard_ok [OF inv(1) v [unfolded pl], where e = e and h = h])
  have ck: "calling_inv h k" using k(3) c pl by (simp add: careful_def)
  have "Declarer g < numSeats g" using inv(1) by (simp add: exchanging_inv_def contract_ok_def)
  then have "h \<longrightarrow> spare k" using spare_hands [OF _ k(4)] inv(3) k(9) by auto
  moreover have "PlayAgainVotes k = []" using k(4) inv(2) by (simp add: frame_def)
  ultimately have "round_inv h k" using ck round_inv_phases(3) by blast
  then show ?thesis
    using k(1,4,5) ck inv(1) pl
    by (intro moves_toI [of _ _ _ _ _ k]) (auto simp: phase_step_def calling_inv_def exchanging_inv_def)
qed

lemma move_call:
  assumes inv: "calling_inv h g" "PlayAgainVotes g = []" "h \<longrightarrow> spare g"
    and v: "ValidateMove g uid MoveCallPartner pl = None"
  shows "moves_to e g uid MoveCallPartner pl h"
proof -
  obtain m where m: "ApplyMove e g uid MoveCallPartner pl = Inr (touch e (apply_call_partner g m))"
    by (rule accepted_call [OF inv(1) v])
  let ?k = "apply_call_partner g m"
  note k = apply_call_partner_ok [OF inv(1), of m]
  have "h \<longrightarrow> spare ?k"
    using inv(3) spare_cong [OF k(4)] k(2) by (simp add: frame_def)
  moreover have "PlayAgainVotes ?k = []" using k(2) inv(2) by (simp add: frame_def)
  ultimately have "round_inv h ?k" using k(1) round_inv_phases(4) by blast
  then show ?thesis
    using m k inv(1)
    by (intro moves_toI [of _ _ _ _ _ ?k])
       (auto simp: phase_step_def calling_inv_def playing_inv_def playing_core_def)
qed

lemma move_play:
  assumes inv: "playing_inv h g" "PlayAgainVotes g = []" "h \<longrightarrow> spare g"
    and v: "ValidateMove g uid MovePlayCard pl = None"
  shows "moves_to e g uid MovePlayCard pl h"
proof -
  obtain m p where a: "asPlayCardMove pl = Some m" "player_at g (CurrentTurn g) = Inr p" "pID p = uid"
    "pmCard m \<in> set (Hand p)" "check_forced g p (last (Tricks g)) (pmCard m) = None"
    "if tCards (last (Tricks g)) = [] then check_lead g p m = None
     else check_follow g p (last (Tricks g)) m = None"
    "ApplyMove e g uid MovePlayCard pl =
       bindE (apply_play_card g (CurrentTurn g) p m) (\<lambda>g'. Inr (touch e g'))"
    by (rule accepted_play [OF inv(1) v])
  have ph: "Status g = PhasePlaying" using inv(1) by (simp add: playing_inv_def playing_core_def)
  show ?thesis
    using inv(1) a(2,4,5,6) inv(2,3)
  proof (cases rule: apply_play_card_ok)
    case (further k)
    then show ?thesis
      using a(7) inv(2) ph round_inv_phases(4) [of h k]
      by (intro moves_toI [of _ _ _ _ _ k])
         (auto simp: frame_def phase_step_def playing_inv_def playing_core_def)
  next
    case (finished k)
    then show ?thesis
      using a(7) ph round_inv_phases(5) [of h "finish_round k"]
      using booked_def [of g "finish_round k"]
      by (intro moves_toI [of _ _ _ _ _ "finish_round k"]) (auto simp: phase_step_def frame_def roster_def)
  qed
qed

lemma move_again:
  assumes inv: "finished_inv h g" and v: "ValidateMove g uid MovePlayAgain pl = None"
  shows "moves_to e g uid MovePlayAgain pl h"
proof -
  obtain i p where p: "player_at g i = Inr p" "resolve_pointer g uid = Inr (i, p)"
    by (rule ValidateMove_player [OF v])
  have ph: "Status g = PhaseFinished" using inv by (simp add: finished_inv_def)
  let ?k = "apply_play_again e g p"
  have run: "ApplyMove e g uid MovePlayAgain pl = Inr (touch e ?k)"
    using p ph by (simp add: ApplyMove_def Let_def)
  note k = play_again_ok [OF inv p(1), where e = e]
  have "finished_inv h ?k \<Longrightarrow> Status ?k = PhaseFinished" "bidding_inv ?k \<Longrightarrow> Status ?k = PhaseBidding"
    by (simp_all add: finished_inv_def bidding_inv_def)
  with k(1) have "round_inv h ?k \<and> phase_step PhaseFinished (Status ?k)"
    using k(4) round_inv_phases(1,5) by (elim disjE conjE) (simp_all add: phase_step_def)
  moreover have "booked g ?k" using k(6) ph by (simp add: booked_def)
  ultimately show ?thesis
    using run k(2-8) ph by (auto simp: moves_to_def table_kept_def intro!: exI [of _ "touch e ?k"])
qed

lemma move_config:
  assumes inv: "finished_inv h g"
  shows "moves_to e g uid MoveChangeConfig pl h"
proof -
  have ph: "Status g = PhaseFinished" using inv by (simp add: finished_inv_def)
  let ?k = "apply_change_config g pl"
  have run: "ApplyMove e g uid MoveChangeConfig pl = Inr (touch e ?k)"
    using ph by (simp add: ApplyMove_def Let_def)
  note k = change_config_ok [OF inv, where pl = pl]
  have "round_inv h ?k" using k(1,4) round_inv_phases(5) by blast
  moreover have "Status ?k = PhaseFinished" using k(1) by (simp add: finished_inv_def)
  moreover have "booked g ?k" using k ph by (simp add: booked_def)
  ultimately show ?thesis
    using run k ph by (auto simp: moves_to_def table_kept_def phase_step_def intro!: exI [of _ "touch e ?k"])
qed

lemma accepted_phase:
  assumes "ValidateMove g uid mt pl = None"
  shows "mt = MoveBid \<or> mt = MovePass \<Longrightarrow> Status g = PhaseBidding"
    "mt = MoveDiscard \<Longrightarrow> Status g = PhaseExchanging"
    "mt = MoveCallPartner \<Longrightarrow> Status g = PhaseCalling"
    "mt = MovePlayCard \<Longrightarrow> Status g = PhasePlaying"
    "mt = MovePlayAgain \<or> mt = MoveChangeConfig \<Longrightarrow> Status g = PhaseFinished"
proof -
  obtain i p where p: "resolve_pointer g uid = Inr (i, p)" by (rule ValidateMove_player [OF assms])
  note d = ValidateMove_dispatch [OF assms p]
  show "mt = MoveBid \<or> mt = MovePass \<Longrightarrow> Status g = PhaseBidding"
    "mt = MoveDiscard \<Longrightarrow> Status g = PhaseExchanging"
    "mt = MoveCallPartner \<Longrightarrow> Status g = PhaseCalling"
    "mt = MovePlayCard \<Longrightarrow> Status g = PhasePlaying"
    "mt = MovePlayAgain \<or> mt = MoveChangeConfig \<Longrightarrow> Status g = PhaseFinished"
    using d(1-6)
    by (auto simp: validateBid_def validatePass_def validateDiscard_def validateCallPartner_def
        validatePlayCard_def split: if_splits)
qed

lemma accepted_move:
  assumes inv: "round_inv h g" and v: "ValidateMove g uid mt pl = None" and c: "h \<longrightarrow> careful mt pl"
  shows "moves_to e g uid mt pl h"
proof (cases mt)
  case MoveBid
  then have "Status g = PhaseBidding" using accepted_phase(1) [OF v] by simp
  then show ?thesis using move_bid inv v MoveBid by (simp add: round_inv_def)
next
  case MovePass
  then have "Status g = PhaseBidding" using accepted_phase(1) [OF v] by simp
  then show ?thesis using move_pass inv v MovePass by (simp add: round_inv_def)
next
  case MoveDiscard
  then have "Status g = PhaseExchanging" using accepted_phase(2) [OF v] by simp
  then show ?thesis using move_discard inv v c MoveDiscard by (simp add: round_inv_def)
next
  case MoveCallPartner
  then have "Status g = PhaseCalling" using accepted_phase(3) [OF v] by simp
  then show ?thesis using move_call inv v MoveCallPartner by (simp add: round_inv_def)
next
  case MovePlayCard
  then have "Status g = PhasePlaying" using accepted_phase(4) [OF v] by simp
  then show ?thesis using move_play inv v MovePlayCard by (simp add: round_inv_def)
next
  case MovePlayAgain
  then have "Status g = PhaseFinished" using accepted_phase(5) [OF v] by simp
  then show ?thesis using move_again inv v MovePlayAgain by (simp add: round_inv_def)
next
  case MoveChangeConfig
  then have "Status g = PhaseFinished" using accepted_phase(5) [OF v] by simp
  then show ?thesis using move_config inv MoveChangeConfig by (simp add: round_inv_def)
next
  case (OtherMove s)
  obtain i p where "resolve_pointer g uid = Inr (i, p)" by (rule ValidateMove_player [OF v])
  then show ?thesis using ValidateMove_dispatch(7) [OF v] OtherMove by blast
qed

section \<open>Validation never crashes\<close>

lemma check_id_graceful:
  assumes "player_at g i = Inr q" "\<And>x. k = Some x \<Longrightarrow> graceful x"
  shows "check_id g i uid msg k = Some err \<Longrightarrow> graceful err"
  using assms by (auto simp: check_id_def split: if_splits)

lemma validateBid_graceful:
  "(Status g = PhaseBidding \<Longrightarrow> player_at g (CurrentTurn g) = Inr q) \<Longrightarrow>
   validateBid g p pl = Some err \<Longrightarrow> graceful err"
  by (cases pl) (auto simp: validateBid_def check_id_def Let_def split: if_splits option.splits)

lemma validateDiscard_graceful:
  "(Status g = PhaseExchanging \<Longrightarrow> player_at g (Declarer g) = Inr q) \<Longrightarrow>
   validateDiscard g p pl = Some err \<Longrightarrow> graceful err"
  by (cases pl) (auto simp: validateDiscard_def check_id_def Let_def split: if_splits option.splits)

lemma asCallPartnerMove_graceful: "asCallPartnerMove pl = Inl err \<Longrightarrow> graceful err"
  by (cases pl) (auto simp: asCallPartnerMove_def)

lemma validateCallPartner_graceful:
  "(Status g = PhaseCalling \<Longrightarrow> player_at g (Declarer g) = Inr q) \<Longrightarrow>
   validateCallPartner g p pl = Some err \<Longrightarrow> graceful err"
  using asCallPartnerMove_graceful [of pl]
  by (auto simp: validateCallPartner_def check_id_def Let_def split: if_splits option.splits sum.splits)

lemma checks_graceful:
  "check_forced g p t c = Some err \<Longrightarrow> graceful err" "check_lead g p m = Some err \<Longrightarrow> graceful err"
  "check_follow g p t m = Some err \<Longrightarrow> graceful err"
  by (auto simp: check_forced_def check_lead_def check_follow_def Let_def split: if_splits)

lemma validatePlayCard_graceful:
  "(Status g = PhasePlaying \<Longrightarrow> player_at g (CurrentTurn g) = Inr q) \<Longrightarrow>
   validatePlayCard g p pl = Some err \<Longrightarrow> graceful err"
  by (auto simp: validatePlayCard_def check_id_def Let_def checks_graceful
      split: if_splits option.splits)

text \<open>The seats the validators look at are taken in the phases in which they look at them.\<close>

definition seats_ready :: "Game \<Rightarrow> bool" where
  "seats_ready g \<longleftrightarrow>
     (Status g = PhaseBidding \<or> Status g = PhasePlaying \<longrightarrow> filled g (CurrentTurn g)) \<and>
     (Status g = PhaseExchanging \<or> Status g = PhaseCalling \<longrightarrow> filled g (Declarer g))"

lemma round_seats_ready:
  assumes "round_inv h g"
  shows "seats_ready g"
proof -
  have "filled g (CurrentTurn g)" if "Status g = PhaseBidding"
    using assms that by (auto simp: round_inv_def bidding_inv_def auction_ok_def deal_inv_def table_ok_def)
  moreover have "filled g (CurrentTurn g)" if "Status g = PhasePlaying"
    using assms that playing_turn [of h g] by (auto simp: round_inv_def filled_def)
  moreover have "filled g (Declarer g)" if "Status g = PhaseExchanging \<or> Status g = PhaseCalling"
    using assms that
    by (auto simp: round_inv_def exchanging_inv_def calling_inv_def contract_ok_def table_ok_def)
  ultimately show ?thesis by (auto simp: seats_ready_def)
qed

lemma validation_graceful:
  assumes "seats_ready g" "ValidateMove g uid mt pl = Some err"
  shows "graceful err"
proof (cases "GetPlayer g uid")
  case None
  with assms(2) show ?thesis by (auto simp: ValidateMove_def)
next
  case (Some i)
  then obtain p where p: "player_at g i = Inr p" "pID p = uid" by (rule GetPlayer_Some)
  obtain q where q: "Status g = PhaseBidding \<or> Status g = PhasePlaying \<Longrightarrow> player_at g (CurrentTurn g) = Inr q"
    using assms(1) by (auto simp: seats_ready_def filled_def)
  obtain d where d: "Status g = PhaseExchanging \<or> Status g = PhaseCalling \<Longrightarrow> player_at g (Declarer g) = Inr d"
    using assms(1) by (auto simp: seats_ready_def filled_def)
  let ?D = "case mt of MoveBid \<Rightarrow> validateBid g p pl | MovePass \<Rightarrow> validatePass g p
      | MoveDiscard \<Rightarrow> validateDiscard g p pl | MoveCallPartner \<Rightarrow> validateCallPartner g p pl
      | MovePlayCard \<Rightarrow> validatePlayCard g p pl
      | MovePlayAgain \<Rightarrow> if Status g \<noteq> PhaseFinished then Some (InvalidMove ''not in finished phase'') else None
      | MoveChangeConfig \<Rightarrow> if Status g \<noteq> PhaseFinished then Some (InvalidMove ''not in finished phase'') else None
      | OtherMove s \<Rightarrow> Some (PlainError ''unknown move type'')"
  have D: "graceful x" if "?D = Some x" for x
    using that validateBid_graceful [of g q p pl x] validateDiscard_graceful [of g d p pl x]
      validateCallPartner_graceful [of g d p pl x] validatePlayCard_graceful [of g q p pl x] q d
    by (cases mt) (auto simp: validatePass_def check_id_def split: if_splits)
  have "ValidateMove g uid mt pl =
      (if Status g = PhasePlaying then check_id g (CurrentTurn g) uid ''not your turn'' ?D else ?D)"
    using Some p by (simp add: ValidateMove_def Let_def)
  with assms(2) D q check_id_graceful [of g "CurrentTurn g" q ?D uid "''not your turn''" err]
  show ?thesis by (auto split: if_splits)
qed

section \<open>What holds of every move\<close>

lemma discard_ok_weaken: "discard_ok h D \<Longrightarrow> discard_ok False D" by (simp add: discard_ok_def)

lemma playing_core_weaken: "playing_core h g \<Longrightarrow> playing_core False g"
  unfolding playing_core_def using discard_ok_weaken by blast

lemma round_inv_weaken:
  assumes "round_inv h g"
  shows "round_inv False g"
proof -
  have "calling_inv h g \<Longrightarrow> calling_inv False g"
    unfolding calling_inv_def using discard_ok_weaken by blast
  moreover have "playing_inv h g \<Longrightarrow> playing_inv False g"
    unfolding playing_inv_def using playing_core_weaken by blast
  moreover have "finished_inv h g \<Longrightarrow> finished_inv False g" by (simp add: finished_inv_def)
  ultimately show ?thesis using assms by (cases "Status g") (simp_all add: round_inv_def)
qed

text \<open>
  C2. One theorem for all moves in all phases: a table that satisfies the round invariant answers every
  request. Either validation rejects it with an error value, or the move is applied without a panic
  or an endless loop, bumps the version by one, and leaves a table that satisfies the invariant
  again. With the flag set, the invariant includes the count of the cards, and the move must not be a
  discard that names a card twice.
\<close>

theorem moves_never_crash:
  assumes "round_inv h g" "h \<longrightarrow> careful mt pl"
  shows "case ValidateMove g uid mt pl of
      Some err \<Rightarrow> graceful err
    | None \<Rightarrow> \<exists>g'. ApplyMove e g uid mt pl = Inr g' \<and> round_inv h g' \<and> Version g' = Version g + 1"
proof (cases "ValidateMove g uid mt pl")
  case None
  then show ?thesis using accepted_move [OF assms(1) None assms(2), of e] by (auto simp: moves_to_def)
next
  case (Some err)
  then show ?thesis using validation_graceful [OF round_seats_ready [OF assms(1)] Some] by simp
qed

text \<open>
  An accepted move never changes who sits where, nor the identity of the game, and takes the phase one
  step up (waiting, bidding, exchanging, calling, playing, finished), keeps it, or goes from finished
  to the bidding of the next round.
\<close>

lemma moves_keep_the_table:
  assumes "round_inv h g" "ValidateMove g uid mt pl = None" "ApplyMove e g uid mt pl = Inr g'"
  shows "roster g' = roster g \<and> gID g' = gID g \<and>
    (Status g' = Status g \<or> phase_index (Status g') = Suc (phase_index (Status g)) \<or>
     Status g = PhaseFinished \<and> Status g' = PhaseBidding)"
proof -
  have "round_inv False g" by (rule round_inv_weaken [OF assms(1)])
  from accepted_move [OF this assms(2), of e] assms(3) show ?thesis
    by (auto simp: moves_to_def table_kept_def phase_step_def)
qed

end
