(* ===== verification/Lobby.thy ===== *)
theory Lobby
  imports Room
begin

text \<open>
  internal/service/game_service.go, the seat logic of \<^verbatim>\<open>JoinGame\<close>, and the whole life of a table as
  a step relation: a new game, joins, moves. What every reachable table satisfies, that the player
  on turn always has a move, and that a deal comes to an end.
\<close>

section \<open>Taking a seat\<close>

text \<open>
  The part of \<^verbatim>\<open>JoinGame\<close> between loading and saving. A player who is already at the table is
  refreshed; a new one takes the first free seat; a full table starts the deal.
\<close>

datatype joined = Rejoined Game | Seated int Game | TableFull

definition newPlayer :: "string \<Rightarrow> string \<Rightarrow> int \<Rightarrow> Player" where
  "newPlayer uid name seat = \<lparr>pID = uid, pName = name, Seat = seat, Hand = [], Points = [],
     IsConnected = True\<rparr>"

fun first_free :: "int \<Rightarrow> Player option list \<Rightarrow> int option" where
  "first_free i [] = None"
| "first_free i (None # ps) = Some i"
| "first_free i (Some p # ps) = first_free (i + 1) ps"

definition join_table :: "Env \<Rightarrow> Game \<Rightarrow> string \<Rightarrow> string \<Rightarrow> joined" where
  "join_table e g uid name =
     (case find_player 0 (Players g) uid of
        Some i \<Rightarrow>
          (case Players g ! nat i of
             None \<Rightarrow> TableFull
           | Some p \<Rightarrow> Rejoined (touch e (set_player g i (p\<lparr>pName := name, IsConnected := True\<rparr>))))
      | None \<Rightarrow>
          (case first_free 0 (take (nat (numSeats g)) (Players g)) of
             None \<Rightarrow> TableFull
           | Some seat \<Rightarrow>
               (let g1 = touch e (set_player g seat (newPlayer uid name seat))
                in Seated seat (if IsFull g1 then Start e g1 else g1))))"

lemma first_free_Some:
  "first_free k ps = Some i \<Longrightarrow> k \<le> i \<and> i < k + int (length ps) \<and> ps ! nat (i - k) = None"
proof (induction k ps rule: first_free.induct)
  case (3 k p ps)
  then have "k + 1 \<le> i" "i < k + 1 + int (length ps)" "ps ! nat (i - (k + 1)) = None" by auto
  moreover have "nat (i - k) = Suc (nat (i - (k + 1)))" using calculation(1) by simp
  ultimately show ?case by simp
qed auto

lemma first_free_None: "first_free k ps = None \<longleftrightarrow> None \<notin> set ps"
  by (induction k ps rule: first_free.induct) auto

lemma filter_full: "length (filter P xs) = length xs \<longleftrightarrow> (\<forall>x \<in> set xs. P x)"
proof
  show "length (filter P xs) = length xs" if "\<forall>x \<in> set xs. P x" using that by simp
  show "\<forall>x \<in> set xs. P x" if "length (filter P xs) = length xs"
  proof
    fix x assume "x \<in> set xs"
    then show "P x" using length_filter_less [of x xs P] that by force
  qed
qed

lemma IsFull_iff:
  assumes "seats_ok g"
  shows "IsFull g \<longleftrightarrow> (\<forall>i. 0 \<le> i \<and> i < numSeats g \<longrightarrow> filled g i)"
proof -
  let ?n = "nat (numSeats g)" and ?ps = "take (nat (numSeats g)) (Players g)"
  have n: "?n \<le> length (Players g)" "0 \<le> numSeats g"
    using seats_range [OF assms] assms by (auto simp: seats_ok_def)
  have "IsFull g \<longleftrightarrow> length (filter (\<lambda>p. p \<noteq> None) ?ps) = length ?ps"
    using n by (auto simp: IsFull_def)
  also have "\<dots> \<longleftrightarrow> (\<forall>p \<in> set ?ps. p \<noteq> None)" by (rule filter_full)
  also have "\<dots> \<longleftrightarrow> (\<forall>k < ?n. Players g ! k \<noteq> None)" using n by (auto simp: set_conv_nth)
  also have "\<dots> \<longleftrightarrow> (\<forall>i. 0 \<le> i \<and> i < numSeats g \<longrightarrow> Players g ! nat i \<noteq> None)"
    by (metis nat_0_le nat_int nat_less_iff of_nat_0_le_iff zless_nat_eq_int_zless)
  also have "\<dots> \<longleftrightarrow> (\<forall>i. 0 \<le> i \<and> i < numSeats g \<longrightarrow> filled g i)"
    using n by (auto simp: filled_def player_at_Inr)
  finally show ?thesis .
qed

text \<open>A new player at a free seat.\<close>

lemma player_at_new:
  assumes "0 \<le> s" "s < int (length (Players g))"
  shows "player_at (set_player g s p) i = (if i = s then Inr p else player_at g i)"
  using assms by (auto simp: player_at_def set_player_def nth_list_update eq_nat_nat_iff)

lemma seats_ok_new:
  assumes "seats_ok g" "0 \<le> s" "s < 5" "find_player 0 (Players g) (pID p) = None" "Seat p = s"
  shows "seats_ok (set_player g s p)"
proof -
  have len: "s < int (length (Players g))" using assms(1,3) by (simp add: seats_ok_def)
  have ids: "pID q \<noteq> pID p" if "player_at g j = Inr q" for j q
  proof -
    have "Some q \<in> set (Players g)" using player_at_range [OF that] by (metis nat_less_iff nth_mem)
    then show ?thesis using find_player_None [OF assms(4)] by simp
  qed
  note at = player_at_new [OF assms(2) len, of p]
  show ?thesis
    unfolding seats_ok_def at
    using assms(1,5) ids [THEN not_sym] ids by (auto simp: seats_ok_def split: if_splits)
qed

section \<open>A new table\<close>

definition config_ok :: "GameConfig \<Rightarrow> bool" where
  "config_ok cfg \<longleftrightarrow> NumPlayers cfg = 0 \<or> NumPlayers cfg = 4 \<or> NumPlayers cfg = 5"

lemma new_table:
  assumes "config_ok cfg"
  shows "round_inv True (NewWithConfig e gid cfg)" "Version (NewWithConfig e gid cfg) = 1"
    "Status (NewWithConfig e gid cfg) = PhaseWaiting"
proof -
  let ?g = "NewWithConfig e gid cfg"
  have f [simp]: "Status ?g = PhaseWaiting" "Players ?g = replicate 5 None" "Dealer ?g = 0"
    "PassedPlayers ?g = []" "CurrentBid ?g = None" "Bids ?g = []" "Tricks ?g = []"
    "PlayAgainVotes ?g = []" "PartnerCard ?g = None" "PartnerSeat ?g = -1" "\<not> IsNoFriend ?g"
    "Version ?g = 1" "Kitty ?g = []"
    by (simp_all add: NewWithConfig_def Let_def emptyPlayers_def)
  have n: "NumPlayers (Config ?g) = 4 \<or> NumPlayers (Config ?g) = 5"
    using assms by (auto simp: NewWithConfig_def Let_def config_ok_def)
  have at: "player_at ?g i \<noteq> Inr p" for i p
    by (auto simp: player_at_Inr)
  then have fl: "\<not> filled ?g i" for i by (simp add: filled_def)
  have ho: "hand_of ?g i = []" "points_of ?g i = []" for i
    using at [of i] by (auto simp: hand_of_def points_of_def split: sum.splits)
  have s: "seats_ok ?g" using n at by (simp add: seats_ok_def)
  have "\<not> table_ok ?g" using fl seats_range [OF s] by (auto simp: table_ok_def intro!: exI [of _ 0])
  then show "round_inv True ?g"
    using s fl ho by (simp add: round_inv_def waiting_inv_def no_partner_def spare_def)
  show "Version ?g = 1" "Status ?g = PhaseWaiting" by simp_all
qed

section \<open>Joining\<close>

lemma new_fields:
  "Points (newPlayer uid name s) = []" "Hand (newPlayer uid name s) = []"
  "pID (newPlayer uid name s) = uid" "Seat (newPlayer uid name s) = s"
  by (simp_all add: newPlayer_def)

lemma join_waiting:
  assumes inv: "round_inv h g" and ph: "Status g = PhaseWaiting"
    and j: "join_table e g uid name = Seated s g'"
  shows "round_inv h g'" "Version g' = Version g + 1"
    "Status g' = (if \<forall>i. 0 \<le> i \<and> i < numSeats g \<and> i \<noteq> s \<longrightarrow> filled g i then PhaseBidding else PhaseWaiting)"
proof -
  let ?p = "newPlayer uid name s" and ?n = "numSeats g"
  let ?s = "set_player g s ?p"
  let ?g = "touch e ?s"
  have w: "waiting_inv g" using inv ph by (simp add: round_inv_def)
  then have sk: "seats_ok g" and ntab: "\<not> table_ok g" by (auto simp: waiting_inv_def)
  have n: "?n = 4 \<or> ?n = 5" and len5: "length (Players g) = 5"
    using seats_range [OF sk] sk by (auto simp: seats_ok_def)
  have new: "find_player 0 (Players g) uid = None"
    and free: "first_free 0 (take (nat ?n) (Players g)) = Some s"
    and g': "g' = (if IsFull ?g then Start e ?g else ?g)"
    using j by (auto simp: join_table_def Let_def split: option.splits)
  have s: "0 \<le> s" "s < ?n" using first_free_Some [OF free] n len5 by auto
  then have s5: "s < 5" "s < int (length (Players g))" using n len5 by auto
  have sk': "seats_ok ?g"
    using seats_ok_new [OF sk s(1) s5(1), of ?p] new by (simp add: new_fields)
  note at = player_at_new [OF s(1) s5(2), of ?p]
  have fl: "filled ?g i \<longleftrightarrow> i = s \<or> filled g i" for i by (simp add: filled_def at)
  have pt: "points_of ?g i = []" for i
    using w by (auto simp: points_of_def at new_fields waiting_inv_def)
  have hd: "hand_of ?g i = []" for i
    using w by (auto simp: hand_of_def at new_fields waiting_inv_def)
  have sp: "h \<longrightarrow> spare ?g"
    using inv s by (auto simp: round_inv_def spare_def hand_of_def at new_fields)
  have full: "IsFull ?g \<longleftrightarrow> (\<forall>i. 0 \<le> i \<and> i < ?n \<and> i \<noteq> s \<longrightarrow> filled g i)"
    unfolding IsFull_iff [OF sk'] using fl by auto
  have tab: "IsFull ?g \<longleftrightarrow> table_ok ?g"
    unfolding IsFull_iff [OF sk'] using sk' by (simp add: table_ok_def)
  have np: "no_partner ?g" using w by (simp add: waiting_inv_def no_partner_def)
  show "Version g' = Version g + 1" by (simp add: g')
  have wf: "Dealer g = 0" "PassedPlayers g = []" "CurrentBid g = None" "Bids g = []"
    "Tricks g = []" "PlayAgainVotes g = []" "Kitty g = []" using w by (auto simp: waiting_inv_def)
  show "Status g' = (if \<forall>i. 0 \<le> i \<and> i < ?n \<and> i \<noteq> s \<longrightarrow> filled g i then PhaseBidding else PhaseWaiting)"
    unfolding g' full [symmetric] using ph by simp
  show "round_inv h g'"
  proof (cases "IsFull ?g")
    case True
    then have t: "table_ok ?g" using tab by simp
    have "deal_inv (Start e ?g)"
      by (rule Start_inv [OF t]) (use wf np pt in simp_all)
    moreover have "auction_ok (Start e ?g)"
      by (rule fresh_auction) (use wf n in auto)
    ultimately have "bidding_inv (Start e ?g)" by (simp add: bidding_inv_def)
    moreover have "h \<longrightarrow> spare (Start e ?g)" using Start_spare [OF sk'] sp by blast
    ultimately show ?thesis using True wf g' round_inv_phases(1) [of "Start e ?g" h] by simp
  next
    case False
    then have "\<not> table_ok ?g" using tab by simp
    moreover have "\<forall>i \<ge> numSeats ?g. \<not> filled ?g i" using w s fl by (auto simp: waiting_inv_def)
    ultimately have "waiting_inv ?g" using sk' ph wf pt hd np by (simp add: waiting_inv_def)
    then show ?thesis using False g' ph sp by (simp add: round_inv_def)
  qed
qed

text \<open>A player who comes back changes a name and a flag, in any phase.\<close>

lemma rejoin_ok:
  assumes inv: "round_inv h g" and j: "join_table e g uid name = Rejoined g'"
  shows "round_inv h g'" "Version g' = Version g + 1" "Status g' = Status g"
proof -
  obtain i p where i: "find_player 0 (Players g) uid = Some i" "Players g ! nat i = Some p"
    and g': "g' = touch e (set_player g i (p\<lparr>pName := name, IsConnected := True\<rparr>))"
    using j by (auto simp: join_table_def Let_def split: option.splits)
  have p: "player_at g i = Inr p"
    using GetPlayer_Some [of g uid i] i by (fastforce simp: GetPlayer_def player_at_Inr)
  let ?p = "p\<lparr>pName := name, IsConnected := True\<rparr>" and ?s = "set_player g i (p\<lparr>pName := name, IsConnected := True\<rparr>)"
  have at: "player_at ?s j = (if j = i then Inr ?p else player_at g j)" for j
    by (rule player_at_set_player [OF p])
  have hand [simp]: "hand_of ?s = hand_of g" and pts [simp]: "points_of ?s = points_of g"
    and fl [simp]: "filled ?s = filled g"
    using p by (auto simp: fun_eq_iff hand_of_def points_of_def filled_def at)
  have ah [simp]: "all_hands ?s = all_hands g" "all_points ?s = all_points g"
    by (simp_all add: all_hands_def all_points_def)
  have sk [simp]: "seats_ok ?s = seats_ok g"
  proof
    show "seats_ok ?s" if "seats_ok g" by (rule seats_ok_set_player [OF that p]) simp_all
    have q: "player_at ?s i = Inr ?p" by (simp add: at)
    have undo: "set_player ?s i p = g"
      using player_at_range [OF p] by (auto simp: set_player_def list_update_same_conv)
    show "seats_ok g" if "seats_ok ?s"
      using seats_ok_set_player [OF that q, of p] undo by simp
  qed
  have tab [simp]: "table_ok ?s = table_ok g" by (simp add: table_ok_def)
  have con [simp]: "contract_ok ?s = contract_ok g" by (rule contract_ok_cong) simp_all
  have auc [simp]: "auction_ok ?s = auction_ok g" by (rule auction_ok_cong) simp_all
  have spc [simp]: "special_ok ?s = special_ok g" by (rule ext) (rule special_ok_cong, simp)
  have tt: "trick_turn ?s = trick_turn g" by (rule ext) (simp add: trick_turn_def)
  then have tr: "tricks_ok ?s = tricks_ok g" by (simp add: tricks_ok_def)
  have "round_inv h ?s = round_inv h g"
    by (cases "Status g")
       (simp_all add: round_inv_def spare_def waiting_inv_def bidding_inv_def deal_inv_def no_partner_def
          exchanging_inv_def calling_inv_def playing_inv_def playing_core_def tr finished_inv_def)
  then show "round_inv h g'" using inv by (simp add: g')
  show "Version g' = Version g + 1" "Status g' = Status g" by (simp_all add: g')
qed

section \<open>What no operation changes\<close>

definition same_id :: "Game \<Rightarrow> Game \<Rightarrow> bool" where
  "same_id g g' \<longleftrightarrow> gID g' = gID g \<and> Version g' = Version g \<and> Deck g' = Deck g"

lemma same_id_refl [simp]: "same_id g g" by (simp add: same_id_def)

lemma same_id_trans [trans]: "same_id a b \<Longrightarrow> same_id b c \<Longrightarrow> same_id a c" by (simp add: same_id_def)

lemma same_id_Start [simp]: "same_id g (Start e g)"
  by (simp add: same_id_def Start_def Let_def case_prod_beta)

lemma same_id_updates [simp]:
  "same_id g (set_player g i p)" "same_id g (finish_round g)" "same_id g (apply_change_config g pl)"
  "same_id g (apply_call_partner g m)" "same_id g (apply_discard g i p cs)"
  "same_id g (resetForNextRound e g)" "same_id g (throw_in e g)"
  by (simp_all add: same_id_def set_player_def finish_round_def apply_change_config_def
      apply_call_partner_def apply_discard_def resetForNextRound_def throw_in_def Start_def Let_def case_prod_beta)

lemma same_id_apply_play_again [simp]: "same_id g (apply_play_again e g p)"
  using same_id_updates(6) [of "g\<lparr>PlayAgainVotes := gm_set (Seat p) True (PlayAgainVotes g)\<rparr>" e]
  by (simp add: apply_play_again_def Let_def same_id_def)

lemma same_id_settle: "settle_contract g = Inr g' \<Longrightarrow> same_id g g'"
  by (auto simp: settle_contract_def Let_def same_id_def set_player_def split: option.splits)

lemma same_id_advance: "advanceToNextBidder g = Inr g' \<Longrightarrow> same_id g g'"
  by (auto simp: advanceToNextBidder_def same_id_def split: if_splits option.splits)

lemma same_id_apply_bid: "apply_bid g p b = Inr g' \<Longrightarrow> same_id g g'"
  by (auto simp: apply_bid_def Let_def same_id_def split: if_splits
      dest!: same_id_settle same_id_advance)

lemma same_id_apply_pass:
  assumes "apply_pass e g p = Inr g'"
  shows "same_id g g'"
proof -
  let ?g = "g\<lparr>PassedPlayers := gm_set (Seat p) True (PassedPlayers g), Bids := Bids g @ [passBid p]\<rparr>"
  obtain g1 where g1: "advanceToNextBidder ?g = Inr g1"
    and r: "settle_contract g1 = Inr g' \<or> g' = throw_in e g1 \<or> g' = g1"
    using assms by (auto simp: apply_pass_def split: if_splits)
  have "same_id g ?g" by (simp add: same_id_def)
  also have "same_id ?g g1" by (rule same_id_advance [OF g1])
  also have "same_id g1 g'" using r same_id_settle same_id_updates(7) same_id_refl by blast
  finally show ?thesis .
qed

lemma same_id_intros:
  "same_id g k \<Longrightarrow> same_id g (k\<lparr>Tricks := ts\<rparr>)" "same_id g k \<Longrightarrow> same_id g (k\<lparr>CurrentTurn := i\<rparr>)"
  "same_id g k \<Longrightarrow> same_id g (k\<lparr>PartnerSeat := i\<rparr>)" "same_id g k \<Longrightarrow> same_id g (set_player k i p)"
  "same_id g k \<Longrightarrow> same_id g (finish_round k)"
  "same_id g k \<Longrightarrow> same_id g l \<Longrightarrow> same_id g (if c then k else l)"
  using same_id_updates(2) same_id_trans by (simp_all add: same_id_def set_player_def)

lemma bindE_InrE: "bindE m f = Inr y \<Longrightarrow> (\<And>x. f x = Inr y \<Longrightarrow> P) \<Longrightarrow> P"
  by auto

lemma same_id_finish_trick: "finish_trick g = Inr g' \<Longrightarrow> same_id g g'"
  unfolding finish_trick_def Let_def case_prod_beta
  by (elim bindE_InrE, drule sum.inject(2) [THEN iffD1], erule subst)
     (intro same_id_intros same_id_refl)

lemma same_id_apply_play:
  assumes "apply_play_card g i p m = Inr g'"
  shows "same_id g g'"
proof -
  let ?g1 = "set_player g i (p\<lparr>Hand := filter (\<lambda>h. h \<noteq> pmCard m) (Hand p)\<rparr>)"
  let ?g2 = "?g1\<lparr>Tricks := butlast (Tricks ?g1) @ [lay_card ?g1 (last (Tricks ?g1)) p m],
                 CurrentTurn := go_rem (CurrentTurn ?g1 + 1) (numSeats ?g1)\<rparr>"
  have "finish_trick ?g2 = Inr g' \<or> g' = ?g2"
    using assms unfolding apply_play_card_def Let_def by (simp split: if_splits)
  moreover have "same_id g ?g2" by (simp add: same_id_def set_player_def)
  ultimately show ?thesis using same_id_finish_trick same_id_trans by blast
qed

lemma touchI: "same_id g k \<Longrightarrow> \<exists>k'. same_id g k' \<and> touch e k = touch e k'"
  by blast

lemma ApplyMove_frame:
  assumes "ApplyMove e g uid mt pl = Inr g'"
  shows "gID g' = gID g \<and> Version g' = Version g + 1 \<and> Deck g' = Deck g"
proof -
  have t: "gID (touch e k) = gID g \<and> Version (touch e k) = Version g + 1 \<and> Deck (touch e k) = Deck g"
    if "same_id g k" for k
    using that by (simp add: touch_def same_id_def)
  have "\<exists>k. same_id g k \<and> g' = touch e k"
    using assms
    by (auto simp: ApplyMove_def Let_def intro!: touchI same_id_updates same_id_apply_play_again intro: same_id_apply_bid same_id_apply_pass same_id_apply_play
        split: if_splits MoveType.splits)
  then show ?thesis using t by blast
qed

lemma join_frame:
  assumes "join_table e g uid name = Rejoined g' \<or> join_table e g uid name = Seated s g'"
  shows "gID g' = gID g \<and> Version g' = Version g + 1 \<and> Deck g' = Deck g"
proof -
  have "same_id k (Start e k)" for k by simp
  then show ?thesis using assms
    by (auto simp: join_table_def Let_def set_player_def touch_def same_id_def split: option.splits if_splits)
qed

section \<open>The life of a table\<close>

text \<open>
  Every step the program can take: a join that seats a new player (\<^verbatim>\<open>JoinGame\<close> asks for a free seat, in whatever
  phase), a return, an accepted move. The flag \<open>h\<close> restricts the moves to discards that name no
  card twice; the flag of a step says that it seated a player outside the waiting room, which only
  a finished table that was reconfigured from four seats to five allows.
\<close>

inductive table_step :: "bool \<Rightarrow> bool \<Rightarrow> Game \<Rightarrow> Game \<Rightarrow> bool" for h where
  join: "join_table e g uid name = Seated s g' \<Longrightarrow> table_step h (Status g \<noteq> PhaseWaiting) g g'"
| rejoin: "join_table e g uid name = Rejoined g' \<Longrightarrow> table_step h False g g'"
| move: "ValidateMove g uid mt pl = None \<Longrightarrow> (h \<longrightarrow> careful mt pl) \<Longrightarrow>
    ApplyMove e g uid mt pl = Inr g' \<Longrightarrow> table_step h False g g'"

inductive_cases table_stepE: "table_step h w g g'"

text \<open>
  A table after \<open>n\<close> steps. \<open>reachable h cfg w n g\<close> covers every run of the program (with \<open>h\<close> off); \<open>w\<close> tells
  whether a player was seated outside the waiting room on the way.
\<close>

inductive reachable :: "bool \<Rightarrow> GameConfig \<Rightarrow> bool \<Rightarrow> nat \<Rightarrow> Game \<Rightarrow> bool" for h cfg where
  new: "config_ok cfg \<Longrightarrow> reachable h cfg False 0 (NewWithConfig e gid cfg)"
| step: "reachable h cfg w n g \<Longrightarrow> table_step h v g g' \<Longrightarrow> reachable h cfg (w \<or> v) (Suc n) g'"

lemma reachable_step: "reachable h cfg False n g \<Longrightarrow> table_step h False g g' \<Longrightarrow> reachable h cfg False (Suc n) g'"
  using reachable.step by fastforce

lemma table_join: "Status g = PhaseWaiting \<Longrightarrow> join_table e g uid name = Seated s g' \<Longrightarrow> table_step h False g g'"
  using table_step.join [of e g uid name s g' h] by simp

lemma table_step_version: "table_step h w g g' \<Longrightarrow> Version g' = Version g + 1"
  by (auto elim!: table_stepE dest: join_frame [OF disjI1] join_frame [OF disjI2] ApplyMove_frame)

lemma reachable_version: "reachable h cfg w n g \<Longrightarrow> Version g = of_nat (n + 1)"
  by (induction rule: reachable.induct) (simp_all add: new_table(2) table_step_version)

lemma table_step_inv:
  assumes "table_step h False g g'" "round_inv h g"
  shows "round_inv h g'"
  using assms(1)
proof (cases rule: table_step.cases)
  case (join e uid name s)
  then show ?thesis using join_waiting [OF assms(2)] by blast
next
  case (rejoin e uid name)
  then show ?thesis using rejoin_ok [OF assms(2)] by blast
next
  case (move uid mt pl e)
  then show ?thesis using accepted_move [OF assms(2) move(1,2), of e] by (auto simp: moves_to_def)
qed

text \<open>Rule induction over the runs in which nobody was seated outside the waiting room.\<close>

lemma reachable_legal_induct [consumes 1, case_names new step]:
  assumes "reachable h cfg False n g"
    and new: "\<And>e gid. config_ok cfg \<Longrightarrow> P 0 (NewWithConfig e gid cfg)"
    and step: "\<And>n g g'. reachable h cfg False n g \<Longrightarrow> P n g \<Longrightarrow> table_step h False g g' \<Longrightarrow> P (Suc n) g'"
  shows "P n g"
proof -
  have "reachable h cfg w n g \<Longrightarrow> \<not> w \<longrightarrow> P n g" for w
    by (induction rule: reachable.induct) (auto intro: new step)
  then show ?thesis using assms(1) by blast
qed

lemma reachable_inv: "reachable h cfg False n g \<Longrightarrow> round_inv h g"
proof (induction rule: reachable_legal_induct)
  case (new e gid)
  then have "round_inv True (NewWithConfig e gid cfg)" by (rule new_table)
  then show ?case by (cases h) (auto dest: round_inv_weaken)
next
  case (step n g g')
  then show ?case using table_step_inv by blast
qed

lemma late_table_ok:
  "round_inv h g \<Longrightarrow> Status g \<noteq> PhaseWaiting \<Longrightarrow> Status g \<noteq> PhaseFinished \<Longrightarrow> table_ok g"
  by (cases "Status g")
     (simp_all add: round_inv_def bidding_inv_def deal_inv_def exchanging_inv_def calling_inv_def
        playing_inv_def playing_core_def)

lemma full_table_takes_nobody:
  assumes "table_ok g"
  shows "join_table e g uid name \<noteq> Seated s g'"
proof
  assume j: "join_table e g uid name = Seated s g'"
  then have f: "first_free 0 (take (nat (numSeats g)) (Players g)) = Some s"
    by (auto simp: join_table_def Let_def split: option.splits)
  note ff = first_free_Some [OF f]
  then have s: "0 \<le> s" "s < numSeats g" by auto
  then have "filled g s" using assms by (simp add: table_ok_def)
  then have "Players g ! nat s \<noteq> None" by (auto simp: filled_def player_at_Inr)
  with ff s show False by simp
qed

text \<open>No seat is free in a finished game: nobody widened the table.\<close>

definition not_widened :: "Game \<Rightarrow> bool" where
  "not_widened g \<longleftrightarrow> (Status g = PhaseFinished \<longrightarrow> table_ok g)"

lemma seated_where:
  assumes inv: "round_inv h g" and j: "join_table e g uid name = Seated s g'"
  shows "Status g = PhaseWaiting \<or> Status g = PhaseFinished \<and> numSeats g = 5 \<and> s = 4"
proof (cases "Status g = PhaseFinished")
  case True
  then have s: "seats_ok g" and low: "\<forall>i. 0 \<le> i \<and> i < 4 \<longrightarrow> filled g i"
    using inv by (simp_all add: round_inv_def finished_inv_def)
  have f: "first_free 0 (take (nat (numSeats g)) (Players g)) = Some s"
    using j by (auto simp: join_table_def Let_def split: option.splits)
  note ff = first_free_Some [OF f]
  have s4: "0 \<le> s" "s < numSeats g" "nat s < nat (numSeats g)" using ff by auto
  have "Players g ! nat s = None" using ff nth_take [OF s4(3), of "Players g"] by simp
  then have "\<not> filled g s" by (auto simp: filled_def player_at_Inr)
  then have "4 \<le> s" using low s4(1) by (meson linorder_not_less)
  then show ?thesis using True s4(2) seats_range [OF s] by auto
next
  case False
  then show ?thesis using late_table_ok [OF inv] full_table_takes_nobody j by blast
qed

section \<open>Someone can always move\<close>

lemma pass_possible:
  assumes "bidding_inv g"
  shows "\<exists>uid. ValidateMove g uid MovePass PNil = None"
proof -
  have t: "0 \<le> CurrentTurn g" "CurrentTurn g < numSeats g" and s: "seats_ok g" and ph: "Status g = PhaseBidding"
    using bidding_turn [OF assms] assms by (auto simp: bidding_inv_def)
  have tab: "table_ok g" using assms by (simp add: bidding_inv_def deal_inv_def)
  obtain p where p: "player_at g (CurrentTurn g) = Inr p" by (rule table_filled [OF tab t])
  have "ValidateMove g (pID p) MovePass PNil = None"
    using ph p GetPlayer_player_at [OF s p] by (simp add: ValidateMove_def validatePass_def check_id_def)
  then show ?thesis ..
qed

lemma discard_possible:
  assumes "exchanging_inv g"
  shows "\<exists>uid cards. ValidateMove g uid MoveDiscard (PCards cards) = None \<and> distinct cards \<and>
    set cards \<subseteq> set (NewDeckFor (numSeats g))"
proof -
  have d: "0 \<le> Declarer g" "Declarer g < numSeats g" and tab: "table_ok g" and ph: "Status g = PhaseExchanging"
    and all: "all_hands g = deck_of g"
    and len: "length (hand_of g (Declarer g)) = 13"
    using assms by (auto simp: exchanging_inv_def contract_ok_def)
  obtain p where p: "player_at g (Declarer g) = Inr p" by (rule table_filled [OF tab d])
  let ?c = "take 3 (Hand p)"
  have sub: "mset (Hand p) \<subseteq># deck_of g" using hand_subset_all [OF d] all hand_of_player [OF p] by simp
  then have "distinct ?c" by (intro distinct_take distinct_subset_deck(1))
  moreover have "set ?c \<subseteq> set (Hand p)" by (rule set_take_subset)
  then have f: "find (\<lambda>c. \<not> HasCard p c) ?c = None" by (auto simp: find_None_iff HasCard_iff)
  have "length ?c = 3" using len hand_of_player [OF p] by simp
  then have "ValidateMove g (pID p) MoveDiscard (PCards ?c) = None"
    using ph p f GetPlayer_player_at [OF table_seats [OF tab] p]
    by (simp add: ValidateMove_def validateDiscard_def check_id_def)
  moreover have "set ?c \<subseteq> set (NewDeckFor (numSeats g))"
    using set_take_subset [of 3 "Hand p"] set_mset_mono [OF sub] by fastforce
  ultimately show ?thesis by blast
qed

lemma call_possible:
  assumes "calling_inv h g"
  shows "\<exists>uid. ValidateMove g uid MoveCallPartner (PCallPartner \<lparr>cpCard = None, NoFriend = True\<rparr>) = None"
proof -
  have d: "0 \<le> Declarer g" "Declarer g < numSeats g" and tab: "table_ok g" and ph: "Status g = PhaseCalling"
    using assms by (auto simp: calling_inv_def contract_ok_def)
  obtain p where p: "player_at g (Declarer g) = Inr p" by (rule table_filled [OF tab d])
  have "ValidateMove g (pID p) MoveCallPartner (PCallPartner \<lparr>cpCard = None, NoFriend = True\<rparr>) = None"
    using ph p GetPlayer_player_at [OF table_seats [OF tab] p]
    by (simp add: ValidateMove_def validateCallPartner_def check_id_def asCallPartnerMove_def)
  then show ?thesis ..
qed

lemma again_possible:
  assumes "finished_inv h g"
  shows "\<exists>uid. ValidateMove g uid MovePlayAgain PNil = None"
proof -
  have s: "seats_ok g" and ph: "Status g = PhaseFinished" and "filled g 0"
    using assms by (auto simp: finished_inv_def)
  then obtain p where p: "player_at g 0 = Inr p" by (auto simp: filled_def)
  have "ValidateMove g (pID p) MovePlayAgain PNil = None"
    using ph p GetPlayer_player_at [OF s p] by (simp add: ValidateMove_def)
  then show ?thesis ..
qed

lemma someone_can_move:
  assumes "round_inv h g" "Status g \<noteq> PhaseWaiting"
  shows "\<exists>uid mt pl. ValidateMove g uid mt pl = None \<and> careful mt pl"
proof (cases "Status g")
  case PhaseWaiting
  with assms(2) show ?thesis by simp
next
  case PhaseBidding
  then obtain uid where "ValidateMove g uid MovePass PNil = None"
    using pass_possible assms(1) by (auto simp: round_inv_def)
  then show ?thesis by (auto simp: careful_def)
next
  case PhaseExchanging
  then obtain uid cards where "ValidateMove g uid MoveDiscard (PCards cards) = None" "distinct cards"
    using discard_possible [of g] assms(1) unfolding round_inv_def by auto
  moreover from this(2) have "careful MoveDiscard (PCards cards)" by (simp add: careful_def)
  ultimately show ?thesis by blast
next
  case PhaseCalling
  then obtain uid where
    "ValidateMove g uid MoveCallPartner (PCallPartner \<lparr>cpCard = None, NoFriend = True\<rparr>) = None"
    using call_possible assms(1) by (auto simp: round_inv_def)
  moreover have "careful MoveCallPartner (PCallPartner \<lparr>cpCard = None, NoFriend = True\<rparr>)"
    by (simp add: careful_def)
  ultimately show ?thesis by blast
next
  case PhasePlaying
  then obtain p :: Player and m where "ValidateMove g (pID p) MovePlayCard (PPlayCard m) = None"
    using play_possible [of h g] assms(1) by (auto simp: round_inv_def)
  moreover have "careful MovePlayCard (PPlayCard m)" by (simp add: careful_def)
  ultimately show ?thesis by blast
next
  case PhaseFinished
  then obtain uid where "ValidateMove g uid MovePlayAgain PNil = None"
    using again_possible assms(1) by (auto simp: round_inv_def)
  then show ?thesis by (auto simp: careful_def)
qed

section \<open>A deal comes to an end\<close>

text \<open>
  The moves a deal can still take: the auction first, then the exchange, the call, and one move for
  every card in a hand.
\<close>

definition moves_left :: "Game \<Rightarrow> nat" where
  "moves_left g = (case Status g of
      PhaseBidding \<Rightarrow> 55 + auction_left g
    | PhaseExchanging \<Rightarrow> 54
    | PhaseCalling \<Rightarrow> 53
    | PhasePlaying \<Rightarrow> size (all_hands g)
    | _ \<Rightarrow> 0)"

lemma playing_cards_bound:
  assumes "playing_core h g"
  shows "size (all_hands g) \<le> 52"
proof -
  obtain D where D: "discard_ok h D" "all_hands g + cards_in (Tricks g) + D = deck_of g"
    using assms by (auto simp: playing_core_def)
  have "size (all_hands g + cards_in (Tricks g) + D) \<le> 53"
    unfolding D(2) size_mset using deck_facts(2) [of "numSeats g"] by simp
  then show ?thesis using D(1) by (simp add: discard_ok_def)
qed

lemma auction_left_pos:
  assumes "auction_ok g"
  shows "0 < auction_left g"
proof -
  obtain rest where "the_ring g = CurrentTurn g # rest" using auction_ring [OF assms] by metis
  then show ?thesis by (simp add: auction_left_def)
qed

definition thrown_in :: "Game \<Rightarrow> MoveType \<Rightarrow> bool" where
  "thrown_in g mt \<longleftrightarrow>
     Status g = PhaseBidding \<and> mt = MovePass \<and> CurrentBid g = None \<and> the_ring g = [CurrentTurn g]"

lemma not_other:
  assumes "ValidateMove g uid mt pl = None"
  shows "mt \<noteq> OtherMove s"
proof -
  obtain i p where "resolve_pointer g uid = Inr (i, p)" by (rule ValidateMove_player [OF assms])
  then show ?thesis using ValidateMove_dispatch(7) [OF assms] by blast
qed

lemma bidding_move_left:
  assumes inv: "bidding_inv g" and v: "ValidateMove g uid mt pl = None"
    and a: "ApplyMove e g uid mt pl = Inr g'" and nt: "\<not> thrown_in g mt"
  shows "moves_left g' < moves_left g"
proof -
  have ph: "Status g = PhaseBidding" and auc: "auction_ok g" using inv by (auto simp: bidding_inv_def)
  have pos: "0 < auction_left g" by (rule auction_left_pos [OF auc])
  have "mt = MoveBid \<or> mt = MovePass"
    using accepted_phase [OF v] not_other [OF v] ph
    by (cases mt) auto
  then show ?thesis
  proof
    assume mt: "mt = MoveBid"
    obtain b p where b: "bid_ok g b" "player_at g (CurrentTurn g) = Inr p" "outbids b g"
      "ApplyMove e g uid MoveBid pl = bindE (apply_bid g p b) (\<lambda>g'. Inr (touch e g'))"
      using accepted_bid [OF inv v [unfolded mt]] by metis
    show ?thesis
      using inv b(2,1,3)
    proof (cases rule: apply_bid_ok)
      case (closed k)
      then have "g' = touch e k" "Status g' = PhaseExchanging"
        using b(4) a mt by (auto simp: exchanging_inv_def)
      then show ?thesis using ph pos by (simp add: moves_left_def)
    next
      case (further k)
      have "(case CurrentBid g of None \<Rightarrow> 0 | Some b \<Rightarrow> bPoints b) < bPoints b"
        using b(1,3) minBidPoints_pos [of g] by (cases "CurrentBid g") (auto simp: bid_ok_def outbids_def)
      moreover have "g' = touch e k" using b(4) a mt further(1) by simp
      ultimately show ?thesis using further ph by (simp add: bidding_inv_def auction_left_def moves_left_def)
    qed
  next
    assume mt: "mt = MovePass"
    obtain p where p: "player_at g (CurrentTurn g) = Inr p"
      "ApplyMove e g uid MovePass pl = bindE (apply_pass e g p) (\<lambda>g'. Inr (touch e g'))"
      using accepted_pass [OF inv v [unfolded mt]] by metis
    obtain rest where r: "the_ring g = CurrentTurn g # rest" using auction_ring [OF auc] by metis
    show ?thesis
      using inv p(1)
    proof (cases rule: apply_pass_ok [where e = e])
      case (redeal k)
      with r mt nt ph show ?thesis by (simp add: thrown_in_def)
    next
      case (settled k b)
      then have "g' = touch e k" "Status g' = PhaseExchanging"
        using p(2) a mt by (auto simp: exchanging_inv_def)
      then show ?thesis using ph pos by (simp add: moves_left_def)
    next
      case (further k)
      moreover have "g' = touch e k" using p(2) a mt further(1) by simp
      ultimately show ?thesis using ph r by (simp add: bidding_inv_def auction_left_def moves_left_def)
    qed
  qed
qed

lemma deal_move_left:
  assumes inv: "round_inv h g" and v: "ValidateMove g uid mt pl = None"
    and a: "ApplyMove e g uid mt pl = Inr g'" and nt: "\<not> thrown_in g mt"
    and ph: "Status g \<noteq> PhaseFinished"
  shows "moves_left g' < moves_left g"
proof (cases "Status g")
  case PhaseWaiting
  then have False
    using accepted_phase [OF v] not_other [OF v]
    by (cases mt) auto
  then show ?thesis ..
next
  case PhaseBidding
  then have "bidding_inv g" using inv by (simp add: round_inv_def)
  then show ?thesis using v a nt by (rule bidding_move_left)
next
  case PhaseExchanging
  then have i: "exchanging_inv g" using inv by (simp add: round_inv_def)
  have mt: "mt = MoveDiscard"
    using accepted_phase [OF v] not_other [OF v] PhaseExchanging
    by (cases mt) auto
  obtain cards p where "ApplyMove e g uid MoveDiscard pl = Inr (touch e (apply_discard g (Declarer g) p cards))"
    using accepted_discard [OF i v [unfolded mt]] by metis
  then have "Status g' = PhaseCalling" using a mt by (auto simp: apply_discard_def Let_def)
  then show ?thesis using PhaseExchanging by (simp add: moves_left_def)
next
  case PhaseCalling
  then have i: "calling_inv h g" using inv by (simp add: round_inv_def)
  have mt: "mt = MoveCallPartner"
    using accepted_phase [OF v] not_other [OF v] PhaseCalling
    by (cases mt) auto
  obtain m where "ApplyMove e g uid MoveCallPartner pl = Inr (touch e (apply_call_partner g m))"
    using accepted_call [OF i v [unfolded mt]] by metis
  then have g': "g' = touch e (apply_call_partner g m)" using a mt by simp
  have c: "playing_core h (apply_call_partner g m)"
    using apply_call_partner_ok(1) [OF i, of m] by (simp add: playing_inv_def)
  then have "Status g' = PhasePlaying" "size (all_hands g') \<le> 52"
    using playing_cards_bound [OF c] by (simp_all add: g' playing_core_def)
  then show ?thesis using PhaseCalling by (simp add: moves_left_def)
next
  case PhasePlaying
  then have i: "playing_inv h g" "PlayAgainVotes g = []" "h \<longrightarrow> spare g" using inv by (auto simp: round_inv_def)
  have mt: "mt = MovePlayCard"
    using accepted_phase [OF v] not_other [OF v] PhasePlaying
    by (cases mt) auto
  obtain m p where p: "asPlayCardMove pl = Some m" "player_at g (CurrentTurn g) = Inr p" "pID p = uid"
    "pmCard m \<in> set (Hand p)" "check_forced g p (last (Tricks g)) (pmCard m) = None"
    "if tCards (last (Tricks g)) = [] then check_lead g p m = None
     else check_follow g p (last (Tricks g)) m = None"
    "ApplyMove e g uid MovePlayCard pl =
       bindE (apply_play_card g (CurrentTurn g) p m) (\<lambda>g'. Inr (touch e g'))"
    by (rule accepted_play [OF i(1) v [unfolded mt]])
  have pos: "0 < size (all_hands g)"
  proof -
    have "0 \<le> CurrentTurn g" "CurrentTurn g < numSeats g" using playing_turn [OF i(1)] by metis+
    then have "mset (Hand p) \<subseteq># all_hands g" using hand_subset_all hand_of_player [OF p(2)] by metis
    then show ?thesis using p(4) by (metis empty_iff mset_subset_eqD nonempty_has_size set_mset_empty set_mset_mset)
  qed
  show ?thesis
    using i(1) p(2,4,5,6) i(2,3)
  proof (cases rule: apply_play_card_ok)
    case (further k)
    moreover have "g' = touch e k" using p(7) a mt further(1) by simp
    ultimately show ?thesis
      using PhasePlaying by (simp add: moves_left_def playing_inv_def playing_core_def)
  next
    case (finished k)
    moreover have "g' = touch e (finish_round k)" using p(7) a mt finished(1) by simp
    ultimately show ?thesis using PhasePlaying pos by (simp add: moves_left_def)
  qed
next
  case PhaseFinished
  with ph show ?thesis by simp
qed

end
