(* ===== verification/Program.thy ===== *)
theory Program
  imports Lobby
begin

text \<open>
  The effects of the service layer. A Go function that talks to Redis, Postgres, the clock or the
  random generator is a tree of commands: \<open>Return\<close> is its result, \<open>Call c k\<close> issues the command \<open>c\<close>
  and goes on with \<open>k r\<close> once the reply \<open>r\<close> is there. The Go code is sequential between two
  commands, so a tree is all that other requests can observe of a handler, and running several
  handlers is interleaving their commands.
\<close>

section \<open>Errors of the service layer\<close>

text \<open>
  \<open>Wrapped\<close> is \<^verbatim>\<open>fmt.Errorf("...: %w", err)\<close>, \<open>GameErr\<close> an error of the rules, \<open>External\<close> an error of a
  library, a server or a cancelled context.
\<close>

datatype SvcErr = ErrLockFailed | ErrStaleVersion | ErrGameBusy | ErrGameNotFound | ErrGameFull
  | ErrRedisStoreNotInitialized | ErrInvalidToken | GameErr Err | External string
  | Wrapped string SvcErr

text \<open>\<^verbatim>\<open>errors.Is\<close> follows the chain of wrapped errors.\<close>

primrec errors_is :: "SvcErr \<Rightarrow> SvcErr \<Rightarrow> bool" where
  "errors_is ErrLockFailed t \<longleftrightarrow> t = ErrLockFailed"
| "errors_is ErrStaleVersion t \<longleftrightarrow> t = ErrStaleVersion"
| "errors_is ErrGameBusy t \<longleftrightarrow> t = ErrGameBusy"
| "errors_is ErrGameNotFound t \<longleftrightarrow> t = ErrGameNotFound"
| "errors_is ErrGameFull t \<longleftrightarrow> t = ErrGameFull"
| "errors_is ErrRedisStoreNotInitialized t \<longleftrightarrow> t = ErrRedisStoreNotInitialized"
| "errors_is ErrInvalidToken t \<longleftrightarrow> t = ErrInvalidToken"
| "errors_is (GameErr e) t \<longleftrightarrow> t = GameErr e"
| "errors_is (External s) t \<longleftrightarrow> t = External s"
| "errors_is (Wrapped s e) t \<longleftrightarrow> t = Wrapped s e \<or> errors_is e t"

section \<open>Commands and replies\<close>

text \<open>What is published on a game's channel (the map literals of game_service.go).\<close>

datatype event =
    PlayerJoined "Player option" "64 word"
  | MoveMade MoveType string payload "64 word" Game

text \<open>A row of the \<^verbatim>\<open>moves\<close> ledger and a row of the \<^verbatim>\<open>games\<close> table.\<close>

datatype ledger_payload = JoinName string | MovePayload payload

record move_row =
  mGame :: string
  mPlayer :: string
  mSeat :: int
  mVersion :: "64 word"
  mClientVersion :: "64 word"
  mType :: MoveType
  mPayload :: ledger_payload

record game_row =
  grID :: string
  grStatus :: Phase
  grVersion :: "64 word"
  grCreated :: int

text \<open>
  A value in Redis is a text or a stored game. A stored game is the JSON document of \<^verbatim>\<open>json.Marshal\<close>;
  every field of the struct survives marshalling and unmarshalling except \<^verbatim>\<open>Deck\<close>, which is tagged
  \<^verbatim>\<open>json:"-"\<close>.
\<close>

datatype rval = RText string | RDoc Game

definition marshal :: "Game \<Rightarrow> rval" where
  "marshal g = RDoc (g\<lparr>Deck := []\<rparr>)"

datatype cmd =
    EvalSave string string rval string string int
      \<comment> \<open>saveScript: state key, version key, document, new version, expected version, PX\<close>
  | Get string
  | SetNX string string int
      \<comment> \<open>key, value, expiration in milliseconds\<close>
  | EvalRelease string string
      \<comment> \<open>releaseScript: lock key, token\<close>
  | Publish string event
  | RandBytes
  | Sleep int
  | ReadEnv
      \<comment> \<open>\<^verbatim>\<open>time.Now()\<close> and the draws of the shuffle\<close>
  | InsertGame game_row
  | InsertMove move_row
  | SelectGames Phase

datatype reply = Failed string | Nil | Value rval | Number int | Flag bool | Done | Bytes string
  | EnvIs Env | Ids "string list"

section \<open>Programs\<close>

datatype 'a prog = Return 'a | Call cmd "reply \<Rightarrow> 'a prog"

primrec bindP :: "'a prog \<Rightarrow> ('a \<Rightarrow> 'b prog) \<Rightarrow> 'b prog" where
  "bindP (Return x) f = f x"
| "bindP (Call c k) f = Call c (\<lambda>r. bindP (k r) f)"

lemma bindP_Return [simp]: "bindP p Return = p"
  by (induction p) auto

lemma bindP_assoc: "bindP (bindP p f) g = bindP p (\<lambda>x. bindP (f x) g)"
  by (induction p) auto

text \<open>A reply that is an error ends the function with that error; any other reply goes on.\<close>

definition issue :: "cmd \<Rightarrow> (reply \<Rightarrow> (SvcErr + 'a) prog) \<Rightarrow> (SvcErr + 'a) prog" where
  "issue c k = Call c (\<lambda>r. case r of Failed s \<Rightarrow> Return (Inl (External s)) | _ \<Rightarrow> k r)"

text \<open>The clock and the random draws of a function are read once, when it first needs them.\<close>

definition with_env :: "(Env \<Rightarrow> (SvcErr + 'a) prog) \<Rightarrow> (SvcErr + 'a) prog" where
  "with_env k =
     Call ReadEnv (\<lambda>r. case r of EnvIs e \<Rightarrow> k e | _ \<Rightarrow> Return (Inl (External ''no clock'')))"

text \<open>
  \<open>commands n p\<close>: whatever the replies, \<open>p\<close> returns after at most \<open>n\<close> commands. \<open>sleeps ms p\<close>: and it
  sleeps for at most \<open>ms\<close> milliseconds in all.
\<close>

primrec commands :: "'a prog \<Rightarrow> nat \<Rightarrow> bool" where
  "commands (Return x) n = True"
| "commands (Call c k) n = (0 < n \<and> (\<forall>r. commands (k r) (n - 1)))"

definition sleep_of :: "cmd \<Rightarrow> int" where
  "sleep_of c = (case c of Sleep ms \<Rightarrow> ms | _ \<Rightarrow> 0)"

primrec sleeps :: "'a prog \<Rightarrow> int \<Rightarrow> bool" where
  "sleeps (Return x) ms = (0 \<le> ms)"
| "sleeps (Call c k) ms = (0 \<le> ms \<and> (\<forall>r. sleeps (k r) (ms - sleep_of c)))"

lemma sleep_of_simps [simp]:
  "sleep_of (Sleep ms) = ms" "sleep_of (Get k) = 0" "sleep_of (SetNX k v x) = 0"
  "sleep_of (EvalSave a b d v w t) = 0" "sleep_of (EvalRelease k v) = 0" "sleep_of (Publish k ev) = 0"
  "sleep_of RandBytes = 0" "sleep_of ReadEnv = 0" "sleep_of (InsertGame gr) = 0"
  "sleep_of (InsertMove mr) = 0" "sleep_of (SelectGames st) = 0"
  by (simp_all add: sleep_of_def)

lemma commands_mono: "commands p m \<Longrightarrow> m \<le> n \<Longrightarrow> commands p n"
proof (induction p arbitrary: m n)
  case (Call c k)
  have "commands (k r) (n - 1)" for r
    by (rule Call.IH [of "k r" "m - 1"]) (use Call.prems in auto)
  then show ?case using Call.prems by simp
qed simp

lemma commands_bindP:
  assumes "commands p m" "\<And>x. commands (f x) n"
  shows "commands (bindP p f) (m + n)"
  using assms(1)
proof (induction p arbitrary: m)
  case (Return x)
  show ?case using commands_mono [OF assms(2), of "m + n" x] by simp
next
  case (Call c k)
  have "commands (bindP (k r) f) (m - 1 + n)" for r
    by (rule Call.IH) (use Call.prems in simp_all)
  moreover have "m - 1 + n = m + n - 1" using Call.prems by simp
  ultimately show ?case using Call.prems by simp
qed

lemma sleeps_nonneg: "sleeps p ms \<Longrightarrow> 0 \<le> ms"
  by (cases p) simp_all

lemma sleeps_mono: "sleeps p a \<Longrightarrow> a \<le> b \<Longrightarrow> sleeps p b"
proof (induction p arbitrary: a b)
  case (Call c k)
  have "sleeps (k r) (b - sleep_of c)" for r
    by (rule Call.IH [of "k r" "a - sleep_of c"]) (use Call.prems in auto)
  then show ?case using Call.prems by simp
qed simp

lemma sleeps_bindP:
  assumes "sleeps p a" "\<And>x. sleeps (f x) b"
  shows "sleeps (bindP p f) (a + b)"
  using assms(1)
proof (induction p arbitrary: a)
  case (Return x)
  show ?case using sleeps_mono [OF assms(2), of "a + b" x] Return by simp
next
  case (Call c k)
  have "sleeps (bindP (k r) f) (a - sleep_of c + b)" for r
    by (rule Call.IH) (use Call.prems in simp_all)
  moreover have "a - sleep_of c + b = a + b - sleep_of c" by simp
  moreover have "0 \<le> a + b" using Call.prems sleeps_nonneg [OF assms(2)] by simp
  ultimately show ?case by simp
qed

end
