(* ===== verification/Redis.thy ===== *)
theory Redis
  imports Program "HOL-Library.Sublist"
begin

text \<open>
  internal/store/redis/redis.go: the hot store. First what the code uses of a Redis server (strings
  with an expiry, \<^verbatim>\<open>GET\<close>, \<^verbatim>\<open>SET ... PX\<close>, \<^verbatim>\<open>SET ... NX PX\<close>, \<^verbatim>\<open>DEL\<close>, and scripts, which run atomically at
  one instant), then the two Lua scripts of the file, then the operations of \<^verbatim>\<open>Store\<close> as programs.
  The interface the service relies on is the locale \<open>cas_store\<close>.
\<close>

section \<open>The server\<close>

text \<open>A key maps to its value and the instant (in milliseconds) at which it expires.\<close>

type_synonym keyspace = "string \<Rightarrow> (rval \<times> int) option"

definition GET :: "int \<Rightarrow> keyspace \<Rightarrow> string \<Rightarrow> rval option" where
  "GET t m key =
     (case m key of None \<Rightarrow> None | Some (v, expires) \<Rightarrow> if t < expires then Some v else None)"

definition SET_PX :: "int \<Rightarrow> string \<Rightarrow> rval \<Rightarrow> int \<Rightarrow> keyspace \<Rightarrow> keyspace" where
  "SET_PX t key v px m = m(key := Some (v, t + px))"

definition SET_NX :: "int \<Rightarrow> string \<Rightarrow> rval \<Rightarrow> int \<Rightarrow> keyspace \<Rightarrow> bool \<times> keyspace" where
  "SET_NX t key v px m =
     (if GET t m key = None then (True, SET_PX t key v px m) else (False, m))"

definition DEL :: "string \<Rightarrow> keyspace \<Rightarrow> keyspace" where
  "DEL key m = m(key := None)"

text \<open>
  The compare-and-swap script. A missing key is Lua's \<^verbatim>\<open>false\<close>; stored versions are texts, and the
  comparison is one of texts.
\<close>

definition saveScript ::
  "int \<Rightarrow> string \<Rightarrow> string \<Rightarrow> rval \<Rightarrow> string \<Rightarrow> string \<Rightarrow> int \<Rightarrow> keyspace \<Rightarrow> int \<times> keyspace" where
  "saveScript t key1 key2 doc version expected ttl m =
     (let cur = GET t m key2
      in if (cur = None \<and> expected = ''0'') \<or> cur = Some (RText expected)
         then (1, SET_PX t key2 (RText version) ttl (SET_PX t key1 doc ttl m))
         else (0, m))"

definition releaseScript :: "int \<Rightarrow> string \<Rightarrow> string \<Rightarrow> keyspace \<Rightarrow> int \<times> keyspace" where
  "releaseScript t key token m =
     (if GET t m key = Some (RText token) then (1, DEL key m) else (0, m))"

section \<open>The operations of Store\<close>

definition Key :: "string \<Rightarrow> string" where
  "Key gameID = ''game:'' @ gameID"

abbreviation state_key :: "string \<Rightarrow> string" where "state_key gid \<equiv> Key gid @ '':state''"
abbreviation version_key :: "string \<Rightarrow> string" where "version_key gid \<equiv> Key gid @ '':version''"
abbreviation lock_key :: "string \<Rightarrow> string" where "lock_key gid \<equiv> Key gid @ '':lock''"
abbreviation events_channel :: "string \<Rightarrow> string" where "events_channel gid \<equiv> Key gid @ '':events''"

text \<open>\<^verbatim>\<open>strconv.FormatInt(v, 10)\<close>.\<close>

definition FormatInt :: "64 word \<Rightarrow> string" where
  "FormatInt v = (if sint v < 0 then CHR ''-'' # itoa (nat (- sint v)) else itoa (nat (sint v)))"

definition ttlMillis :: int where
  "ttlMillis = 24 * 60 * 60 * 1000"

text \<open>\<open>None\<close> is a nil error. The script's reply is converted with \<^verbatim>\<open>Int()\<close>.\<close>

definition SaveGame :: "Game \<Rightarrow> 64 word \<Rightarrow> SvcErr option prog" where
  "SaveGame g expectedVersion =
     Call (EvalSave (state_key (gID g)) (version_key (gID g)) (marshal g)
             (FormatInt (Version g)) (FormatInt expectedVersion) ttlMillis)
       (\<lambda>r. case r of
          Failed s \<Rightarrow> Return (Some (External s))
        | Number n \<Rightarrow> Return (if n = 0 then Some ErrStaleVersion else None)
        | _ \<Rightarrow> Return (Some (External ''unexpected reply type'')))"

text \<open>A missing key is a nil game without an error.\<close>

definition LoadGame :: "string \<Rightarrow> (SvcErr + Game option) prog" where
  "LoadGame gameID =
     Call (Get (state_key gameID))
       (\<lambda>r. case r of
          Failed s \<Rightarrow> Return (Inl (External s))
        | Nil \<Rightarrow> Return (Inr None)
        | Value (RDoc g) \<Rightarrow> Return (Inr (Some g))
        | _ \<Rightarrow> Return (Inl (External ''cannot unmarshal'')))"

definition lockBackoff :: "int list" where
  "lockBackoff = [50, 100, 200]"

text \<open>
  The loop of \<^verbatim>\<open>AcquireLock\<close>: the list holds the waits that are left, and it is empty when
  \<^verbatim>\<open>attempt >= len(lockBackoff)\<close>. A failed \<^verbatim>\<open>Sleep\<close> is a context that is done.
\<close>

fun lock_loop :: "string \<Rightarrow> string \<Rightarrow> int list \<Rightarrow> (SvcErr + string) prog" where
  "lock_loop key candidate waits =
     issue (SetNX key candidate 5000)
       (\<lambda>r. if r = Flag True then Return (Inr candidate)
            else case waits of
                [] \<Rightarrow> Return (Inl ErrLockFailed)
              | wait # rest \<Rightarrow> issue (Sleep wait) (\<lambda>_. lock_loop key candidate rest))"

declare lock_loop.simps [simp del]

definition AcquireLock :: "string \<Rightarrow> (SvcErr + string) prog" where
  "AcquireLock gameID =
     issue RandBytes
       (\<lambda>r. case r of
          Bytes candidate \<Rightarrow> lock_loop (lock_key gameID) candidate lockBackoff
        | _ \<Rightarrow> Return (Inl (External ''unexpected reply type'')))"

definition ReleaseLock :: "string \<Rightarrow> string \<Rightarrow> SvcErr option prog" where
  "ReleaseLock gameID token =
     Call (EvalRelease (lock_key gameID) token)
       (\<lambda>r. Return (case r of Failed s \<Rightarrow> Some (External s) | _ \<Rightarrow> None))"

definition PublishEvent :: "string \<Rightarrow> event \<Rightarrow> SvcErr option prog" where
  "PublishEvent gameID ev =
     Call (Publish (events_channel gameID) ev)
       (\<lambda>r. Return (case r of Failed s \<Rightarrow> Some (External s) | _ \<Rightarrow> None))"

section \<open>The world the commands act on\<close>

record world =
  kv :: keyspace
  clock :: int
  gameRows :: "game_row list"
  moveRows :: "move_row list"
  published :: "(string \<times> event) list"

text \<open>
  What the surroundings decide about one command: whether the request or its reply is lost on the
  way, the random token, the time and the shuffle. A lost reply is an error for the caller although
  the command took effect.
\<close>

datatype net = Delivered | LostRequest | LostReply

record choice =
  ch_net :: net
  ch_error :: string
  ch_token :: string
  ch_env :: Env

text \<open>
  \<^verbatim>\<open>games.id\<close> is the primary key of its table, so a second insert of an ID fails.
\<close>

definition effect :: "choice \<Rightarrow> cmd \<Rightarrow> world \<Rightarrow> reply \<times> world" where
  "effect ch c w =
     (case c of
        EvalSave k1 k2 doc ver expv ttl \<Rightarrow>
          (let (n, m) = saveScript (clock w) k1 k2 doc ver expv ttl (kv w)
           in (Number n, w\<lparr>kv := m\<rparr>))
      | Get k \<Rightarrow> ((case GET (clock w) (kv w) k of None \<Rightarrow> Nil | Some v \<Rightarrow> Value v), w)
      | SetNX k v px \<Rightarrow>
          (let (ok, m) = SET_NX (clock w) k (RText v) px (kv w) in (Flag ok, w\<lparr>kv := m\<rparr>))
      | EvalRelease k tok \<Rightarrow>
          (let (n, m) = releaseScript (clock w) k tok (kv w) in (Number n, w\<lparr>kv := m\<rparr>))
      | Publish chn ev \<Rightarrow> (Number 0, w\<lparr>published := published w @ [(chn, ev)]\<rparr>)
      | RandBytes \<Rightarrow> (Bytes (ch_token ch), w)
      | Sleep ms \<Rightarrow> (Done, w\<lparr>clock := clock w + ms\<rparr>)
      | ReadEnv \<Rightarrow> (EnvIs (ch_env ch), w)
      | InsertGame row \<Rightarrow>
          (if grID row \<in> set (map grID (gameRows w)) then (Failed ''duplicate key'', w)
           else (Done, w\<lparr>gameRows := gameRows w @ [row]\<rparr>))
      | InsertMove row \<Rightarrow> (Done, w\<lparr>moveRows := moveRows w @ [row]\<rparr>)
      | SelectGames st \<Rightarrow>
          (Ids (take 50 (map grID (sort_key (\<lambda>row. - grCreated row)
             (filter (\<lambda>row. grStatus row = st) (gameRows w))))), w))"

definition exec :: "choice \<Rightarrow> cmd \<Rightarrow> world \<Rightarrow> reply \<times> world" where
  "exec ch c w =
     (case ch_net ch of
        Delivered \<Rightarrow> effect ch c w
      | LostRequest \<Rightarrow> (Failed (ch_error ch), w)
      | LostReply \<Rightarrow> (Failed (ch_error ch), snd (effect ch c w)))"

text \<open>A program that runs alone, under the same choice throughout.\<close>

primrec run :: "choice \<Rightarrow> 'a prog \<Rightarrow> world \<Rightarrow> 'a \<times> world" where
  "run ch (Return x) w = (x, w)"
| "run ch (Call c k) w = (let (r, w') = exec ch c w in run ch (k r) w')"

lemma run_bindP: "run ch (bindP p f) w = (let (x, w') = run ch p w in run ch (f x) w')"
  by (induction p arbitrary: w) (auto simp: case_prod_beta Let_def)

section \<open>Decimal texts are injective\<close>

definition digits_value :: "string \<Rightarrow> nat" where
  "digits_value = foldl (\<lambda>a c. 10 * a + (of_char c - 48)) 0"

lemma digits_value_itoa: "digits_value (itoa n) = n"
proof (induction n rule: itoa.induct)
  case (1 n)
  show ?case
  proof (cases "n < 10")
    case True
    then show ?thesis by (simp add: digits_value_def)
  next
    case False
    have "(of_char (char_of (48 + n mod 10) :: char) :: nat) = 48 + n mod 10"
      using pos_mod_bound by (simp add: of_char_of)
    with False 1 show ?thesis
      by (subst itoa.simps) (simp add: digits_value_def)
  qed
qed

lemma itoa_inj: "itoa m = itoa n \<longleftrightarrow> m = n"
  by (metis digits_value_itoa)

lemma itoa_no_minus: "CHR ''-'' \<notin> set (itoa n)"
proof (induction n rule: itoa.induct)
  case (1 n)
  have d: "CHR ''-'' \<noteq> char_of (48 + k)" if "k < 10" for k :: nat
  proof
    assume "CHR ''-'' = char_of (48 + k)"
    then have "(of_char (CHR ''-'') :: nat) = of_char (char_of (48 + k) :: char)" by simp
    then show False using that by (simp add: of_char_of)
  qed
  show ?case
    by (subst itoa.simps) (use d [of n] d [of "n mod 10"] 1 in auto)
qed

lemma itoa_not_minus: "itoa m \<noteq> CHR ''-'' # s"
  using itoa_no_minus [of m] by (metis list.set_intros(1))

lemma FormatInt_inj: "FormatInt v = FormatInt w \<longleftrightarrow> v = w"
proof
  assume "FormatInt v = FormatInt w"
  then have "sint v = sint w"
    using itoa_not_minus itoa_not_minus [symmetric]
    by (auto simp: FormatInt_def itoa_inj split: if_splits)
  then show "v = w" by (rule signed_word_eqI)
qed simp

lemma FormatInt_0 [simp]: "FormatInt 0 = ''0''"
  by (simp add: FormatInt_def) code_simp

section \<open>Keys\<close>

text \<open>The keys of one game are different, and different games have different keys.\<close>

lemma keys_differ [simp]:
  "state_key g \<noteq> version_key h" "version_key h \<noteq> state_key g"
  "state_key g \<noteq> lock_key h" "lock_key h \<noteq> state_key g"
  "version_key g \<noteq> lock_key h" "lock_key h \<noteq> version_key g"
proof -
  have last: "last (a @ s) = last s" if "s \<noteq> []" for a s :: string using that by simp
  have "state_key g = version_key h \<Longrightarrow> False" "state_key g = lock_key h \<Longrightarrow> False"
    "version_key g = lock_key h \<Longrightarrow> False" for g h
    by (drule arg_cong [where f = last], simp add: last)+
  then show "state_key g \<noteq> version_key h" "version_key h \<noteq> state_key g"
    "state_key g \<noteq> lock_key h" "lock_key h \<noteq> state_key g"
    "version_key g \<noteq> lock_key h" "lock_key h \<noteq> version_key g" by metis+
qed

lemma Key_inj: "Key g = Key h \<longleftrightarrow> g = h"
  by (simp add: Key_def)

section \<open>The interface: a versioned cell\<close>

text \<open>
  What the service relies on: a cell holds the history of the values written to it (only the last one
  is stored, and it may expire), a load returns the last value or nothing, and a save that succeeds
  was made against the version of the last value.
\<close>

locale versioned_cell =
  fixes holds :: "'s \<Rightarrow> 'g list \<Rightarrow> bool"
    and load :: "'t \<Rightarrow> 's \<Rightarrow> 'g option"
    and save :: "'t \<Rightarrow> 'v \<Rightarrow> 'g \<Rightarrow> 's \<Rightarrow> bool \<times> 's"
    and ver :: "'g \<Rightarrow> 'v"
    and none :: 'v
    and proper :: "'g \<Rightarrow> bool"
  assumes load_last: "holds s H \<Longrightarrow> load t s = Some g \<Longrightarrow> H \<noteq> [] \<and> g = last H"
    and save_refused: "save t v g s = (False, s') \<Longrightarrow> s' = s"
    and save_done: "holds s H \<Longrightarrow> proper g \<Longrightarrow> save t v g s = (True, s') \<Longrightarrow>
      (if H = [] then v = none else v = none \<or> v = ver (last H)) \<and> holds s' (H @ [g])"
    and save_fresh: "holds s [] \<Longrightarrow> fst (save t none g s)"
begin

lemma save_extends:
  assumes "holds s H" "proper g" "v \<noteq> none" "save t v g s = (ok, s')"
  shows "holds s' (if ok then H @ [g] else H)" "ok \<Longrightarrow> H \<noteq> [] \<and> v = ver (last H)"
  using assms save_refused [of t v g s s'] save_done [OF assms(1,2), of t v s']
  by (cases ok; auto split: if_splits)+

text \<open>Of two writers that loaded the same version only the first one gets through.\<close>

lemma only_one_writer:
  assumes "holds s H" "proper g" "proper g'" "v \<noteq> none" "ver g \<noteq> v"
    and "save t v g s = (True, s1)"
  shows "\<not> fst (save t' v g' s1)"
proof
  assume "fst (save t' v g' s1)"
  then obtain s2 where s2: "save t' v g' s1 = (True, s2)" by (metis eq_fst_iff)
  have "holds s1 (H @ [g])" using save_extends [OF assms(1,2,4,6)] by simp
  from save_done [OF this assms(3) s2] show False using assms(4,5) by simp
qed

end

definition cell_holds :: "string \<Rightarrow> keyspace \<Rightarrow> Game list \<Rightarrow> bool" where
  "cell_holds gid m H \<longleftrightarrow>
     (if H = [] then m (state_key gid) = None \<and> m (version_key gid) = None
      else \<exists>x. m (state_key gid) = Some (RDoc (last H), x) \<and>
        m (version_key gid) = Some (RText (FormatInt (Version (last H))), x))"

definition cell_load :: "string \<Rightarrow> int \<Rightarrow> keyspace \<Rightarrow> Game option" where
  "cell_load gid t m = (case GET t m (state_key gid) of Some (RDoc g) \<Rightarrow> Some g | _ \<Rightarrow> None)"

definition cell_save :: "string \<Rightarrow> int \<Rightarrow> 64 word \<Rightarrow> Game \<Rightarrow> keyspace \<Rightarrow> bool \<times> keyspace" where
  "cell_save gid t expectedVersion g m =
     (let (n, m') = saveScript t (state_key gid) (version_key gid) (marshal g)
                      (FormatInt (Version g)) (FormatInt expectedVersion) ttlMillis m
      in (n = 1, m'))"

definition no_deck :: "Game \<Rightarrow> bool" where
  "no_deck g \<longleftrightarrow> Deck g = []"

lemma marshal_no_deck: "no_deck g \<Longrightarrow> marshal g = RDoc g"
  by (cases g) (simp add: marshal_def no_deck_def)

lemma GET_Some: "GET t m k = Some v \<longleftrightarrow> (\<exists>x. m k = Some (v, x) \<and> t < x)"
  by (auto simp: GET_def split: option.splits if_splits)

interpretation cell: versioned_cell "cell_holds gid" "cell_load gid" "cell_save gid" Version 0 no_deck
  for gid
proof unfold_locales
  fix s H t g
  assume h: "cell_holds gid s H" and l: "cell_load gid t s = Some g"
  have "GET t s (state_key gid) = Some (RDoc g)"
    using l by (auto simp: cell_load_def split: option.splits rval.splits)
  with h show "H \<noteq> [] \<and> g = last H" by (auto simp: cell_holds_def GET_Some split: if_splits)
next
  fix t v g s s'
  show "s' = s" if "cell_save gid t v g s = (False, s')"
    using that by (auto simp: cell_save_def saveScript_def Let_def split: if_splits)
next
  fix s H g t v s'
  assume h: "cell_holds gid s H" and g: "no_deck g" and sv: "cell_save gid t v g s = (True, s')"
  let ?x = "t + ttlMillis"
  have c: "(GET t s (version_key gid) = None \<and> FormatInt v = ''0'') \<or>
      GET t s (version_key gid) = Some (RText (FormatInt v))"
    and s': "s' = SET_PX t (version_key gid) (RText (FormatInt (Version g))) ttlMillis
        (SET_PX t (state_key gid) (RDoc g) ttlMillis s)"
    using sv marshal_no_deck [OF g] by (auto simp: cell_save_def saveScript_def Let_def split: if_splits)
  have z: "FormatInt v = ''0'' \<longleftrightarrow> v = 0" using FormatInt_inj [of v 0] by simp
  have "if H = [] then v = 0 else v = 0 \<or> v = Version (last H)"
    using c h z by (auto simp: cell_holds_def GET_Some FormatInt_inj split: if_splits)
  moreover have "cell_holds gid s' (H @ [g])" by (simp add: cell_holds_def s' SET_PX_def)
  ultimately show "(if H = [] then v = 0 else v = 0 \<or> v = Version (last H)) \<and> cell_holds gid s' (H @ [g])"
    by blast
next
  fix s t g
  show "fst (cell_save gid t 0 g s)" if "cell_holds gid s []"
    using that by (simp add: cell_save_def saveScript_def cell_holds_def GET_def)
qed

lemma cell_holds_frame:
  "m' (state_key gid) = m (state_key gid) \<Longrightarrow> m' (version_key gid) = m (version_key gid) \<Longrightarrow>
    cell_holds gid m' H = cell_holds gid m H"
  by (simp add: cell_holds_def)

end
