(* ===== verification/Service.thy ===== *)
theory Service
  imports Redis
begin

text \<open>
  internal/service/game_service.go and the game tables of internal/store/postgres/postgres.go: the
  handlers of the game service as programs over the store, the whole of each handler, in the order of
  the code.
\<close>

section \<open>The ledger (postgres.go)\<close>

definition pg_CreateGame :: "Game \<Rightarrow> SvcErr option prog" where
  "pg_CreateGame g =
     Call (InsertGame \<lparr>grID = gID g, grStatus = Status g, grVersion = Version g, grCreated = CreatedAt g\<rparr>)
       (\<lambda>r. Return (case r of Failed s \<Rightarrow> Some (External s) | _ \<Rightarrow> None))"

definition pg_SaveMove ::
  "MoveType \<Rightarrow> string \<Rightarrow> int \<Rightarrow> 64 word \<Rightarrow> 64 word \<Rightarrow> ledger_payload \<Rightarrow> string \<Rightarrow> SvcErr option prog" where
  "pg_SaveMove moveType playerID seat version clientVersion pl gameID =
     Call (InsertMove \<lparr>mGame = gameID, mPlayer = playerID, mSeat = seat, mVersion = version,
                       mClientVersion = clientVersion, mType = moveType, mPayload = pl\<rparr>)
       (\<lambda>r. Return (case r of Failed s \<Rightarrow> Some (External s) | _ \<Rightarrow> None))"

text \<open>The update of a game's row, as a function on the table; no request issues it.\<close>

definition pg_UpdateGameStatus :: "string \<Rightarrow> Phase \<Rightarrow> 64 word \<Rightarrow> game_row list \<Rightarrow> game_row list" where
  "pg_UpdateGameStatus gid status version =
     map (\<lambda>row. if grID row = gid then row\<lparr>grStatus := status, grVersion := version\<rparr> else row)"

definition pg_ListGamesByStatus :: "Phase \<Rightarrow> (SvcErr + string list) prog" where
  "pg_ListGamesByStatus status =
     Call (SelectGames status)
       (\<lambda>r. Return (case r of Failed s \<Rightarrow> Inl (External s) | Ids ids \<Rightarrow> Inr ids
                     | _ \<Rightarrow> Inl (External ''unexpected reply type'')))"

section \<open>Locking\<close>

text \<open>
  \<^verbatim>\<open>withGameLock\<close> and the \<^verbatim>\<open>defer release()\<close> of its callers: the body runs under the lock, and the
  lock is released whatever the body returns. The release ignores its own error, and it runs even
  when the request's context is done.
\<close>

definition withGameLock :: "string \<Rightarrow> (SvcErr + 'a) prog \<Rightarrow> (SvcErr + 'a) prog" where
  "withGameLock gameID body =
     bindP (AcquireLock gameID) (\<lambda>l. case l of
         Inl err \<Rightarrow>
           Return (Inl (if errors_is err ErrLockFailed then ErrGameBusy
                        else Wrapped ''failed to acquire lock'' err))
       | Inr token \<Rightarrow>
           bindP body (\<lambda>result. bindP (ReleaseLock gameID token) (\<lambda>_. Return result)))"

section \<open>The handlers\<close>

definition svc_CreateGame :: "string \<Rightarrow> GameConfig \<Rightarrow> (SvcErr + Game) prog" where
  "svc_CreateGame gid cfg =
     with_env (\<lambda>e.
       let g = NewWithConfig e gid cfg in
       bindP (pg_CreateGame g) (\<lambda>err. case err of
           Some x \<Rightarrow> Return (Inl (Wrapped ''failed to create game in db'' x))
         | None \<Rightarrow>
             bindP (SaveGame g 0) (\<lambda>err. case err of
                 Some x \<Rightarrow> Return (Inl (Wrapped ''failed to save game in redis'' x))
               | None \<Rightarrow> Return (Inr g))))"

text \<open>\<^verbatim>\<open>JoinGame\<close> after the game has been loaded: what a new player's seat leads to, and the whole.\<close>

definition commit_join ::
  "string \<Rightarrow> string \<Rightarrow> string \<Rightarrow> Game \<Rightarrow> int \<Rightarrow> Game \<Rightarrow> (SvcErr + Game) prog" where
  "commit_join gameID playerID playerName g seat g' =
     bindP (SaveGame g' (Version g)) (\<lambda>err. case err of
         Some x \<Rightarrow> Return (Inl x)
       | None \<Rightarrow>
           bindP (pg_SaveMove (OtherMove ''join'') playerID seat (Version g') (Version g' - 1)
                    (JoinName playerName) gameID) (\<lambda>err. case err of
               Some x \<Rightarrow> Return (Inl (Wrapped ''failed to save join move in db'' x))
             | None \<Rightarrow>
                 bindP (PublishEvent gameID (PlayerJoined (Players g' ! nat seat) (Version g')))
                   (\<lambda>_. Return (Inr g'))))"

definition join_loaded :: "string \<Rightarrow> string \<Rightarrow> string \<Rightarrow> Game \<Rightarrow> (SvcErr + Game) prog" where
  "join_loaded gameID playerID playerName g =
     with_env (\<lambda>e. case join_table e g playerID playerName of
         TableFull \<Rightarrow> Return (Inl ErrGameFull)
       | Rejoined g' \<Rightarrow>
           bindP (SaveGame g' (Version g)) (\<lambda>err. case err of
               Some x \<Rightarrow> Return (Inl x)
             | None \<Rightarrow> Return (Inr g'))
       | Seated seat g' \<Rightarrow> commit_join gameID playerID playerName g seat g')"

definition svc_JoinGame :: "string \<Rightarrow> string \<Rightarrow> string \<Rightarrow> (SvcErr + Game) prog" where
  "svc_JoinGame gameID playerID playerName =
     withGameLock gameID
       (bindP (LoadGame gameID) (\<lambda>l. case l of
            Inl err \<Rightarrow> Return (Inl (Wrapped ''failed to load game'' err))
          | Inr None \<Rightarrow> Return (Inl ErrGameNotFound)
          | Inr (Some g) \<Rightarrow> join_loaded gameID playerID playerName g))"

text \<open>The seat that goes into the ledger: the mover's, or -1 when there is no such player.\<close>

definition mover_seat :: "Game \<Rightarrow> string \<Rightarrow> int" where
  "mover_seat g playerID =
     (case GetPlayer g playerID of
        None \<Rightarrow> -1
      | Some i \<Rightarrow> (case player_at g i of Inl _ \<Rightarrow> -1 | Inr p \<Rightarrow> Seat p))"

definition commit_move ::
  "string \<Rightarrow> string \<Rightarrow> MoveType \<Rightarrow> payload \<Rightarrow> 64 word \<Rightarrow> Game \<Rightarrow> Game \<Rightarrow> (SvcErr + Game) prog" where
  "commit_move gameID playerID moveType pl clientVersion g g' =
     bindP (SaveGame g' (Version g)) (\<lambda>err. case err of
         Some x \<Rightarrow> Return (Inl x)
       | None \<Rightarrow>
           bindP (pg_SaveMove moveType playerID (mover_seat g' playerID) (Version g') clientVersion
                    (MovePayload pl) gameID) (\<lambda>err. case err of
               Some x \<Rightarrow> Return (Inl (Wrapped ''failed to save move in db'' x))
             | None \<Rightarrow>
                 bindP (PublishEvent gameID (MoveMade moveType playerID pl (Version g') g'))
                   (\<lambda>_. Return (Inr g'))))"

definition move_loaded ::
  "string \<Rightarrow> string \<Rightarrow> MoveType \<Rightarrow> payload \<Rightarrow> 64 word \<Rightarrow> Game \<Rightarrow> (SvcErr + Game) prog" where
  "move_loaded gameID playerID moveType pl clientVersion g =
     (if clientVersion \<noteq> Version g then Return (Inl ErrStaleVersion)
      else case ValidateMove g playerID moveType pl of
          Some err \<Rightarrow> Return (Inl (GameErr err))
        | None \<Rightarrow>
            with_env (\<lambda>e. case ApplyMove e g playerID moveType pl of
                Inl err \<Rightarrow> Return (Inl (GameErr err))
              | Inr g' \<Rightarrow> commit_move gameID playerID moveType pl clientVersion g g'))"

definition svc_ProcessMove ::
  "string \<Rightarrow> string \<Rightarrow> MoveType \<Rightarrow> payload \<Rightarrow> 64 word \<Rightarrow> (SvcErr + Game) prog" where
  "svc_ProcessMove gameID playerID moveType pl clientVersion =
     withGameLock gameID
       (bindP (LoadGame gameID) (\<lambda>l. case l of
            Inl err \<Rightarrow> Return (Inl err)
          | Inr None \<Rightarrow> Return (Inl ErrGameNotFound)
          | Inr (Some g) \<Rightarrow> move_loaded gameID playerID moveType pl clientVersion g))"

text \<open>
  The read operations. \<^verbatim>\<open>store\<close> is whether the Redis store was given to the service
  (\<^verbatim>\<open>s.redisStore == nil\<close> otherwise).
\<close>

definition svc_GetGame :: "bool \<Rightarrow> string \<Rightarrow> (SvcErr + Game option) prog" where
  "svc_GetGame store gameID =
     (if \<not> store then Return (Inl ErrRedisStoreNotInitialized) else LoadGame gameID)"

text \<open>The loop of \<^verbatim>\<open>ListGamesByStatus\<close>: unreadable, missing and differing games are skipped.\<close>

fun list_loop :: "Phase \<Rightarrow> string list \<Rightarrow> Game list \<Rightarrow> Game list prog" where
  "list_loop status [] games = Return games"
| "list_loop status (gid # ids) games =
     bindP (LoadGame gid) (\<lambda>l. case l of
         Inl err \<Rightarrow> list_loop status ids games
       | Inr None \<Rightarrow> list_loop status ids games
       | Inr (Some g) \<Rightarrow>
           list_loop status ids (if Status g = status then games @ [g] else games))"

definition svc_ListGamesByStatus :: "bool \<Rightarrow> Phase \<Rightarrow> (SvcErr + Game list) prog" where
  "svc_ListGamesByStatus store status =
     (if \<not> store then Return (Inl ErrRedisStoreNotInitialized)
      else bindP (pg_ListGamesByStatus status) (\<lambda>l. case l of
          Inl err \<Rightarrow> Return (Inl (Wrapped ''failed to list games from db'' err))
        | Inr ids \<Rightarrow> bindP (list_loop status ids []) (\<lambda>games. Return (Inr games))))"

section \<open>Every request comes to an end\<close>

lemma commands_lock_loop: "commands (lock_loop key cand waits) (2 * length waits + 1)"
proof (induction waits)
  case Nil
  show ?case by (subst lock_loop.simps) (auto simp: issue_def split: reply.split)
next
  case (Cons w ws)
  show ?case
    by (subst lock_loop.simps) (use Cons in \<open>auto simp: issue_def split: reply.split\<close>)
qed

lemma sleeps_lock_loop: "\<forall>w \<in> set waits. 0 \<le> w \<Longrightarrow> sleeps (lock_loop key cand waits) (sum_list waits)"
proof (induction waits)
  case Nil
  show ?case by (subst lock_loop.simps) (auto simp: issue_def split: reply.split)
next
  case (Cons w ws)
  then have "0 \<le> w" "0 \<le> sum_list ws" "sleeps (lock_loop key cand ws) (sum_list ws)"
    by (auto intro: sum_list_nonneg)
  then show ?case
    by (subst lock_loop.simps) (auto simp: issue_def split: reply.split)
qed

lemma commands_AcquireLock: "commands (AcquireLock gid) 8"
  using commands_lock_loop [of "lock_key gid" _ lockBackoff]
  by (auto simp: AcquireLock_def issue_def lockBackoff_def split: reply.split)

lemma sleeps_AcquireLock: "sleeps (AcquireLock gid) 350"
  using sleeps_lock_loop [of lockBackoff "lock_key gid"]
  by (auto simp: AcquireLock_def issue_def lockBackoff_def split: reply.split)

lemma leaf_commands:
  "commands (SaveGame g v) (Suc 0)" "commands (LoadGame gid) (Suc 0)" "commands (ReleaseLock gid tok) (Suc 0)"
  "commands (PublishEvent gid ev) (Suc 0)" "commands (pg_SaveMove mt uid s v cv lp gid) (Suc 0)" "commands (pg_CreateGame g) (Suc 0)"
  by (auto simp: SaveGame_def LoadGame_def ReleaseLock_def PublishEvent_def pg_SaveMove_def pg_CreateGame_def
      split: reply.split rval.split)

lemma leaf_sleeps:
  "sleeps (SaveGame g v) 0" "sleeps (LoadGame gid) 0" "sleeps (ReleaseLock gid tok) 0"
  "sleeps (PublishEvent gid ev) 0" "sleeps (pg_SaveMove mt uid s v cv lp gid) 0" "sleeps (pg_CreateGame g) 0"
  by (auto simp: SaveGame_def LoadGame_def ReleaseLock_def PublishEvent_def pg_SaveMove_def pg_CreateGame_def
      split: reply.split rval.split)

lemma bind_commands:
  "commands p m \<Longrightarrow> (\<And>x. commands (f x) n) \<Longrightarrow> m + n \<le> k \<Longrightarrow> commands (bindP p f) k"
  using commands_bindP commands_mono by blast

lemma step_commands:
  "commands p (Suc 0) \<Longrightarrow> 0 < n \<Longrightarrow> (\<And>x. commands (f x) (n - 1)) \<Longrightarrow> commands (bindP p f) n"
  by (rule bind_commands) auto

lemma bind_sleeps: "sleeps p a \<Longrightarrow> (\<And>x. sleeps (f x) b) \<Longrightarrow> a + b \<le> c \<Longrightarrow> sleeps (bindP p f) c"
  using sleeps_bindP sleeps_mono by blast

lemma commands_withGameLock:
  assumes "commands body n"
  shows "commands (withGameLock gid body) (9 + n)"
proof -
  have r: "commands (bindP (ReleaseLock gid t) (\<lambda>_. Return x)) 1" for t and x :: "SvcErr + 'a"
    by (rule step_commands) (simp_all add: leaf_commands)
  have "commands (bindP body (\<lambda>x. bindP (ReleaseLock gid t) (\<lambda>_. Return x))) (n + 1)" for t
    by (rule commands_bindP [OF assms r])
  then show ?thesis unfolding withGameLock_def
    by (intro bind_commands [where m = 8 and n = "n + 1"] commands_AcquireLock) (auto split: sum.split)
qed

lemma sleeps_withGameLock:
  assumes "sleeps body 0"
  shows "sleeps (withGameLock gid body) 350"
proof -
  have r: "sleeps (bindP (ReleaseLock gid t) (\<lambda>_. Return x)) 0" for t and x :: "SvcErr + 'a"
    by (rule bind_sleeps [where a = 0 and b = 0]) (simp_all add: leaf_sleeps)
  have "sleeps (bindP body (\<lambda>x. bindP (ReleaseLock gid t) (\<lambda>_. Return x))) 0" for t
    by (rule bind_sleeps [OF assms r]) simp
  then show ?thesis unfolding withGameLock_def
    by (intro bind_sleeps [where a = 350 and b = 0] sleeps_AcquireLock) (auto split: sum.split)
qed

lemma join_loaded_bounds: "commands (join_loaded gid uid name g) 4" "sleeps (join_loaded gid uid name g) 0"
proof -
  show "commands (join_loaded gid uid name g) 4"
    unfolding join_loaded_def commit_join_def with_env_def
    by (auto intro!: step_commands leaf_commands split: reply.split joined.split option.split)
  show "sleeps (join_loaded gid uid name g) 0"
    unfolding join_loaded_def commit_join_def with_env_def
    by (auto intro!: bind_sleeps [where a = 0 and b = 0] leaf_sleeps split: reply.split joined.split option.split)
qed

lemma move_loaded_bounds: "commands (move_loaded gid uid mt pl cv g) 4" "sleeps (move_loaded gid uid mt pl cv g) 0"
proof -
  show "commands (move_loaded gid uid mt pl cv g) 4"
    unfolding move_loaded_def commit_move_def with_env_def
    by (auto intro!: step_commands leaf_commands split: reply.split option.split sum.split)
  show "sleeps (move_loaded gid uid mt pl cv g) 0"
    unfolding move_loaded_def commit_move_def with_env_def
    by (auto intro!: bind_sleeps [where a = 0 and b = 0] leaf_sleeps split: reply.split option.split sum.split)
qed

lemma request_commands:
  "commands (svc_ProcessMove gid uid mt pl cv) 14" "commands (svc_JoinGame gid uid name) 14"
proof -
  have a: "commands (bindP (LoadGame gid) (\<lambda>l. case l of Inl err \<Rightarrow> Return (Inl (F err))
          | Inr None \<Rightarrow> Return (Inl ErrGameNotFound) | Inr (Some g) \<Rightarrow> body g)) 5"
    if "\<And>g. commands (body g) 4" for F and body :: "Game \<Rightarrow> (SvcErr + Game) prog"
    by (rule step_commands) (auto intro: leaf_commands that split: sum.split option.split)
  have "commands (svc_ProcessMove gid uid mt pl cv) (9 + 5)" "commands (svc_JoinGame gid uid name) (9 + 5)"
    unfolding svc_ProcessMove_def svc_JoinGame_def
    by (rule commands_withGameLock, rule a, rule move_loaded_bounds join_loaded_bounds)+
  then show "commands (svc_ProcessMove gid uid mt pl cv) 14" "commands (svc_JoinGame gid uid name) 14" by simp_all
qed

lemma create_commands: "commands (svc_CreateGame gid cfg) 3"
  unfolding svc_CreateGame_def with_env_def
  by (auto intro!: step_commands leaf_commands split: reply.split option.split simp: Let_def)

lemma request_sleeps:
  "sleeps (svc_ProcessMove gid uid mt pl cv) 350" "sleeps (svc_JoinGame gid uid name) 350"
proof -
  have b: "sleeps (bindP (LoadGame gid) (\<lambda>l. case l of Inl err \<Rightarrow> Return (Inl (F err))
          | Inr None \<Rightarrow> Return (Inl ErrGameNotFound) | Inr (Some g) \<Rightarrow> body g)) 0"
    if "\<And>g. sleeps (body g) 0" for F and body :: "Game \<Rightarrow> (SvcErr + Game) prog"
    by (rule bind_sleeps [where a = 0 and b = 0]) (auto intro: leaf_sleeps that split: sum.split option.split)
  show "sleeps (svc_ProcessMove gid uid mt pl cv) 350" "sleeps (svc_JoinGame gid uid name) 350"
    unfolding svc_ProcessMove_def svc_JoinGame_def
    by (auto intro!: sleeps_withGameLock b move_loaded_bounds(2) join_loaded_bounds(2))
qed

end
