(* ===== verification/TableLife.thy ===== *)
theory TableLife
  imports Lobby
begin

text \<open>
  What every reachable table satisfies, the join that deals over a finished round, and sample
  tables in every phase on which the properties are applied.
\<close>

lemma finished_deck:
  assumes "finished_inv True g" "\<forall>i. hand_of g i = [] \<Longrightarrow> all_hands g = {#}"
  shows "\<exists>D m. (m = 4 \<or> m = 5) \<and> size D = 3 \<and> cards_in (Tricks g) + D = mset (NewDeckFor m) \<and>
        all_points g = points_in (cards_in (Tricks g) + D) \<and> size (all_points g) = 20 \<and>
        length (Tricks g) = 10 \<and> all_hands g = {#} \<and> Kitty g = []"
proof -
  obtain m D where m: "m = 4 \<or> m = (5::int)" "size D = 3" "cards_in (Tricks g) + D = mset (NewDeckFor m)"
    "all_points g = points_in (cards_in (Tricks g) + D)"
    using assms(1) unfolding finished_inv_def by blast
  have "size (all_points g) = 20" unfolding m(3,4) mset_filter [symmetric] size_mset by (rule deck_facts(3))
  then show ?thesis using m assms by (auto simp: finished_inv_def simp del: filter_union_mset)
qed

section \<open>The properties of a table\<close>

text \<open>
  C1. From a new game, whatever sequence of joins, returns and moves the players make, the version counts the
  steps made (modulo the 64 bits of the counter). And as long as nobody was seated outside the waiting room, the table
  satisfies the round invariant of its phase; the only join that can end this is one at seat 4 of a
  finished table that was reconfigured for five (C19).
\<close>

theorem reachable_tables_ok:
  assumes "reachable h cfg w n g"
  shows "Version g = of_nat (n + 1) \<and>
    (\<not> w \<longrightarrow> round_inv h g \<and>
      (\<forall>e uid name s g'. join_table e g uid name = Seated s g' \<longrightarrow>
        Status g = PhaseWaiting \<or> Status g = PhaseFinished \<and> numSeats g = 5 \<and> s = 4))"
proof (intro conjI impI allI)
  show "Version g = of_nat (n + 1)" by (rule reachable_version [OF assms])
  assume "\<not> w"
  then show inv: "round_inv h g" using assms reachable_inv by simp
  fix e uid name s g'
  assume "join_table e g uid name = Seated s g'"
  with inv show "Status g = PhaseWaiting \<or> Status g = PhaseFinished \<and> numSeats g = 5 \<and> s = 4" by (rule seated_where)
qed

text \<open>
  C3. No card is lost, duplicated or invented as long as every discard names three different cards (C18 shows
  why) and nobody was seated outside the waiting room (C19). A waiting table holds no card. From the deal on
  the hands, the kitty, the played tricks and the three discarded cards are together exactly
  the deck of the variant, and the captured cards are the scoring cards of the tricks taken and of the
  discard. A finished round has played the whole deck but the discard in ten tricks and has given out all twenty scoring
  cards; its deck is the one it was dealt from, also when the table has been reconfigured since.
\<close>

theorem cards_are_conserved:
  assumes "reachable True cfg False n g"
  shows "(\<forall>i \<ge> numSeats g. hand_of g i = []) \<and> (case Status g of
      PhaseWaiting \<Rightarrow> all_hands g = {#} \<and> Kitty g = [] \<and> Tricks g = [] \<and> all_points g = {#}
    | PhaseBidding \<Rightarrow> all_hands g + mset (Kitty g) = deck_of g \<and> length (Kitty g) = 3 \<and> Tricks g = [] \<and>
        all_points g = {#}
    | PhaseExchanging \<Rightarrow> all_hands g = deck_of g \<and> length (hand_of g (Declarer g)) = 13 \<and> Kitty g = [] \<and>
        Tricks g = [] \<and> all_points g = {#}
    | PhaseCalling \<Rightarrow> \<exists>D. size D = 3 \<and> all_hands g + D = deck_of g \<and> Kitty g = [] \<and> Tricks g = [] \<and>
        all_points g = points_in D
    | PhasePlaying \<Rightarrow> \<exists>D. size D = 3 \<and> all_hands g + cards_in (Tricks g) + D = deck_of g \<and> Kitty g = [] \<and>
        all_points g = points_in (cards_in (butlast (Tricks g)) + D)
    | PhaseFinished \<Rightarrow> \<exists>D m. (m = 4 \<or> m = 5) \<and> size D = 3 \<and> cards_in (Tricks g) + D = mset (NewDeckFor m) \<and>
        all_points g = points_in (cards_in (Tricks g) + D) \<and> size (all_points g) = 20 \<and>
        length (Tricks g) = 10 \<and> all_hands g = {#} \<and> Kitty g = [])"
proof -
  have inv: "round_inv True g" by (rule reachable_inv [OF assms])
  then have "\<forall>i \<ge> numSeats g. hand_of g i = []" by (simp add: round_inv_def spare_def)
  moreover have none: "all_points g = {#}" if "\<forall>i. points_of g i = []" using that by (simp add: all_points_def)
  moreover have bare: "all_hands g = {#}" if "\<forall>i. hand_of g i = []" using that by (simp add: all_hands_def)
  moreover have "\<exists>D m. (m = 4 \<or> m = 5) \<and> size D = 3 \<and> cards_in (Tricks g) + D = mset (NewDeckFor m) \<and>
        all_points g = points_in (cards_in (Tricks g) + D) \<and> size (all_points g) = 20 \<and>
        length (Tricks g) = 10 \<and> all_hands g = {#} \<and> Kitty g = []" if "finished_inv True g"
    using that bare by (rule finished_deck)
  moreover have "length (hand_of g (Declarer g)) = 13" if "exchanging_inv g"
    using that by (auto simp: exchanging_inv_def contract_ok_def)
  ultimately show ?thesis using inv
    by (cases "Status g") (auto simp: round_inv_def round_defs discard_ok_def)
qed

text \<open>
  C6. Once the table is dealt it never gets stuck, as long as nobody is seated outside the waiting room (C19 is the
  exception): in every state after the deal there is a player and a move that validation accepts and that leads to a
  reachable state again.
\<close>

theorem no_deadlock:
  assumes "reachable h cfg False n g" "Status g \<noteq> PhaseWaiting"
  shows "\<exists>uid mt pl g'. ValidateMove g uid mt pl = None \<and> ApplyMove e g uid mt pl = Inr g' \<and>
    reachable h cfg False (Suc n) g'"
proof -
  have inv: "round_inv h g" by (rule reachable_inv [OF assms(1)])
  obtain uid mt pl where v: "ValidateMove g uid mt pl = None" "careful mt pl"
    using someone_can_move [OF inv assms(2)] by blast
  obtain g' where a: "ApplyMove e g uid mt pl = Inr g'"
    using accepted_move [OF inv v(1), of e] v(2) by (auto simp: moves_to_def)
  have "table_step h False g g'" by (rule table_step.move [OF v(1) _ a]) (simp add: v(2))
  then show ?thesis using v(1) a reachable_step [OF assms(1)] by blast
qed

text \<open>
  C7. A deal ends, as long as nobody is seated outside the waiting room. Every accepted move from the first bid to the last card
  lowers a natural-number measure, except the last pass of an auction without a bid, which deals again.
\<close>

theorem deals_come_to_an_end:
  assumes "reachable h cfg False n g" "ValidateMove g uid mt pl = None" "ApplyMove e g uid mt pl = Inr g'"
    and "Status g \<noteq> PhaseFinished" "\<not> thrown_in g mt"
  shows "moves_left g' < moves_left g"
  by (rule deal_move_left [OF reachable_inv [OF assms(1)] assms(2,3,5,4)])

text \<open>
  A table that went up to five seats after a round: the fifth player's join finds it full and
  deals, but nothing of the finished round is cleared.
\<close>

text \<open>
  C19. A finished four-player table may be reconfigured for five. The fifth player's join then finds the
  table full and deals, although nothing of the finished round was cleared: the new round starts in
  the bidding phase with ten tricks of the old round in place and with its passes and its last bid, so
  the table is no longer in any legal state.
\<close>

theorem join_after_reconfigure_keeps_old_round:
  assumes "finished_inv h g" "numSeats g = 5" "\<not> filled g 4" "GetPlayer g uid = None"
  shows "\<exists>g'. join_table e g uid name = Seated 4 g' \<and> Status g' = PhaseBidding \<and>
    length (Tricks g') = 10 \<and> PassedPlayers g' = PassedPlayers g \<and> CurrentBid g' = CurrentBid g \<and>
    \<not> round_inv h g'"
proof -
  have s: "seats_ok g" and low: "\<forall>i. 0 \<le> i \<and> i < 4 \<longrightarrow> filled g i" and tr: "length (Tricks g) = 10"
    using assms(1) by (auto simp: finished_inv_def)
  have len: "length (Players g) = 5" using s by (simp add: seats_ok_def)
  have new: "find_player 0 (Players g) uid = None" using assms(4) by (simp add: GetPlayer_def)
  have at: "Players g ! nat i \<noteq> None \<longleftrightarrow> filled g i" if "0 \<le> i" "i < 5" for i
    using that len by (auto simp: filled_def player_at_Inr)
  have "None \<in> set (Players g)"
    using at [of 4] assms(3) len nth_mem [of 4 "Players g"] by simp
  then obtain k where k: "first_free 0 (Players g) = Some k"
    using first_free_None [of 0 "Players g"] by (cases "first_free 0 (Players g)") auto
  note kk = first_free_Some [OF k]
  have "\<not> filled g k" using at [of k] kk len by simp
  then have k4: "k = 4" using low kk len by (cases "k < 4") auto
  have n5: "nat (numSeats g) = 5" using assms(2) by simp
  let ?g = "touch e (set_player g 4 (newPlayer uid name 4))"
  have at5: "player_at (set_player g 4 (newPlayer uid name 4)) i
      = (if i = 4 then Inr (newPlayer uid name 4) else player_at g i)" for i
    by (rule player_at_new) (simp_all add: len)
  have sk: "seats_ok ?g" using seats_ok_new [OF s, of 4 "newPlayer uid name 4"] new
    by (simp add: new_fields)
  have "filled ?g i" if "0 \<le> i" "i < 5" for i
    using low that by (auto simp: filled_def at5)
  then have full: "IsFull ?g" unfolding IsFull_iff [OF sk] using assms(2) by simp
  have run: "join_table e g uid name = Seated 4 (Start e ?g)"
    using new k k4 n5 len full by (simp add: join_table_def Let_def)
  have "\<not> round_inv h (Start e ?g)"
    using tr by (auto simp: round_inv_def bidding_inv_def deal_inv_def)
  then show ?thesis using run tr by simp
qed

section \<open>Witnesses\<close>

text \<open>A table of five that fills up seat by seat.\<close>

definition demo_joined :: "nat \<Rightarrow> Game" where
  "demo_joined k = (NewWithConfig demo_env ''g'' DefaultConfig)
     \<lparr>Players := map (\<lambda>i. Some (newPlayer (replicate i CHR ''x'') [] (int i))) [0..<k] @ replicate (5 - k) None,
      Version := 1 + of_nat k\<rparr>"

lemma demo_join_step:
  assumes "k < 4"
  shows "join_table demo_env (demo_joined k) (replicate k CHR ''x'') [] = Seated (int k) (demo_joined (Suc k))"
proof -
  have "k = 0 \<or> k = 1 \<or> k = 2 \<or> k = 3" using assms by linarith
  then show ?thesis
    by (elim disjE)
       (simp_all add: join_table_def demo_joined_def NewWithConfig_def DefaultConfig_def demo_env_def
         numSeats_def emptyPlayers_def newPlayer_def IsFull_def touch_def set_player_def Let_def
         numeral_nat upt_conv_Cons)
qed

lemma demo_join_full:
  "\<exists>g. join_table demo_env (demo_joined 4) (replicate 4 CHR ''x'') [] = Seated 4 g \<and> Status g = PhaseBidding \<and>
     CurrentBid g = None \<and> PassedPlayers g = [] \<and> CurrentTurn g = 0 \<and> ScoreHistory g = [] \<and> Config g = DefaultConfig"
  by (simp add: join_table_def demo_joined_def NewWithConfig_def DefaultConfig_def demo_env_def
      numSeats_def emptyPlayers_def newPlayer_def IsFull_def touch_def set_player_def Let_def
      numeral_nat upt_conv_Cons)

lemma demo_joined_0: "demo_joined 0 = NewWithConfig demo_env ''g'' DefaultConfig"
  by (simp add: demo_joined_def NewWithConfig_def DefaultConfig_def Let_def emptyPlayers_def numeral_nat)

lemma demo_joined_reachable: "k \<le> 4 \<Longrightarrow> reachable h DefaultConfig False k (demo_joined k)"
proof (induction k)
  case 0
  have "config_ok DefaultConfig" by (simp add: config_ok_def DefaultConfig_def)
  then show ?case unfolding demo_joined_0 by (rule reachable.new)
next
  case (Suc k)
  have "Status (demo_joined k) = PhaseWaiting" by (simp add: demo_joined_def NewWithConfig_def Let_def)
  then have "table_step h False (demo_joined k) (demo_joined (Suc k))"
    by (rule table_join [OF _ demo_join_step]) (use Suc.prems in simp)
  with Suc show ?case by (auto intro: reachable_step)
qed

lemma demo_reachable:
  obtains g where "reachable h DefaultConfig False 5 g" "Status g = PhaseBidding" "CurrentBid g = None"
    "PassedPlayers g = []" "CurrentTurn g = 0" "ScoreHistory g = []" "Config g = DefaultConfig"
proof -
  obtain g where g: "join_table demo_env (demo_joined 4) (replicate 4 CHR ''x'') [] = Seated 4 g"
    "Status g = PhaseBidding" "CurrentBid g = None" "PassedPlayers g = []" "CurrentTurn g = 0" "ScoreHistory g = []" "Config g = DefaultConfig"
    using demo_join_full by blast
  have "Status (demo_joined 4) = PhaseWaiting" by (simp add: demo_joined_def NewWithConfig_def Let_def)
  from table_join [OF this g(1)] have "table_step h False (demo_joined 4) g" .
  from reachable_step [OF demo_joined_reachable this] have "reachable h DefaultConfig False (Suc 4) g" by simp
  then have "reachable h DefaultConfig False 5 g" by (simp add: numeral_nat)
  then show thesis using g(2-) that by blast
qed

theorem reachable_tables_ok_witness:
  "\<exists>g. Status g = PhaseBidding \<and> round_inv True g \<and> Version g = 6"
proof -
  obtain g where g: "reachable True DefaultConfig False 5 g" "Status g = PhaseBidding" by (rule demo_reachable)
  show ?thesis using reachable_tables_ok [OF g(1)] g(2) by auto
qed

theorem cards_are_conserved_witness:
  "\<exists>g. Status g = PhaseBidding \<and> all_hands g + mset (Kitty g) = deck_of g"
proof -
  obtain g where g: "reachable True DefaultConfig False 5 g" "Status g = PhaseBidding" by (rule demo_reachable)
  show ?thesis using cards_are_conserved [OF g(1)] g(2) by auto
qed

theorem no_deadlock_witness: "\<exists>g. reachable True DefaultConfig False 6 g"
proof -
  obtain g where g: "reachable True DefaultConfig False 5 g" "Status g = PhaseBidding" by (rule demo_reachable)
  show ?thesis using no_deadlock [OF g(1), of demo_env] g(2) by (auto simp: numeral_nat)
qed

theorem deals_come_to_an_end_witness:
  "\<exists>g g' uid. ApplyMove demo_env g uid MovePass PNil = Inr g' \<and> moves_left g' < moves_left g"
proof -
  obtain g where g: "reachable True DefaultConfig False 5 g" "Status g = PhaseBidding" "PassedPlayers g = []"
    "CurrentTurn g = 0" by (rule demo_reachable)
  have inv: "round_inv True g" using reachable_inv [OF g(1)] by simp
  then have b: "bidding_inv g" using g(2) by (simp add: round_inv_def)
  obtain uid where v: "ValidateMove g uid MovePass PNil = None" using pass_possible [OF b] by blast
  obtain g' where a: "ApplyMove demo_env g uid MovePass PNil = Inr g'"
    using accepted_move [OF inv v, of demo_env] by (auto simp: moves_to_def careful_def)
  have "numSeats g = 4 \<or> numSeats g = 5" using bidding_turn [OF b] seats_range by blast
  then have "length (the_ring g) \<noteq> 1" using g(3,4) by (auto simp: ring_def seats_from_def)
  then have "\<not> thrown_in g MovePass" by (auto simp: thrown_in_def)
  with deals_come_to_an_end [OF g(1) v a] g(2) a show ?thesis by auto
qed

section \<open>Tables in the later phases\<close>

lemma demo_deal_round: "round_inv True (demo_deal 5)"
proof -
  have "hand_of (demo_table 5) i = []" for i
    by (simp add: hand_of_def demo_table_player demo_seat_def)
  then have "spare (demo_deal 5)"
    unfolding demo_deal_def by (intro Start_spare table_seats demo_table_ok) (simp add: spare_def)
  moreover have "PlayAgainVotes (demo_deal 5) = []"
    by (simp add: demo_deal_def demo_table_def NewWithConfig_def Let_def)
  ultimately show ?thesis using round_inv_phases(1) [OF demo_deal_bidding(1)] by blast
qed

theorem moves_never_crash_witness:
  "\<exists>g'. ApplyMove demo_env (demo_deal 5) ''x'' MoveBid (PBid (demo_bid 5)) = Inr g' \<and> round_inv True g'"
  using moves_never_crash [OF demo_deal_round, where mt = MoveBid and pl = "PBid (demo_bid 5)"
      and uid = "''x''" and e = demo_env]
    demo_bid_valid(1)
  by (auto simp: careful_def)

theorem moves_keep_the_table_witness:
  "\<exists>g'. ApplyMove demo_env (demo_deal 5) ''x'' MovePass PNil = Inr g' \<and> roster g' = roster (demo_deal 5)"
proof -
  obtain g' where g': "ApplyMove demo_env (demo_deal 5) ''x'' MovePass PNil = Inr g'"
    using accepted_move [OF demo_deal_round demo_bid_valid(2), where e = demo_env]
    by (auto simp: moves_to_def careful_def)
  from moves_keep_the_table [OF demo_deal_round demo_bid_valid(2) g'] g' show ?thesis by blast
qed

lemma demo_playing:
  obtains g where "playing_inv True g" "PlayAgainVotes g = []" "spare g"
proof -
  obtain g p c where g: "exchanging_inv g" "player_at g (Declarer g) = Inr p" "c \<in> set (Hand p)"
    "take 3 (Hand p) = [c, Hand p ! 1, Hand p ! 2]" "distinct (take 3 (Hand p))"
    and fr: "frame (demo_deal 5) g" "\<forall>i. i \<noteq> 0 \<longrightarrow> hand_of g i = hand_of (demo_deal 5) i"
    by (rule demo_exchange)
  have dr: "spare (demo_deal 5)" "PlayAgainVotes (demo_deal 5) = []" "numSeats (demo_deal 5) = 5"
    using demo_deal_round by (simp_all add: round_inv_def demo_deal_def demo_table_ok)
  have v: "PlayAgainVotes g = []" using fr(1) dr(2) by (simp add: frame_def)
  have sp: "spare g" by (rule spare_hands [OF dr(1) fr(1)]) (use fr(2) dr(3) in auto)
  let ?c = "take 3 (Hand p)" and ?d = "Declarer g"
  have len: "length ?c = 3" using arg_cong [OF g(4), of length] by simp
  have sub: "set ?c \<subseteq> set (Hand p)" by (rule set_take_subset)
  let ?k = "apply_discard g ?d p ?c"
  note k = apply_discard_ok [OF g(1,2) len sub]
  have inv: "calling_inv True ?k" using k(1) g(5) by blast
  let ?m = "\<lparr>cpCard = None, NoFriend = True\<rparr>"
  note q = apply_call_partner_ok [OF inv, of ?m]
  have hk: "hand_of ?k i = hand_of g i" if "i \<noteq> ?d" for i
    using that by (simp add: apply_discard_def Let_def hand_of_set_player [OF g(2)]
        hand_of_cong [of "(set_player g j q)\<lparr>Status := s\<rparr>" "set_player g j q" for j q s])
  have d: "?d < numSeats g" using g(1) by (simp add: exchanging_inv_def contract_ok_def)
  have "spare ?k" by (rule spare_hands [OF sp k(2)]) (use hk d in auto)
  then have "spare (apply_call_partner ?k ?m)"
    using spare_cong [OF q(4)] q(2) by (simp add: frame_def)
  moreover have "PlayAgainVotes (apply_call_partner ?k ?m) = []"
    using q(2) k(2) v by (simp add: frame_def)
  ultimately show thesis using q(1) that by blast
qed

theorem player_can_always_play_witness:
  "\<exists>g p m. player_at g (CurrentTurn g) = Inr p \<and>
     ValidateMove g (pID p) MovePlayCard (PPlayCard m) = None"
proof -
  obtain g where "playing_inv True g" by (rule demo_playing)
  from player_can_always_play [OF this] show ?thesis by blast
qed

text \<open>A finished four-player table that has just been reconfigured for five.\<close>

definition demo_wider :: Game where
  "demo_wider = (demo_table 4)\<lparr>Status := PhaseFinished, Config := DefaultConfig,
     Tricks := replicate 10 newTrick\<rparr>"

lemma demo_wider_finished: "finished_inv False demo_wider" "numSeats demo_wider = 5"
  "\<not> filled demo_wider 4" "GetPlayer demo_wider ''new'' = None"
proof -
  have at: "player_at demo_wider i = (if 0 \<le> i \<and> i < 4 then Inr (demo_seat i)
      else if i = 4 then Inl nil_panic else Inl index_panic)" for i
  proof (cases "0 \<le> i \<and> i < 5")
    case True
    then have "i \<in> {0, 1, 2, 3, 4}" by auto
    then show ?thesis by (auto simp: player_at_def demo_wider_def demo_table_def)
  next
    case False
    then show ?thesis by (auto simp: player_at_def demo_wider_def demo_table_def)
  qed
  have len: "length (Players demo_wider) = 5" "NumPlayers (Config demo_wider) = 5"
    by (simp_all add: demo_wider_def demo_table_def DefaultConfig_def)
  moreover have "Seat p = i" "pID p = replicate (nat i + 1) CHR ''x''" "0 \<le> i"
    if "player_at demo_wider i = Inr p" for i p
    using that by (auto simp: at demo_seat_def split: if_splits)
  ultimately have "seats_ok demo_wider"
    unfolding seats_ok_def by (metis add_right_cancel eq_nat_nat_iff length_replicate)
  moreover have "filled demo_wider i" if "0 \<le> i" "i < 4" for i
    using that by (simp add: filled_def at)
  moreover have "Status demo_wider = PhaseFinished" "0 \<le> Dealer demo_wider"
    "PlayAgainVotes demo_wider = []" "length (Tricks demo_wider) = 10"
    by (simp_all add: demo_wider_def demo_table_def NewWithConfig_def Let_def)
  ultimately show "finished_inv False demo_wider" by (simp add: finished_inv_def)
  show "numSeats demo_wider = 5" using len by (simp add: numSeats_def)
  show "\<not> filled demo_wider 4" by (simp add: filled_def at)
  show "GetPlayer demo_wider ''new'' = None"
    by (simp add: GetPlayer_def demo_wider_def demo_table_def demo_seat_def numeral_nat)
qed

theorem join_after_reconfigure_keeps_old_round_witness:
  "\<exists>g'. join_table demo_env demo_wider ''new'' [] = Seated 4 g' \<and> Status g' = PhaseBidding \<and>
     length (Tricks g') = 10"
  using join_after_reconfigure_keeps_old_round [OF demo_wider_finished, of demo_env "[]"] by blast

end
