(* ===== verification/Solo.thy ===== *)
theory Solo
  imports Service TableLife
begin

text \<open>
  A request of the service that no other request interrupts: what every handler answers and writes, on
  every branch.
\<close>

section \<open>Requests that run alone\<close>

text \<open>
  What the operations of the store do when nothing is lost (\<open>ch_net ch = Delivered\<close>) and no other
  request comes between two commands.
\<close>

lemma exec_delivered: "ch_net ch = Delivered \<Longrightarrow> exec ch c w = effect ch c w"
  by (simp add: exec_def)

lemma run_with_env: "ch_net ch = Delivered \<Longrightarrow> run ch (with_env k) w = run ch (k (ch_env ch)) w"
  by (simp add: with_env_def exec_delivered effect_def)

lemma run_SaveGame:
  assumes "ch_net ch = Delivered"
  shows "run ch (SaveGame g y) w =
     (let (ok, m) = cell_save (gID g) (clock w) y g (kv w)
      in (if ok then None else Some ErrStaleVersion, w\<lparr>kv := m\<rparr>))"
  using assms
  by (simp add: SaveGame_def exec_delivered effect_def cell_save_def saveScript_def Let_def)

definition stored :: "string \<Rightarrow> world \<Rightarrow> Game option" where
  "stored gid w = cell_load gid (clock w) (kv w)"

lemma run_LoadGame:
  assumes "ch_net ch = Delivered" "stored gid w = Some g"
  shows "run ch (LoadGame gid) w = (Inr (Some g), w)"
  using assms
  by (auto simp: LoadGame_def exec_delivered effect_def stored_def cell_load_def split: option.splits rval.splits)

lemma run_LoadGame_missing:
  assumes "ch_net ch = Delivered" "GET (clock w) (kv w) (state_key gid) = None"
  shows "run ch (LoadGame gid) w = (Inr None, w)"
  using assms by (auto simp: LoadGame_def exec_delivered effect_def)

lemma run_AcquireLock:
  assumes "ch_net ch = Delivered" "GET (clock w) (kv w) (lock_key gid) = None"
  shows "run ch (AcquireLock gid) w =
    (Inr (ch_token ch), w\<lparr>kv := (kv w)(lock_key gid := Some (RText (ch_token ch), clock w + 5000))\<rparr>)"
  using assms
  by (simp add: AcquireLock_def issue_def exec_delivered effect_def lockBackoff_def lock_loop.simps
      SET_NX_def SET_PX_def)

lemma run_AcquireLock_busy:
  assumes "ch_net ch = Delivered" "kv w (lock_key gid) = Some (v, x)" "clock w + 350 < x"
  shows "run ch (AcquireLock gid) w = (Inl ErrLockFailed, w\<lparr>clock := clock w + 350\<rparr>)"
proof -
  have "GET t (kv w) (lock_key gid) = Some v" if "t \<le> clock w + 350" for t
    using assms that by (simp add: GET_def)
  then show ?thesis using assms(1)
    by (simp add: AcquireLock_def issue_def exec_delivered effect_def lockBackoff_def lock_loop.simps
        SET_NX_def SET_PX_def)
qed

lemma run_ReleaseLock:
  assumes "ch_net ch = Delivered" "kv w (lock_key gid) = Some (RText tok, x)" "clock w < x"
  shows "run ch (ReleaseLock gid tok) w = (None, w\<lparr>kv := (kv w)(lock_key gid := None)\<rparr>)"
  using assms
  by (simp add: ReleaseLock_def exec_delivered effect_def releaseScript_def GET_def DEL_def)

lemma run_bookkeeping:
  assumes "ch_net ch = Delivered"
  shows "run ch (pg_SaveMove mt uid s v cv lp gid) w = (None, w\<lparr>moveRows := moveRows w @
      [\<lparr>mGame = gid, mPlayer = uid, mSeat = s, mVersion = v, mClientVersion = cv, mType = mt, mPayload = lp\<rparr>]\<rparr>)"
    "run ch (PublishEvent gid ev) w = (None, w\<lparr>published := published w @ [(Key gid @ '':events'', ev)]\<rparr>)"
    "gID g \<notin> grID ` set (gameRows w) \<Longrightarrow> run ch (pg_CreateGame g) w = (None, w\<lparr>gameRows := gameRows w @
      [\<lparr>grID = gID g, grStatus = Status g, grVersion = Version g, grCreated = CreatedAt g\<rparr>]\<rparr>)"
  using assms
  by (simp_all add: pg_SaveMove_def PublishEvent_def pg_CreateGame_def exec_delivered effect_def)

text \<open>The lock is taken, the body runs under it and gives it back.\<close>

definition locked :: "choice \<Rightarrow> string \<Rightarrow> world \<Rightarrow> world" where
  "locked ch gid w = w\<lparr>kv := (kv w)(lock_key gid := Some (RText (ch_token ch), clock w + 5000))\<rparr>"

definition unlocked :: "string \<Rightarrow> world \<Rightarrow> world" where
  "unlocked gid w = w\<lparr>kv := (kv w)(lock_key gid := None)\<rparr>"

lemma run_withGameLock:
  assumes ch: "ch_net ch = Delivered" and free: "GET (clock w) (kv w) (lock_key gid) = None"
    and body: "run ch body (locked ch gid w) = (x, w')"
    and lock: "kv w' (lock_key gid) = Some (RText (ch_token ch), clock w + 5000)" "clock w' = clock w"
  shows "run ch (withGameLock gid body) w = (x, unlocked gid w')"
  using run_ReleaseLock [OF ch lock(1)] lock(2) body
  by (simp add: withGameLock_def run_bindP run_AcquireLock [OF ch free] locked_def unlocked_def)

lemma stored_locked [simp]: "stored gid (locked ch gid w) = stored gid w"
  by (simp add: stored_def cell_load_def locked_def GET_def)

lemma locked_lock: "kv (locked ch gid w) (lock_key gid) = Some (RText (ch_token ch), clock w + 5000)"
  "clock (locked ch gid w) = clock w"
  by (simp_all add: locked_def)

text \<open>The world after a save that goes through.\<close>

definition saved :: "Game \<Rightarrow> world \<Rightarrow> world" where
  "saved g w = w\<lparr>kv := (kv w)(state_key (gID g) := Some (marshal g, clock w + ttlMillis),
     version_key (gID g) := Some (RText (FormatInt (Version g)), clock w + ttlMillis))\<rparr>"

text \<open>A game whose two keys agree and have not expired.\<close>

definition fresh_cell :: "string \<Rightarrow> world \<Rightarrow> Game \<Rightarrow> bool" where
  "fresh_cell gid w g \<longleftrightarrow> gID g = gid \<and> stored gid w = Some g \<and>
     GET (clock w) (kv w) (version_key gid) = Some (RText (FormatInt (Version g)))"

lemma run_SaveGame_ok:
  assumes "ch_net ch = Delivered" "GET (clock w) (kv w) (version_key (gID g)) = Some (RText (FormatInt y))"
  shows "run ch (SaveGame g y) w = (None, saved g w)"
  using assms
  by (simp add: run_SaveGame cell_save_def saveScript_def Let_def saved_def SET_PX_def)

lemma saved_fields [simp]:
  "clock (saved g w) = clock w" "gameRows (saved g w) = gameRows w" "moveRows (saved g w) = moveRows w"
  "published (saved g w) = published w" "kv (saved g w) (lock_key h) = kv w (lock_key h)"
  by (simp_all add: saved_def)

definition recorded :: "string \<Rightarrow> string \<Rightarrow> MoveType \<Rightarrow> payload \<Rightarrow> 64 word \<Rightarrow> Game \<Rightarrow> world \<Rightarrow> world" where
  "recorded gid uid mt pl cv g w = w\<lparr>
     moveRows := moveRows w @ [\<lparr>mGame = gid, mPlayer = uid, mSeat = mover_seat g uid, mVersion = Version g,
       mClientVersion = cv, mType = mt, mPayload = MovePayload pl\<rparr>],
     published := published w @ [(Key gid @ '':events'', MoveMade mt uid pl (Version g) g)]\<rparr>"

text \<open>What a move does to the game that was loaded, when the version key holds \<open>cur\<close> at the time of the save.\<close>

definition move_alone :: "Env \<Rightarrow> string \<Rightarrow> string \<Rightarrow> MoveType \<Rightarrow> payload \<Rightarrow> 64 word \<Rightarrow> Game \<Rightarrow> (string \<Rightarrow> rval option) \<Rightarrow>
    world \<Rightarrow> (SvcErr + Game) \<times> world" where
  "move_alone e gid uid mt pl cv g cur w =
    (if cv \<noteq> Version g then (Inl ErrStaleVersion, w)
     else case ValidateMove g uid mt pl of Some err \<Rightarrow> (Inl (GameErr err), w)
     | None \<Rightarrow> (case ApplyMove e g uid mt pl of Inl err \<Rightarrow> (Inl (GameErr err), w)
        | Inr g' \<Rightarrow>
            (if cur (gID g) = Some (RText (FormatInt (Version g))) \<or> cur (gID g) = None \<and> Version g = 0
             then (Inr g', recorded gid uid mt pl cv g' (saved g' w))
             else (Inl ErrStaleVersion, w))))"

lemma run_SaveGame_any:
  assumes "ch_net ch = Delivered"
  shows "run ch (SaveGame g y) w =
    (let cur = GET (clock w) (kv w) (version_key (gID g)) in
     if cur = Some (RText (FormatInt y)) \<or> cur = None \<and> y = 0 then (None, saved g w) else (Some ErrStaleVersion, w))"
proof -
  have "FormatInt y = ''0'' \<longleftrightarrow> y = 0" using FormatInt_inj [of y 0] by simp
  then show ?thesis
    using assms by (auto simp: run_SaveGame cell_save_def saveScript_def Let_def saved_def SET_PX_def)
qed

lemma run_move_loaded:
  assumes ch: "ch_net ch = Delivered"
  shows "run ch (move_loaded gid uid mt pl cv g) w =
    move_alone (ch_env ch) gid uid mt pl cv g (\<lambda>h. GET (clock w) (kv w) (version_key h)) w"
proof (cases "cv = Version g \<and> ValidateMove g uid mt pl = None")
  case False
  then show ?thesis by (cases "ValidateMove g uid mt pl") (auto simp: move_loaded_def move_alone_def)
next
  case True
  show ?thesis
  proof (cases "ApplyMove (ch_env ch) g uid mt pl")
    case (Inl err)
    then show ?thesis using True by (simp add: move_loaded_def move_alone_def run_with_env ch)
  next
    case (Inr g')
    have id: "gID g' = gID g" using ApplyMove_frame [OF Inr] by simp
    show ?thesis using True Inr
      by (simp add: move_loaded_def move_alone_def run_with_env ch commit_move_def run_bindP run_SaveGame_any [OF ch] id
          run_bookkeeping [OF ch] recorded_def Let_def)
  qed
qed

lemma locked_GET: "GET (clock w) (kv (locked ch gid w)) (version_key h) = GET (clock w) (kv w) (version_key h)"
  "GET (clock w) (kv (locked ch gid w)) (state_key h) = GET (clock w) (kv w) (state_key h)"
  by (simp_all add: locked_def GET_def)

text \<open>What is written under the lock is the same without it.\<close>

lemma move_alone_locked:
  fixes e :: Env and ch :: choice
  assumes "move_alone e gid uid mt pl cv g cur (locked ch gid w) = (x, wb)"
  shows "kv wb (lock_key gid) = Some (RText (ch_token ch), clock w + 5000)" "clock wb = clock w"
    "move_alone e gid uid mt pl cv g cur (unlocked gid w) = (x, unlocked gid wb)"
proof -
  have r: "unlocked gid (recorded gid uid mt pl cv g' (saved g' (locked ch gid w)))
      = recorded gid uid mt pl cv g' (saved g' (unlocked gid w))" for g'
    by (simp add: unlocked_def recorded_def saved_def locked_def fun_upd_twist)
  have u: "unlocked gid (locked ch gid w) = unlocked gid w" by (simp add: unlocked_def locked_def)
  show "kv wb (lock_key gid) = Some (RText (ch_token ch), clock w + 5000)" "clock wb = clock w"
    "move_alone e gid uid mt pl cv g cur (unlocked gid w) = (x, unlocked gid wb)"
    using assms r u locked_lock
    by (auto simp: move_alone_def recorded_def split: if_splits option.splits sum.splits)
qed

lemma process_move_run:
  assumes ch: "ch_net ch = Delivered" and free: "GET (clock w) (kv w) (lock_key gid) = None"
  shows "run ch (svc_ProcessMove gid uid mt pl cv) w =
    (case GET (clock w) (kv w) (state_key gid) of
       None \<Rightarrow> (Inl ErrGameNotFound, unlocked gid w)
     | Some (RText s) \<Rightarrow> (Inl (External ''cannot unmarshal''), unlocked gid w)
     | Some (RDoc g) \<Rightarrow>
         move_alone (ch_env ch) gid uid mt pl cv g (\<lambda>h. GET (clock w) (kv w) (version_key h)) (unlocked gid w))"
proof -
  let ?w = "locked ch gid w"
  let ?body = "bindP (LoadGame gid) (\<lambda>l. case l of Inl err \<Rightarrow> Return (Inl err)
          | Inr None \<Rightarrow> Return (Inl ErrGameNotFound)
          | Inr (Some g) \<Rightarrow> move_loaded gid uid mt pl cv g)"
  have c: "clock ?w = clock w" and un: "unlocked gid ?w = unlocked gid w" by (simp_all add: unlocked_def locked_def)
  note L = run_withGameLock [OF ch free, of ?body]
  have b: "run ch ?body ?w = (case GET (clock w) (kv w) (state_key gid) of
       None \<Rightarrow> (Inl ErrGameNotFound, ?w)
     | Some (RText s) \<Rightarrow> (Inl (External ''cannot unmarshal''), ?w)
     | Some (RDoc g) \<Rightarrow> move_alone (ch_env ch) gid uid mt pl cv g (\<lambda>h. GET (clock w) (kv w) (version_key h)) ?w)"
    using run_move_loaded [OF ch, of gid uid mt pl cv _ ?w]
    by (auto simp: run_bindP LoadGame_def exec_delivered [OF ch] effect_def locked_GET c split: option.split rval.split)
  show ?thesis
  proof (cases "\<exists>g. GET (clock w) (kv w) (state_key gid) = Some (RDoc g)")
    case True
    then obtain g where g: "GET (clock w) (kv w) (state_key gid) = Some (RDoc g)" by blast
    obtain x wb where x: "move_alone (ch_env ch) gid uid mt pl cv g (\<lambda>h. GET (clock w) (kv w) (version_key h)) ?w = (x, wb)"
      by fastforce
    note m = move_alone_locked [OF x]
    from L [of x wb] b g x m show ?thesis by (simp add: svc_ProcessMove_def)
  next
    case False
    then obtain err where "run ch ?body ?w = (Inl err, ?w)"
      "(case GET (clock w) (kv w) (state_key gid) of None \<Rightarrow> (Inl ErrGameNotFound, unlocked gid w)
        | Some (RText s) \<Rightarrow> (Inl (External ''cannot unmarshal''), unlocked gid w)
        | Some (RDoc g) \<Rightarrow> move_alone (ch_env ch) gid uid mt pl cv g (\<lambda>h. GET (clock w) (kv w) (version_key h)) (unlocked gid w))
        = (Inl err, unlocked gid w)"
      using b by (auto split: option.splits rval.splits)
    then show ?thesis using L [of "Inl err" ?w] un locked_lock by (simp add: svc_ProcessMove_def)
  qed
qed

lemma process_move_fresh:
  assumes ch: "ch_net ch = Delivered" and free: "GET (clock w) (kv w) (lock_key gid) = None"
    and g: "fresh_cell gid w g"
  shows "run ch (svc_ProcessMove gid uid mt pl cv) w =
    (if cv \<noteq> Version g then (Inl ErrStaleVersion, unlocked gid w)
     else case ValidateMove g uid mt pl of Some err \<Rightarrow> (Inl (GameErr err), unlocked gid w)
     | None \<Rightarrow> (case ApplyMove (ch_env ch) g uid mt pl of Inl err \<Rightarrow> (Inl (GameErr err), unlocked gid w)
        | Inr g' \<Rightarrow> (Inr g', recorded gid uid mt pl cv g' (saved g' (unlocked gid w)))))"
proof -
  have "GET (clock w) (kv w) (state_key gid) = Some (RDoc g)"
    using g by (auto simp: fresh_cell_def stored_def cell_load_def split: option.splits rval.splits)
  moreover have "GET (clock w) (kv w) (version_key (gID g)) = Some (RText (FormatInt (Version g)))"
    using g by (simp add: fresh_cell_def)
  ultimately show ?thesis unfolding process_move_run [OF ch free] move_alone_def by (simp split: option.split sum.split)
qed

text \<open>
  C12. A move when every message arrives and the table's lock is free, whatever the store holds. \<^verbatim>\<open>ProcessMove\<close>
  answers that the game is not there or not readable, that the client's version is stale, the rules' own
  error, that the save came too late (the version key no longer holds the version that was loaded), or the new
  game, in this order. Only in the last case does it write, and then it writes the new state and version, one
  ledger row and one event. The lock is free again afterwards in every case. (A held lock is C14, lost
  messages are C13.)
\<close>

theorem process_move_alone:
  assumes ch: "ch_net ch = Delivered" and free: "GET (clock w) (kv w) (lock_key gid) = None"
  shows "run ch (svc_ProcessMove gid uid mt pl cv) w =
    (case GET (clock w) (kv w) (state_key gid) of
       None \<Rightarrow> (Inl ErrGameNotFound, unlocked gid w)
     | Some (RText s) \<Rightarrow> (Inl (External ''cannot unmarshal''), unlocked gid w)
     | Some (RDoc g) \<Rightarrow>
        if cv \<noteq> Version g then (Inl ErrStaleVersion, unlocked gid w)
        else (case ValidateMove g uid mt pl of
            Some err \<Rightarrow> (Inl (GameErr err), unlocked gid w)
          | None \<Rightarrow> (case ApplyMove (ch_env ch) g uid mt pl of
              Inl err \<Rightarrow> (Inl (GameErr err), unlocked gid w)
            | Inr g' \<Rightarrow>
                (let cur = GET (clock w) (kv w) (version_key (gID g)) in
                 if cur = Some (RText (FormatInt (Version g))) \<or> cur = None \<and> Version g = 0
                 then (Inr g', recorded gid uid mt pl cv g' (saved g' (unlocked gid w)))
                 else (Inl ErrStaleVersion, unlocked gid w)))))"
  unfolding process_move_run [OF assms] move_alone_def Let_def ..

text \<open>
  C14. A table whose lock somebody holds for more than another 350 milliseconds refuses: a move and a join both answer
  \<^verbatim>\<open>ErrGameBusy\<close> after the three waits, and nothing in the world but the clock has changed.
\<close>

theorem busy_table_is_left_alone:
  assumes "ch_net ch = Delivered" "kv w (lock_key gid) = Some (v, x)" "clock w + 350 < x"
  shows "run ch (svc_ProcessMove gid uid mt pl cv) w = (Inl ErrGameBusy, w\<lparr>clock := clock w + 350\<rparr>) \<and>
    run ch (svc_JoinGame gid uid name) w = (Inl ErrGameBusy, w\<lparr>clock := clock w + 350\<rparr>)"
  by (simp_all add: svc_ProcessMove_def svc_JoinGame_def withGameLock_def run_bindP run_AcquireLock_busy [OF assms])

section \<open>Sample worlds\<close>

definition demo_world :: world where
  "demo_world = \<lparr>kv = (\<lambda>_. None), clock = 0, gameRows = [], moveRows = [], published = []\<rparr>"

definition demo_choice :: choice where
  "demo_choice = \<lparr>ch_net = Delivered, ch_error = [], ch_token = ''t'', ch_env = demo_env\<rparr>"

text \<open>Five players at the table, the first one to bid.\<close>

definition demo_auction :: Game where
  "demo_auction = (demo_joined 5)\<lparr>Status := PhaseBidding\<rparr>"

lemma demo_stored: "fresh_cell ''g'' (saved demo_auction demo_world) demo_auction"
proof -
  have id: "gID demo_auction = ''g''" "marshal demo_auction = RDoc demo_auction"
    by (simp_all add: demo_auction_def demo_joined_def NewWithConfig_def Let_def marshal_def)
  show ?thesis
    by (simp add: fresh_cell_def stored_def cell_load_def GET_def saved_def id demo_world_def ttlMillis_def)
qed

lemma demo_pass:
  "\<exists>g'. ValidateMove demo_auction [] MovePass PNil = None \<and>
     ApplyMove demo_env demo_auction [] MovePass PNil = Inr g' \<and> Version g' = 7"
proof -
  let ?g = "demo_auction\<lparr>PassedPlayers := [(0, True)],
     Bids := [\<lparr>bPlayerID = [], bPoints = 0, bSuit = EmptySuit, IsNoTrump = False\<rparr>], CurrentTurn := 1\<rparr>"
  have f: "NumPlayers (Config demo_auction) = 5" "Status demo_auction = PhaseBidding" "CurrentTurn demo_auction = 0"
    "PassedPlayers demo_auction = []" "Bids demo_auction = []" "Version demo_auction = 6" "CurrentBid demo_auction = None"
    by (simp_all add: demo_auction_def demo_joined_def NewWithConfig_def DefaultConfig_def numSeats_def Let_def)
  have pl: "Players demo_auction = map (\<lambda>i. Some (newPlayer (replicate i CHR ''x'') [] (int i))) [0..<5]"
    by (simp add: demo_auction_def demo_joined_def)
  have who: "GetPlayer demo_auction [] = Some 0" "player_at demo_auction 0 = Inr (newPlayer [] [] 0)"
    by (simp_all add: GetPlayer_def player_at_def pl newPlayer_def upt_conv_Cons)
  have n: "next_bidder [(0, True)] 5 0 = Some 1"
    by (subst next_bidder.simps) (simp add: gm_get_def)
  have adv: "advanceToNextBidder (demo_auction\<lparr>PassedPlayers := [(0, True)],
     Bids := [\<lparr>bPlayerID = [], bPoints = 0, bSuit = EmptySuit, IsNoTrump = False\<rparr>]\<rparr>) = Inr ?g"
    by (simp add: advanceToNextBidder_def gm_len_def f n numSeats_def)
  have "ValidateMove demo_auction [] MovePass PNil = None"
    by (simp add: ValidateMove_def who f validatePass_def check_id_def newPlayer_def)
  moreover have "ApplyMove demo_env demo_auction [] MovePass PNil = Inr (touch demo_env ?g)"
    using f by (simp add: ApplyMove_def resolve_pointer_def who apply_pass_def passBid_def newPlayer_def adv
        gm_len_def numSeats_def)
  ultimately show ?thesis using f by (simp add: touch_def)
qed

theorem process_move_alone_witness:
  "\<exists>g' w. run demo_choice (svc_ProcessMove ''g'' [] MovePass PNil 6) (saved demo_auction demo_world) = (Inr g', w) \<and>
     Version g' = 7 \<and> length (moveRows w) = 1"
proof -
  let ?w = "saved demo_auction demo_world"
  obtain g' where g: "ValidateMove demo_auction [] MovePass PNil = None"
    "ApplyMove demo_env demo_auction [] MovePass PNil = Inr g'" "Version g' = 7" using demo_pass by blast
  have v: "Version demo_auction = 6" "gID demo_auction = ''g''"
    by (simp_all add: demo_auction_def demo_joined_def NewWithConfig_def Let_def)
  have st: "GET (clock ?w) (kv ?w) (state_key ''g'') = Some (RDoc demo_auction)"
    "GET (clock ?w) (kv ?w) (version_key ''g'') = Some (RText (FormatInt 6))"
    using demo_stored v by (auto simp: fresh_cell_def stored_def cell_load_def split: option.splits rval.splits)
  have free: "ch_net demo_choice = Delivered" "GET (clock ?w) (kv ?w) (lock_key ''g'') = None"
    by (simp_all add: demo_choice_def GET_def demo_world_def)
  show ?thesis
    using process_move_alone [OF free, of "[]" MovePass PNil 6] st g v
    by (simp add: demo_choice_def recorded_def unlocked_def demo_world_def Let_def)
qed

theorem busy_table_is_left_alone_witness:
  "fst (run demo_choice (svc_ProcessMove ''g'' [] MovePass PNil 6) (locked demo_choice ''g'' demo_world)) = Inl ErrGameBusy"
  using busy_table_is_left_alone [of demo_choice "locked demo_choice ''g'' demo_world" "''g''" "RText ''t''" 5000]
  by (simp add: demo_choice_def locked_def demo_world_def)

section \<open>A join that runs alone\<close>

definition join_recorded :: "string \<Rightarrow> string \<Rightarrow> string \<Rightarrow> int \<Rightarrow> Game \<Rightarrow> world \<Rightarrow> world" where
  "join_recorded gid uid name seat g w = w\<lparr>
     moveRows := moveRows w @ [\<lparr>mGame = gid, mPlayer = uid, mSeat = seat, mVersion = Version g,
       mClientVersion = Version g - 1, mType = OtherMove ''join'', mPayload = JoinName name\<rparr>],
     published := published w @ [(Key gid @ '':events'', PlayerJoined (Players g ! nat seat) (Version g))]\<rparr>"

lemma join_alone:
  assumes ch: "ch_net ch = Delivered" and free: "GET (clock w) (kv w) (lock_key gid) = None"
    and g: "fresh_cell gid w g"
  shows "run ch (svc_JoinGame gid uid name) w =
    (case join_table (ch_env ch) g uid name of
       TableFull \<Rightarrow> (Inl ErrGameFull, unlocked gid w)
     | Rejoined g' \<Rightarrow> (Inr g', saved g' (unlocked gid w))
     | Seated seat g' \<Rightarrow> (Inr g', join_recorded gid uid name seat g' (saved g' (unlocked gid w))))"
proof -
  let ?w = "locked ch gid w"
  let ?body = "bindP (LoadGame gid) (\<lambda>l. case l of Inl err \<Rightarrow> Return (Inl (Wrapped ''failed to load game'' err))
          | Inr None \<Rightarrow> Return (Inl ErrGameNotFound)
          | Inr (Some g) \<Rightarrow> join_loaded gid uid name g)"
  have st: "stored gid ?w = Some g" using g by (simp add: fresh_cell_def)
  have b: "run ch ?body ?w = run ch (join_loaded gid uid name g) ?w"
    by (simp add: run_bindP run_LoadGame [OF ch st])
  have un: "unlocked gid (saved k ?w) = saved k (unlocked gid w)" "unlocked gid ?w = unlocked gid w" for k
    by (simp_all add: unlocked_def locked_def saved_def fun_upd_twist)
  note L = run_withGameLock [OF ch free, of ?body]
  have sv: "run ch (SaveGame g' (Version g)) ?w = (None, saved g' ?w)" if "gID g' = gID g" for g'
    by (rule run_SaveGame_ok [OF ch]) (use g that in \<open>simp add: locked_def GET_def fresh_cell_def\<close>)
  show ?thesis
  proof (cases "join_table (ch_env ch) g uid name")
    case TableFull
    then have "run ch ?body ?w = (Inl ErrGameFull, ?w)"
      using b by (simp add: join_loaded_def run_with_env ch)
    from L [OF this] show ?thesis using TableFull un locked_lock by (simp add: svc_JoinGame_def)
  next
    case (Rejoined g')
    then have "gID g' = gID g" using join_frame by blast
    then have "run ch ?body ?w = (Inr g', saved g' ?w)"
      using b Rejoined by (simp add: join_loaded_def run_with_env ch run_bindP sv)
    from L [OF this] show ?thesis using Rejoined un locked_lock by (simp add: svc_JoinGame_def)
  next
    case (Seated seat g')
    then have "gID g' = gID g" using join_frame by blast
    then have "run ch ?body ?w = (Inr g', join_recorded gid uid name seat g' (saved g' ?w))"
      using b Seated
      by (simp add: join_loaded_def commit_join_def run_with_env ch run_bindP sv run_bookkeeping [OF ch] join_recorded_def)
    from L [OF this] have "run ch (svc_JoinGame gid uid name) w =
        (Inr g', unlocked gid (join_recorded gid uid name seat g' (saved g' ?w)))"
      using locked_lock by (simp add: svc_JoinGame_def join_recorded_def)
    moreover have "unlocked gid (join_recorded gid uid name seat g' (saved g' ?w))
        = join_recorded gid uid name seat g' (saved g' (unlocked gid w))"
      by (simp add: unlocked_def join_recorded_def saved_def locked_def fun_upd_twist)
    ultimately show ?thesis using Seated by simp
  qed
qed

text \<open>Creating a game under an ID that nobody has used.\<close>

definition unused :: "string \<Rightarrow> world \<Rightarrow> bool" where
  "unused gid w \<longleftrightarrow> gid \<notin> grID ` set (gameRows w) \<and> kv w (state_key gid) = None \<and>
     kv w (version_key gid) = None \<and> kv w (lock_key gid) = None"

definition with_row :: "Game \<Rightarrow> world \<Rightarrow> world" where
  "with_row g w = w\<lparr>gameRows := gameRows w @
     [\<lparr>grID = gID g, grStatus = Status g, grVersion = Version g, grCreated = CreatedAt g\<rparr>]\<rparr>"

lemma create_alone:
  fixes cfg :: GameConfig
  assumes ch: "ch_net ch = Delivered" and u: "unused gid w"
  defines "g \<equiv> NewWithConfig (ch_env ch) gid cfg"
  shows "run ch (svc_CreateGame gid cfg) w = (Inr g, saved g (with_row g w))"
    "fresh_cell gid (saved g (with_row g w)) g" "kv (saved g (with_row g w)) (lock_key gid) = None"
proof -
  have id: "gID g = gid" by (simp add: g_def NewWithConfig_def Let_def)
  have nd: "no_deck g" by (simp add: g_def NewWithConfig_def Let_def no_deck_def)
  have row: "run ch (pg_CreateGame g) w = (None, with_row g w)"
    using run_bookkeeping(3) [OF ch, of g w] u id by (simp add: unused_def with_row_def)
  have sv: "run ch (SaveGame g 0) (with_row g w) = (None, saved g (with_row g w))"
    using u id by (simp add: run_SaveGame ch cell_save_def saveScript_def GET_def with_row_def unused_def saved_def SET_PX_def Let_def)
  show "run ch (svc_CreateGame gid cfg) w = (Inr g, saved g (with_row g w))"
    using row sv by (simp add: svc_CreateGame_def run_with_env ch run_bindP g_def [symmetric])
  show "fresh_cell gid (saved g (with_row g w)) g"
    using id by (simp add: fresh_cell_def stored_def cell_load_def GET_def saved_def ttlMillis_def marshal_no_deck nd)
  show "kv (saved g (with_row g w)) (lock_key gid) = None" using u by (simp add: with_row_def unused_def)
qed

end
