(* ===== verification/Policy.thy ===== *)
theory Policy
  imports Service
begin

text \<open>
  Which commands a program can issue. A policy is a predicate on commands; \<open>every P p\<close> says that whatever
  the replies, the program \<open>p\<close> only issues commands that the policy \<open>P\<close> allows. The locales below are the
  policies that the operations of the service need, from the queries to the creation of a game, and
  under each of them the operations that it admits.
\<close>

primrec every :: "(cmd \<Rightarrow> bool) \<Rightarrow> 'a prog \<Rightarrow> bool" where
  "every P (Return x) = True"
| "every P (Call c k) = (P c \<and> (\<forall>r. every P (k r)))"

lemma every_bindP: "every P p \<Longrightarrow> (\<And>x. every P (f x)) \<Longrightarrow> every P (bindP p f)"
  by (induction p) auto

lemma every_with_env: "P ReadEnv \<Longrightarrow> (\<And>e. every P (k e)) \<Longrightarrow> every P (with_env k)"
  by (auto simp: with_env_def split: reply.split)

section \<open>Queries\<close>

locale reading =
  fixes P :: "cmd \<Rightarrow> bool"
  assumes get: "P (Get k)" and select: "P (SelectGames status)"
begin

lemma every_LoadGame: "every P (LoadGame gid)"
  by (auto simp: LoadGame_def get split: reply.split rval.split)

lemma every_list_loop: "every P (list_loop status ids games)"
  by (induction ids arbitrary: games)
     (auto intro!: every_bindP every_LoadGame split: sum.split option.split)

lemma every_queries: "every P (svc_GetGame store gid)" "every P (svc_ListGamesByStatus store status)"
proof -
  have "every P (pg_ListGamesByStatus status)"
    by (auto simp: pg_ListGamesByStatus_def select split: reply.split)
  then show "every P (svc_ListGamesByStatus store status)"
    by (auto simp: svc_ListGamesByStatus_def intro!: every_bindP every_list_loop split: sum.split)
  show "every P (svc_GetGame store gid)" by (simp add: svc_GetGame_def every_LoadGame)
qed

end

section \<open>The lock\<close>

locale locking =
  fixes P :: "cmd \<Rightarrow> bool"
  assumes rand: "P RandBytes" and sleep: "0 \<le> ms \<Longrightarrow> P (Sleep ms)"
    and set_lock: "P (SetNX (lock_key gid) tok px)" and release_lock: "P (EvalRelease (lock_key gid) tok)"
begin

lemma every_lock_loop: "\<forall>w \<in> set ws. 0 \<le> w \<Longrightarrow> every P (lock_loop (lock_key gid) tok ws)"
proof (induction ws)
  case Nil
  show ?case by (subst lock_loop.simps) (auto simp: issue_def set_lock split: reply.split)
next
  case (Cons w ws)
  then show ?case by (subst lock_loop.simps) (auto simp: issue_def set_lock sleep split: reply.split)
qed

lemma every_lock: "every P (AcquireLock gid)" "every P (ReleaseLock gid tok)"
  by (auto simp: AcquireLock_def ReleaseLock_def issue_def rand release_lock lockBackoff_def
      intro!: every_lock_loop split: reply.split)

lemma every_withGameLock: "every P body \<Longrightarrow> every P (withGameLock gid body)"
  unfolding withGameLock_def by (auto intro!: every_bindP every_lock split: sum.split)

end

section \<open>Moves and joins\<close>

locale updating = reading P + locking P for P :: "cmd \<Rightarrow> bool" +
  assumes env: "P ReadEnv" and save: "P (EvalSave (state_key gid) (version_key gid) doc new old ttl)"
    and ledger: "P (InsertMove row)" and publish: "P (Publish chn ev)"
begin

lemma every_SaveGame: "every P (SaveGame g v)"
  by (auto simp: SaveGame_def save split: reply.split)

lemma every_bookkeeping:
  "every P (PublishEvent gid ev)" "every P (pg_SaveMove mt uid s v cv lp gid)"
  by (simp_all add: PublishEvent_def pg_SaveMove_def ledger publish)

lemma every_update: "every P (svc_JoinGame gid uid name)" "every P (svc_ProcessMove gid uid mt pl cv)"
  unfolding svc_JoinGame_def svc_ProcessMove_def join_loaded_def move_loaded_def commit_join_def commit_move_def
  by (auto intro!: every_withGameLock every_bindP every_with_env env every_LoadGame every_SaveGame every_bookkeeping
      split: option.split sum.split joined.split)

end

section \<open>New games\<close>

text \<open>The status that a new row of the table \<^verbatim>\<open>games\<close> can have.\<close>

locale creating = updating P for P :: "cmd \<Rightarrow> bool" +
  assumes insert: "grStatus row = PhaseWaiting \<Longrightarrow> P (InsertGame row)"
begin

lemma every_create: "every P (svc_CreateGame gid cfg)"
proof -
  have "every P (pg_CreateGame (NewWithConfig e gid cfg))" for e
    by (simp add: pg_CreateGame_def insert NewWithConfig_def Let_def)
  then show ?thesis
    by (auto simp: svc_CreateGame_def Let_def intro!: every_with_env env every_bindP every_SaveGame split: option.split)
qed

end

section \<open>Policies\<close>

text \<open>Reads of Redis and Postgres.\<close>

definition reads :: "cmd \<Rightarrow> bool" where
  "reads c \<longleftrightarrow> (case c of Get _ \<Rightarrow> True | SelectGames _ \<Rightarrow> True | _ \<Rightarrow> False)"

interpretation reads: reading reads
  by unfold_locales (simp_all add: reads_def)

text \<open>No new row in the table \<^verbatim>\<open>games\<close>.\<close>

definition no_new_game :: "cmd \<Rightarrow> bool" where
  "no_new_game c \<longleftrightarrow> (case c of InsertGame _ \<Rightarrow> False | _ \<Rightarrow> True)"

interpretation no_new_game: updating no_new_game
  by unfold_locales (simp_all add: no_new_game_def)

text \<open>New rows are of waiting games.\<close>

definition waiting_rows :: "cmd \<Rightarrow> bool" where
  "waiting_rows c \<longleftrightarrow> (case c of InsertGame row \<Rightarrow> grStatus row = PhaseWaiting | _ \<Rightarrow> True)"

interpretation waiting_rows: creating waiting_rows
  by unfold_locales (simp_all add: waiting_rows_def)

text \<open>
  A save writes the state and version keys of one game, locks are taken and given back under lock keys,
  nobody sleeps backwards.
\<close>

definition polite :: "cmd \<Rightarrow> bool" where
  "polite c = (case c of
      EvalSave k1 k2 d v x ttl \<Rightarrow> \<exists>h. k1 = state_key h \<and> k2 = version_key h
    | SetNX k v px \<Rightarrow> \<exists>h. k = lock_key h
    | EvalRelease k v \<Rightarrow> \<exists>h. k = lock_key h
    | Sleep ms \<Rightarrow> 0 \<le> ms
    | _ \<Rightarrow> True)"

interpretation polite: creating polite
  by unfold_locales (auto simp: polite_def)

text \<open>Commands that touch neither games nor their rows nor their channels.\<close>

definition quiet :: "cmd \<Rightarrow> bool" where
  "quiet c =
     (case c of
        EvalSave k1 k2 d v x ttl \<Rightarrow> False | Get k \<Rightarrow> True
      | SetNX k v px \<Rightarrow> (\<exists>h. k = lock_key h) | EvalRelease k v \<Rightarrow> (\<exists>h. k = lock_key h)
      | InsertGame row \<Rightarrow> False | Publish chn ev \<Rightarrow> False | _ \<Rightarrow> True)"

interpretation quiet: reading quiet
  by unfold_locales (simp_all add: quiet_def)

interpretation quiet_lock: locking quiet
  by unfold_locales (auto simp: quiet_def)

lemma quiet_leaves:
  "every quiet (AcquireLock g)" "every quiet (ReleaseLock g t)" "every quiet (pg_SaveMove mt uid s v cv lp g)"
  by (rule quiet_lock.every_lock)+ (simp add: pg_SaveMove_def quiet_def)

end
