(* ===== verification/Lease.thy ===== *)
theory Lease
  imports Solo Policy
begin

text \<open>
  The distributed lock: every command of the handlers is \<open>polite\<close>, and among polite commands a lock that
  was acquired is a lease.
\<close>

section \<open>The lock as a lease\<close>

text \<open>Every command of every handler is \<open>polite\<close>.\<close>

lemma polite_handlers:
  "every polite (svc_CreateGame gid cfg)" "every polite (svc_JoinGame gid uid name)"
  "every polite (svc_ProcessMove gid uid mt pl cv)"
  by (rule polite.every_create polite.every_update)+

text \<open>A sequence of commands of any requests: the replies in order, and the world after it.\<close>

primrec exec_all :: "(choice \<times> cmd) list \<Rightarrow> world \<Rightarrow> (cmd \<times> reply) list \<times> world" where
  "exec_all [] w = ([], w)"
| "exec_all (x # xs) w =
     (let (r, w1) = exec (fst x) (snd x) w; (rs, w2) = exec_all xs w1 in ((snd x, r) # rs, w2))"

lemma polite_exec:
  assumes "polite c" "c \<noteq> EvalRelease (lock_key gid) tok"
    and "kv w (lock_key gid) = Some (RText tok, x)" "clock w < x" "exec ch c w = (r, w')"
  shows "kv w' (lock_key gid) = Some (RText tok, x)" "clock w \<le> clock w'"
    "\<And>v px. c = SetNX (lock_key gid) v px \<Longrightarrow> r \<noteq> Flag True"
proof -
  have lk: "lock_key gid = lock_key h \<longleftrightarrow> gid = h" for h by (simp add: Key_inj)
  have w': "w' = w \<or> w' = snd (effect ch c w)" and r: "(\<exists>s. r = Failed s) \<or> r = fst (effect ch c w)"
    using assms(5) by (auto simp: exec_def split: net.splits)
  have "kv (snd (effect ch c w)) (lock_key gid) = Some (RText tok, x) \<and> clock w \<le> clock (snd (effect ch c w))"
    using assms(1-4)
    by (cases c) (auto simp: effect_def polite_def saveScript_def releaseScript_def SET_NX_def SET_PX_def
        DEL_def GET_def Let_def Key_inj split: option.splits if_splits)
  then show "kv w' (lock_key gid) = Some (RText tok, x)" "clock w \<le> clock w'" using w' assms(3) by auto
  show "r \<noteq> Flag True" if "c = SetNX (lock_key gid) v px" for v px
    using r that assms(3,4) by (auto simp: effect_def SET_NX_def GET_def)
qed

lemma exec_all_clock: "\<forall>(ch, c) \<in> set cs. polite c \<Longrightarrow> clock w \<le> clock (snd (exec_all cs w))"
proof (induction cs arbitrary: w)
  case (Cons a cs)
  obtain ch c where a: "a = (ch, c)" by fastforce
  obtain r w1 where e: "exec ch c w = (r, w1)" by fastforce
  have "clock w \<le> clock w1"
  proof -
    have "w1 = w \<or> w1 = snd (effect ch c w)" using e by (auto simp: exec_def split: net.splits)
    then show ?thesis using Cons.prems a
      by (cases c) (auto simp: effect_def polite_def Let_def split: prod.splits)
  qed
  moreover have "clock w1 \<le> clock (snd (exec_all cs w1))" using Cons by simp
  ultimately show ?case by (simp add: a e case_prod_beta Let_def)
qed simp

lemma lease_held:
  assumes "kv w (lock_key gid) = Some (RText tok, x)" "clock (snd (exec_all cs w)) < x"
    and "\<forall>(ch, c) \<in> set cs. polite c \<and> c \<noteq> EvalRelease (lock_key gid) tok"
  shows "kv (snd (exec_all cs w)) (lock_key gid) = Some (RText tok, x) \<and>
    (\<forall>v px. (SetNX (lock_key gid) v px, Flag True) \<notin> set (fst (exec_all cs w)))"
  using assms
proof (induction cs arbitrary: w)
  case (Cons a cs)
  obtain ch c where a: "a = (ch, c)" by fastforce
  obtain r w1 where e: "exec ch c w = (r, w1)" by fastforce
  obtain rs w2 where e2: "exec_all cs w1 = (rs, w2)" by fastforce
  have p: "polite c" "c \<noteq> EvalRelease (lock_key gid) tok" using Cons.prems(3) a by auto
  have all: "\<forall>(ch, c) \<in> set cs. polite c" "\<forall>(ch, c) \<in> set (a # cs). polite c" using Cons.prems(3) by auto
  have end_clock: "clock w2 < x" using Cons.prems(2) by (simp add: a e e2)
  have t: "clock w < x"
    using exec_all_clock [OF all(2), of w] Cons.prems(2) by simp
  note pe = polite_exec [OF p Cons.prems(1) t e]
  have "kv w2 (lock_key gid) = Some (RText tok, x) \<and> (\<forall>v px. (SetNX (lock_key gid) v px, Flag True) \<notin> set rs)"
    using Cons.IH [of w1] pe(1) end_clock e2 Cons.prems(3) by simp
  then show ?case using pe(3) by (auto simp: a e e2)
qed simp

lemma acquired_lock:
  "run ch (lock_loop key tok ws) w0 = (Inr t, w) \<Longrightarrow> t = tok \<and> kv w key = Some (RText tok, clock w + 5000)"
proof (induction ws arbitrary: w0)
  case Nil
  then show ?case
    by (subst (asm) lock_loop.simps)
       (auto simp: issue_def exec_def effect_def SET_NX_def SET_PX_def Let_def split: net.splits if_splits)
next
  case (Cons a ws)
  from Cons.prems show ?case
    by (subst (asm) lock_loop.simps)
       (auto simp: issue_def exec_def effect_def SET_NX_def SET_PX_def Let_def split: net.splits if_splits
         dest: Cons.IH)
qed

lemma AcquireLock_holds:
  assumes "run ch (AcquireLock gid) w0 = (Inr tok, w)"
  shows "kv w (lock_key gid) = Some (RText tok, clock w + 5000)"
proof (cases "ch_net ch = Delivered")
  case True
  then have "run ch (lock_loop (lock_key gid) (ch_token ch) lockBackoff) w0 = (Inr tok, w)"
    using assms by (simp add: AcquireLock_def issue_def exec_delivered effect_def)
  from acquired_lock [OF this] show ?thesis by simp
next
  case False
  then show ?thesis using assms
    by (auto simp: AcquireLock_def issue_def exec_def effect_def split: net.splits)
qed

text \<open>
  C11. The lock is a lease of five seconds. Once \<^verbatim>\<open>AcquireLock\<close> has returned a token, no sequence of
  commands of other requests that ends within five seconds and does not present that token takes the
  lock away or lets another request acquire it: a late release under an old token deletes nothing.
\<close>

theorem lease_excludes_others:
  assumes "run ch (AcquireLock gid) w0 = (Inr tok, w)" "clock (snd (exec_all cs w)) < clock w + 5000"
    and "\<forall>(ch, c) \<in> set cs. polite c \<and> c \<noteq> EvalRelease (lock_key gid) tok"
  shows "kv (snd (exec_all cs w)) (lock_key gid) = Some (RText tok, clock w + 5000) \<and>
    (\<forall>v px. (SetNX (lock_key gid) v px, Flag True) \<notin> set (fst (exec_all cs w)))"
  using lease_held [OF AcquireLock_holds [OF assms(1)] assms(2,3)] .

theorem lease_excludes_others_witness:
  "kv (snd (exec_all [(demo_choice, SetNX (lock_key ''g'') ''u'' 5000), (demo_choice, EvalRelease (lock_key ''g'') ''u'')]
      (locked demo_choice ''g'' demo_world))) (lock_key ''g'') = Some (RText ''t'', 5000)"
proof -
  have a: "run demo_choice (AcquireLock ''g'') demo_world = (Inr ''t'', locked demo_choice ''g'' demo_world)"
    using run_AcquireLock [of demo_choice demo_world "''g''"]
    by (simp add: demo_choice_def demo_world_def locked_def GET_def)
  show ?thesis
    using lease_excludes_others [OF a, of "[(demo_choice, SetNX (lock_key ''g'') ''u'' 5000), (demo_choice, EvalRelease (lock_key ''g'') ''u'')]"]
    by (simp add: polite_def exec_def demo_choice_def effect_def SET_NX_def SET_PX_def releaseScript_def GET_def
        locked_def demo_world_def)
qed

end
