(* ===== verification/Interleaving.thy ===== *)
theory Interleaving
  imports Lease
begin

text \<open>
  Any number of requests at once: the interleaved system, the history of the states stored for a game, the
  rely-guarantee argument that no update is lost, and what it means for the tables.
\<close>

section \<open>Requests and the system\<close>

datatype request =
    ReqCreate string GameConfig
  | ReqJoin string string string
  | ReqMove string string MoveType payload "64 word"

definition handler :: "request \<Rightarrow> (SvcErr + Game) prog" where
  "handler q =
     (case q of
        ReqCreate gid cfg \<Rightarrow> svc_CreateGame gid cfg
      | ReqJoin gid uid name \<Rightarrow> svc_JoinGame gid uid name
      | ReqMove gid uid mt pl cv \<Rightarrow> svc_ProcessMove gid uid mt pl cv)"

text \<open>The configurations that the API layer offers (\<^verbatim>\<open>CreateGameHandler\<close>).\<close>

definition offered :: "GameConfig \<Rightarrow> bool" where
  "offered cfg \<longleftrightarrow> config_ok cfg \<and> FailDistribution cfg \<in> {FailEqualSplit, FailDeclarerAlone, FailTwoOneSplit}"

definition request_ok :: "request \<Rightarrow> bool" where
  "request_ok q = (case q of ReqCreate gid cfg \<Rightarrow> offered cfg | _ \<Rightarrow> True)"

type_synonym sys = "world \<times> (SvcErr + Game) prog list"

inductive sys_step :: "sys \<Rightarrow> sys \<Rightarrow> bool" where
  arrive: "request_ok q \<Longrightarrow> sys_step (w, ps) (w, ps @ [handler q])"
| act: "i < length ps \<Longrightarrow> ps ! i = Call c k \<Longrightarrow> exec ch c w = (r, w') \<Longrightarrow>
    sys_step (w, ps) (w', ps[i := k r])"
| tick: "sys_step (w, ps) (w\<lparr>clock := t\<rparr>, ps)"

inductive_cases sys_stepE: "sys_step s s'"

definition empty_world :: "world \<Rightarrow> bool" where
  "empty_world w \<longleftrightarrow> kv w = (\<lambda>_. None) \<and> gameRows w = [] \<and> published w = []"

inductive sys_reach :: "nat \<Rightarrow> sys \<Rightarrow> bool" where
  start: "empty_world w \<Longrightarrow> sys_reach 0 (w, [])"
| step: "sys_reach n s \<Longrightarrow> sys_step s s' \<Longrightarrow> sys_reach (Suc n) s'"

section \<open>Histories of a table\<close>

text \<open>What one successful request does to the stored game.\<close>

definition service_step :: "Game \<Rightarrow> Game \<Rightarrow> bool" where
  "service_step g g' \<longleftrightarrow>
     (\<exists>e uid name. join_table e g uid name = Rejoined g') \<or>
     (\<exists>e uid name s. join_table e g uid name = Seated s g') \<or>
     (\<exists>e uid mt pl. ValidateMove g uid mt pl = None \<and> ApplyMove e g uid mt pl = Inr g')"

lemma service_step_frame:
  "service_step g g' \<Longrightarrow> gID g' = gID g \<and> Version g' = Version g + 1 \<and> Deck g' = Deck g"
  using join_frame ApplyMove_frame unfolding service_step_def by blast

text \<open>The service stores the configuration it is given.\<close>

definition game_history :: "string \<Rightarrow> Game list \<Rightarrow> bool" where
  "game_history gid H \<longleftrightarrow>
     (H \<noteq> [] \<longrightarrow> (\<exists>e cfg. offered cfg \<and> hd H = NewWithConfig e gid cfg)) \<and>
     (\<forall>i. Suc i < length H \<longrightarrow> service_step (H ! i) (H ! Suc i))"

lemma new_game_fields:
  "gID (NewWithConfig e gid cfg) = gid" "Version (NewWithConfig e gid cfg) = 1"
  "no_deck (NewWithConfig e gid cfg)"
  by (simp_all add: NewWithConfig_def Let_def no_deck_def)

lemma history_nth:
  "game_history gid H \<Longrightarrow> i < length H \<Longrightarrow>
    gID (H ! i) = gid \<and> Version (H ! i) = of_nat (Suc i) \<and> no_deck (H ! i)"
proof (induction i)
  case 0
  then obtain e cfg where "H ! 0 = NewWithConfig e gid cfg"
    by (auto simp: game_history_def hd_conv_nth)
  then show ?case by (simp add: new_game_fields)
next
  case (Suc i)
  then have "service_step (H ! i) (H ! Suc i)" by (simp add: game_history_def)
  from service_step_frame [OF this] Suc show ?case by (simp add: no_deck_def)
qed

lemma history_last:
  "game_history gid H \<Longrightarrow> H \<noteq> [] \<Longrightarrow>
    gID (last H) = gid \<and> Version (last H) = of_nat (length H) \<and> no_deck (last H)"
  using history_nth [of gid H "length H - 1"] by (cases H rule: rev_cases) (auto simp: last_conv_nth)

lemma history_snoc:
  assumes "game_history gid H" "H \<noteq> []" "service_step (last H) g"
  shows "game_history gid (H @ [g])"
proof -
  have "service_step ((H @ [g]) ! i) ((H @ [g]) ! Suc i)" if "Suc i < length (H @ [g])" for i
  proof (cases "Suc i < length H")
    case True
    with assms(1) show ?thesis by (simp add: game_history_def nth_append)
  next
    case False
    then have i: "i = length H - 1" using that by simp
    then have "H ! i = last H" "i < length H" "Suc i = length H" using assms(2) by (simp_all add: last_conv_nth)
    with assms(3) show ?thesis by (simp add: nth_append)
  qed
  with assms(1,2) show ?thesis by (simp add: game_history_def)
qed

lemma history_first: "offered cfg \<Longrightarrow> game_history gid [NewWithConfig e gid cfg]"
  by (auto simp: game_history_def)

text \<open>Below the bound of the counter a version identifies its place in the history.\<close>

definition hist :: "string \<Rightarrow> Game list \<Rightarrow> bool" where
  "hist gid H \<longleftrightarrow> game_history gid H \<and> length H < 2 ^ 63"

lemma hist_version:
  assumes "hist gid H" "i < length H"
  shows "Version (H ! i) \<noteq> 0" "Version (H ! i) = Version (last H) \<Longrightarrow> H ! i = last H"
proof -
  have n: "length H < 2 ^ 63" and g: "game_history gid H" using assms(1) by (auto simp: hist_def)
  have u: "unat (of_nat (Suc j) :: 64 word) = Suc j" if "j < length H" for j
    using that n by (simp add: unat_of_nat del: of_nat_Suc)
  have v: "Version (H ! i) = of_nat (Suc i)" using history_nth [OF g assms(2)] by simp
  show "Version (H ! i) \<noteq> 0" using u [OF assms(2)] v by (metis Zero_not_Suc unat_0)
  assume eq: "Version (H ! i) = Version (last H)"
  have l: "Version (last H) = of_nat (Suc (length H - 1))"
    using history_last [OF g] assms(2) by (cases H) auto
  have "unat (of_nat (Suc i) :: 64 word) = unat (of_nat (Suc (length H - 1)) :: 64 word)"
    using eq v l by simp
  moreover have b: "length H - 1 < length H" using assms(2) by simp
  ultimately have "Suc i = Suc (length H - 1)" using u [OF assms(2)] u [OF b] by argo
  then have "i = length H - 1" by simp
  then show "H ! i = last H" using assms(2) by (cases H rule: rev_cases) (auto simp: last_conv_nth)
qed

text \<open>
  An event is about one step of the history: it names the state that the step led to, and the move or the
  seated player that made the step.
\<close>

definition event_from :: "event \<Rightarrow> Game list \<Rightarrow> bool" where
  "event_from ev H \<longleftrightarrow>
     (case ev of
        MoveMade mt uid pl v g \<Rightarrow> v = Version g \<and> g \<in> set H \<and>
          (\<exists>g0 \<in> set H. \<exists>e. ValidateMove g0 uid mt pl = None \<and> ApplyMove e g0 uid mt pl = Inr g)
      | PlayerJoined p v \<Rightarrow> (\<exists>g \<in> set H. \<exists>g0 \<in> set H. v = Version g \<and>
          (\<exists>e uid name s. join_table e g0 uid name = Seated s g \<and> p = Players g ! nat s)))"

lemma event_from_mono: "event_from ev H \<Longrightarrow> set H \<subseteq> set H' \<Longrightarrow> event_from ev H'"
  by (cases ev) (simp_all add: event_from_def, blast+)

lemma move_event:
  "ValidateMove g uid mt pl = None \<Longrightarrow> ApplyMove e g uid mt pl = Inr g' \<Longrightarrow> g \<in> set H \<and> g' \<in> set H \<Longrightarrow>
    event_from (MoveMade mt uid pl (Version g') g') H"
  by (auto simp: event_from_def)

lemma join_event:
  "join_table e g uid name = Seated s g' \<Longrightarrow> g \<in> set H \<and> g' \<in> set H \<Longrightarrow>
    event_from (PlayerJoined (Players g' ! nat s) (Version g')) H"
  unfolding event_from_def event.case by blast

section \<open>Rely and guarantee\<close>

text \<open>
  One game is fixed, by its ID \<open>gid\<close>. A request's knowledge is a history \<open>H\<close> of the game that it has
  seen and whether it has the right to create the game (\<open>own\<close>: its row in \<^verbatim>\<open>games\<close> is the one that
  was inserted). The others may extend the history, but only the owner starts it.
\<close>

definition good :: "string \<Rightarrow> bool \<Rightarrow> Game list \<Rightarrow> bool" where
  "good gid own H \<longleftrightarrow> hist gid H \<and> (own \<longrightarrow> H = [])"

definition grows :: "string \<Rightarrow> bool \<Rightarrow> Game list \<Rightarrow> Game list \<Rightarrow> bool" where
  "grows gid own H H' \<longleftrightarrow> prefix H H' \<and> good gid own H'"

text \<open>What a request may do.\<close>

definition guard :: "string \<Rightarrow> cmd \<Rightarrow> bool \<Rightarrow> Game list \<Rightarrow> bool" where
  "guard gid c own H =
     (case c of
        EvalSave k1 k2 d v x ttl \<Rightarrow>
          (\<exists>g y. c = EvalSave (state_key (gID g)) (version_key (gID g)) (marshal g)
              (FormatInt (Version g)) (FormatInt y) ttlMillis \<and> no_deck g \<and>
             (gID g = gid \<longrightarrow>
               (if own then y = 0 \<and> (\<exists>e cfg. offered cfg \<and> g = NewWithConfig e gid cfg)
                else \<exists>i < length H. y = Version (H ! i) \<and> service_step (H ! i) g)))
      | SetNX k v px \<Rightarrow> (\<exists>h. k = lock_key h)
      | EvalRelease k v \<Rightarrow> (\<exists>h. k = lock_key h)
      | Publish chn ev \<Rightarrow> chn = events_channel gid \<longrightarrow> event_from ev H
      | _ \<Rightarrow> True)"

text \<open>What it may learn from a reply: \<open>H\<close> and \<open>H'\<close> are the histories before and after the command.\<close>

definition answers ::
  "string \<Rightarrow> cmd \<Rightarrow> bool \<Rightarrow> Game list \<Rightarrow> reply \<Rightarrow> bool \<Rightarrow> Game list \<Rightarrow> bool" where
  "answers gid c own H r own' H' =
     (case c of
        Get k \<Rightarrow> own' = own \<and> H' = H \<and>
          (\<forall>g h. k = state_key h \<longrightarrow> r = Value (RDoc g) \<longrightarrow>
             gID g = h \<and> no_deck g \<and> (h = gid \<longrightarrow> H \<noteq> [] \<and> g = last H))
      | EvalSave k1 k2 d v x ttl \<Rightarrow>
          (\<forall>g. d = marshal g \<longrightarrow> k1 = state_key (gID g) \<longrightarrow> no_deck g \<longrightarrow>
            (if gID g = gid
             then (own' = own \<and> H' = H \<and> (\<forall>n. r = Number n \<longrightarrow> n = 0)) \<or> (\<not> own' \<and> H' = H @ [g])
             else own' = own \<and> H' = H))
      | InsertGame row \<Rightarrow> H' = H \<and> (r = Done \<or> (\<exists>s. r = Failed s)) \<and>
          (own' \<longleftrightarrow> own \<or> (grID row = gid \<and> r = Done))
      | _ \<Rightarrow> own' = own \<and> H' = H)"

text \<open>
  The weakest condition under which a program keeps its guarantee at every command and ends with the
  postcondition, whatever the others do in between.
\<close>

primrec wp :: "string \<Rightarrow> 'a prog \<Rightarrow> ('a \<Rightarrow> bool \<Rightarrow> Game list \<Rightarrow> bool) \<Rightarrow> bool \<Rightarrow> Game list \<Rightarrow> bool" where
  "wp gid (Return x) Q own H = (\<forall>H1. grows gid own H H1 \<longrightarrow> Q x own H1)"
| "wp gid (Call c k) Q own H =
     (\<forall>H1. grows gid own H H1 \<longrightarrow> guard gid c own H1 \<and>
       (\<forall>r own' H2. answers gid c own H1 r own' H2 \<longrightarrow> good gid own' H2 \<longrightarrow> wp gid (k r) Q own' H2))"

lemma grows_refl: "good gid own H \<Longrightarrow> grows gid own H H"
  by (simp add: grows_def)

lemma grows_good: "grows gid own H H' \<Longrightarrow> good gid own H'"
  by (simp add: grows_def)

lemma grows_trans: "grows gid own A B \<Longrightarrow> grows gid own B C \<Longrightarrow> grows gid own A C"
  by (auto simp: grows_def intro: prefix_order.trans)

lemma grows_set: "grows gid own H H' \<Longrightarrow> g \<in> set H \<Longrightarrow> g \<in> set H'"
  by (auto simp: grows_def prefix_def)

lemma wp_stable: "wp gid p Q own H \<Longrightarrow> grows gid own H H' \<Longrightarrow> wp gid p Q own H'"
  by (cases p) (auto dest: grows_trans)

lemma wp_now: "(\<And>H1. grows gid own H H1 \<Longrightarrow> wp gid p Q own H1) \<Longrightarrow> wp gid p Q own H"
  by (cases p) (simp, meson grows_good grows_refl)+

lemma wp_bindP:
  "wp gid p (\<lambda>x o' H'. wp gid (f x) Q o' H') own H \<Longrightarrow> wp gid (bindP p f) Q own H"
proof (induction p arbitrary: own H)
  case (Return x)
  then show ?case by (auto intro: wp_now)
next
  case (Call c k)
  then show ?case by auto
qed

lemma quiet_answers:
  "quiet c \<Longrightarrow> guard gid c own H \<and> (answers gid c own H r own' H' \<longrightarrow> own' = own \<and> H' = H)"
  by (cases c) (auto simp: quiet_def guard_def answers_def)

lemma wp_quiet:
  assumes "every quiet p" "\<And>x H1. grows gid own H H1 \<Longrightarrow> Q x own H1"
  shows "wp gid p Q own H"
  using assms
proof (induction p arbitrary: H)
  case (Return x)
  then show ?case by simp
next
  case (Call c k)
  have w: "wp gid (k r) Q own H1" if "grows gid own H H1" for r H1
    by (rule Call.IH) (use that Call.prems in \<open>auto dest: grows_trans\<close>)
  have q: "guard gid c own H1 \<and> (answers gid c own H1 r own' H2 \<longrightarrow> own' = own \<and> H2 = H1)" for r own' H1 H2
    by (rule quiet_answers) (use Call.prems(1) in simp)
  show ?case unfolding wp.simps
  proof (intro allI impI conjI)
    fix H1 r own' H2
    assume g: "grows gid own H H1"
    show "guard gid c own H1" using q by blast
    assume "answers gid c own H1 r own' H2"
    then have "own' = own" "H2 = H1" using q by blast+
    then show "wp gid (k r) Q own' H2" using w [OF g] by simp
  qed
qed

lemma grows_good_trans: "grows gid own A B \<Longrightarrow> good gid own B" "grows gid own A B \<Longrightarrow> grows gid own B C \<Longrightarrow> grows gid own A C"
  by (rule grows_good, assumption, rule grows_trans)

lemma wp_Load:
  assumes "\<And>x H1. grows gid own H H1 \<Longrightarrow>
      (\<forall>g. x = Inr (Some g) \<longrightarrow> gID g = g2 \<and> no_deck g \<and> (g2 = gid \<longrightarrow> g \<in> set H1)) \<Longrightarrow> Q x own H1"
  shows "wp gid (LoadGame g2) Q own H"
proof -
  define conv where "conv r = (case r of Failed s \<Rightarrow> Inl (External s) | Nil \<Rightarrow> Inr None
        | Value (RDoc g) \<Rightarrow> Inr (Some g) | _ \<Rightarrow> Inl (External ''cannot unmarshal''))" for r
  have l: "LoadGame g2 = Call (Get (state_key g2)) (\<lambda>r. Return (conv r))"
    by (auto simp: LoadGame_def conv_def split: reply.split rval.split)
  have "Q (conv r) own H2"
    if g: "grows gid own H H1" "grows gid own H1 H2"
      and a: "answers gid (Get (state_key g2)) own H1 r own' H1" for r H1 H2 own'
  proof (rule assms)
    show "grows gid own H H2" using g by (rule grows_trans)
    show "\<forall>g. conv r = Inr (Some g) \<longrightarrow> gID g = g2 \<and> no_deck g \<and> (g2 = gid \<longrightarrow> g \<in> set H2)"
    proof (intro allI impI)
      fix g assume "conv r = Inr (Some g)"
      then have "r = Value (RDoc g)" by (auto simp: conv_def split: reply.splits rval.splits)
      then have "gID g = g2" "no_deck g" "g2 = gid \<longrightarrow> H1 \<noteq> [] \<and> g = last H1"
        using a by (auto simp: answers_def)
      then show "gID g = g2 \<and> no_deck g \<and> (g2 = gid \<longrightarrow> g \<in> set H2)"
        using grows_set [OF g(2)] by auto
    qed
  qed
  then show ?thesis unfolding l by (auto simp: guard_def answers_def)
qed

lemma wp_Save:
  assumes "no_deck g" "gID g = gid \<longrightarrow> (\<exists>g0 \<in> set H. y = Version g0 \<and> service_step g0 g)"
    and "\<And>x H1. grows gid False H H1 \<Longrightarrow> (x = None \<longrightarrow> gID g = gid \<longrightarrow> g \<in> set H1) \<Longrightarrow> Q x False H1"
  shows "wp gid (SaveGame g y) Q False H"
proof -
  define conv where "conv r = (case r of Failed s \<Rightarrow> Some (External s)
        | Number n \<Rightarrow> (if n = 0 then Some ErrStaleVersion else None)
        | _ \<Rightarrow> Some (External ''unexpected reply type''))" for r
  let ?c = "EvalSave (state_key (gID g)) (version_key (gID g)) (marshal g) (FormatInt (Version g)) (FormatInt y) ttlMillis"
  have l: "SaveGame g y = Call ?c (\<lambda>r. Return (conv r))"
    by (auto simp: SaveGame_def conv_def split: reply.split)
  have gu: "guard gid ?c False H1" if "grows gid False H H1" for H1
  proof -
    have "\<exists>i < length H1. y = Version (H1 ! i) \<and> service_step (H1 ! i) g" if "gID g = gid"
      using assms(2) that grows_set [OF \<open>grows gid False H H1\<close>] by (metis in_set_conv_nth)
    then show ?thesis using assms(1) by (auto simp: guard_def intro!: exI [of _ g] exI [of _ y])
  qed
  have "Q (conv r) own' H3"
    if g: "grows gid False H H1" "answers gid ?c False H1 r own' H2" "grows gid own' H2 H3" for r own' H1 H2 H3
  proof -
    have "(\<not> own' \<and> H2 = H1 \<and> (gID g = gid \<longrightarrow> (\<forall>n. r = Number n \<longrightarrow> n = 0))) \<or>
        (gID g = gid \<and> \<not> own' \<and> H2 = H1 @ [g])"
      using g(2) assms(1) by (cases "gID g = gid") (auto simp: answers_def)
    then have o: "\<not> own'" and p: "prefix H1 H2" and m: "conv r = None \<Longrightarrow> gID g = gid \<Longrightarrow> g \<in> set H2"
      by (auto simp: conv_def split: reply.splits if_splits)
    have "grows gid False H H3" using g(1,3) o p by (auto simp: grows_def intro: prefix_order.trans)
    then have "Q (conv r) False H3"
      by (rule assms(3)) (use m g(3) grows_set in blast)
    moreover have "own' = False" using o by simp
    ultimately show ?thesis by simp
  qed
  then show ?thesis unfolding l wp.simps using gu by blast
qed

lemma wp_mono:
  assumes "wp gid p Q own H" "\<And>x o' H'. good gid o' H' \<Longrightarrow> Q x o' H' \<Longrightarrow> Q' x o' H'"
  shows "wp gid p Q' own H"
  using assms(1)
proof (induction p arbitrary: own H)
  case (Return x)
  then show ?case using assms(2) grows_good by simp
next
  case (Call c k)
  then show ?case by simp
qed

lemma wp_with_env:
  assumes "\<And>e H1. grows gid own H H1 \<Longrightarrow> wp gid (k e) Q own H1"
    and "\<And>H1. grows gid own H H1 \<Longrightarrow> Q (Inl (External ''no clock'')) own H1"
  shows "wp gid (with_env k) Q own H"
proof -
  have "wp gid (case r of EnvIs e \<Rightarrow> k e | _ \<Rightarrow> Return (Inl (External ''no clock''))) Q own H1"
    if g: "grows gid own H H1" for r H1
  proof -
    have "Q (Inl (External ''no clock'')) own H2" if "grows gid own H1 H2" for H2
      by (rule assms(2) [OF grows_trans [OF g that]])
    then show ?thesis using assms(1) [OF g] by (cases r) simp_all
  qed
  then show ?thesis by (simp add: with_env_def guard_def answers_def)
qed

section \<open>The handlers keep the guarantee\<close>

text \<open>A game that is answered to a client is in the history.\<close>

definition answered :: "string \<Rightarrow> (SvcErr + Game) \<Rightarrow> bool \<Rightarrow> Game list \<Rightarrow> bool" where
  "answered gid x own H \<longleftrightarrow> (\<forall>g. x = Inr g \<longrightarrow> gID g = gid \<longrightarrow> g \<in> set H)"

lemma answered_Inl [simp]: "answered gid (Inl e) own H"
  by (simp add: answered_def)

lemma answered_stable: "answered gid x o' H \<Longrightarrow> grows gid own H H' \<Longrightarrow> answered gid x o'' H'"
  by (auto simp: answered_def dest: grows_set)

lemma wp_Inl [simp]: "wp gid (Return (Inl e)) (answered gid) own H"
  by simp

lemma wp_then_quiet:
  assumes "every quiet p" "answered gid x own H"
  shows "wp gid (bindP p (\<lambda>_. Return x)) (answered gid) own H"
  using assms(2) by (intro wp_bindP wp_quiet [OF assms(1)]) (auto intro: answered_stable)

lemma wp_withGameLock:
  assumes "\<And>H1. grows gid False H H1 \<Longrightarrow> wp gid body (answered gid) False H1"
  shows "wp gid (withGameLock g2 body) (answered gid) False H"
  unfolding withGameLock_def
proof (rule wp_bindP, rule wp_quiet [OF quiet_leaves(1)])
  fix l :: "SvcErr + string" and H1 assume g: "grows gid False H H1"
  have "wp gid (bindP body (\<lambda>result. bindP (ReleaseLock g2 tok) (\<lambda>_. Return result))) (answered gid) False H1" for tok
    by (rule wp_bindP, rule wp_mono [OF assms [OF g]]) (rule wp_then_quiet [OF quiet_leaves(2)])
  then show "wp gid (case l of Inl err \<Rightarrow> Return (Inl (if errors_is err ErrLockFailed then ErrGameBusy
      else Wrapped ''failed to acquire lock'' err))
     | Inr token \<Rightarrow> bindP body (\<lambda>result. bindP (ReleaseLock g2 token) (\<lambda>_. Return result)))
     (answered gid) False H1"
    by (cases l) simp_all
qed

text \<open>The part of a handler after the save: an error, or bookkeeping and the answer.\<close>

lemma wp_save_answer:
  assumes "gID g = g2" "no_deck g" "g2 = gid \<longrightarrow> g \<in> set H" "service_step g g'"
    and "\<And>x. x \<noteq> None \<Longrightarrow> \<exists>e. rest x = Return (Inl e)"
    and "\<And>H1. answered gid (Inr g') False H1 \<Longrightarrow> good gid False H1 \<Longrightarrow>
      (g2 = gid \<longrightarrow> g \<in> set H1 \<and> g' \<in> set H1) \<Longrightarrow> wp gid (rest None) (answered gid) False H1"
  shows "wp gid (bindP (SaveGame g' (Version g)) rest) (answered gid) False H"
proof (rule wp_bindP, rule wp_Save)
  note f = service_step_frame [OF assms(4)]
  show "no_deck g'" using f assms(2) by (simp add: no_deck_def)
  show "gID g' = gid \<longrightarrow> (\<exists>g0 \<in> set H. Version g = Version g0 \<and> service_step g0 g')"
    using assms(1,3,4) f by auto
  fix x :: "SvcErr option" and H1
  assume g: "grows gid False H H1" and x: "x = None \<longrightarrow> gID g' = gid \<longrightarrow> g' \<in> set H1"
  show "wp gid (rest x) (answered gid) False H1"
  proof (cases x)
    case None
    have "g2 = gid \<longrightarrow> g \<in> set H1 \<and> g' \<in> set H1" using x None f assms(1,3) grows_set [OF g] by auto
    then show ?thesis using None assms(6) x grows_good [OF g] by (simp add: answered_def)
  next
    case (Some e)
    then show ?thesis using assms(5) [of x] by auto
  qed
qed

lemma wp_Publish:
  assumes "g2 = gid \<longrightarrow> event_from ev H" "answered gid x own H"
  shows "wp gid (bindP (PublishEvent g2 ev) (\<lambda>_. Return x)) (answered gid) own H"
proof -
  have e: "event_from ev H1" if "grows gid own H H1" "g2 = gid" for H1
    using event_from_mono assms(1) grows_set [OF that(1)] that(2) by (simp add: subsetI)
  have a: "answered gid x own H2" if "grows gid own H H1" "grows gid own H1 H2" for H1 H2
    using answered_stable [OF assms(2) grows_trans [OF that]] .
  show ?thesis by (auto simp: PublishEvent_def guard_def answers_def Key_inj e a)
qed

lemma wp_bookkeeping:
  assumes "answered gid (Inr g') False H" "g2 = gid \<longrightarrow> event_from ev H"
  shows "wp gid (bindP (pg_SaveMove mt uid s v cv lp g2) (\<lambda>err. case err of
      Some x \<Rightarrow> Return (Inl (Wrapped msg x))
    | None \<Rightarrow> bindP (PublishEvent g2 ev) (\<lambda>_. Return (Inr g')))) (answered gid) False H"
proof (rule wp_bindP, rule wp_quiet [OF quiet_leaves(3)])
  fix x :: "SvcErr option" and H1 assume "grows gid False H H1"
  then have "answered gid (Inr g') False H1" "g2 = gid \<longrightarrow> event_from ev H1"
    using answered_stable [OF assms(1)] event_from_mono assms(2) grows_set by (blast, meson subsetI)
  then show "wp gid (case x of Some x \<Rightarrow> Return (Inl (Wrapped msg x))
    | None \<Rightarrow> bindP (PublishEvent g2 ev) (\<lambda>_. Return (Inr g'))) (answered gid) False H1"
    using wp_Publish by (cases x) simp_all
qed

lemma wp_join_loaded:
  assumes "gID g = g2" "no_deck g" "g2 = gid \<longrightarrow> g \<in> set H"
  shows "wp gid (join_loaded g2 uid name g) (answered gid) False H"
  unfolding join_loaded_def
proof (rule wp_with_env)
  fix e H1 assume "grows gid False H H1"
  then have m: "g2 = gid \<longrightarrow> g \<in> set H1" using assms(3) grows_set by blast
  note sv = wp_save_answer [OF assms(1,2) m]
  show "wp gid (case join_table e g uid name of TableFull \<Rightarrow> Return (Inl ErrGameFull)
     | Rejoined g' \<Rightarrow> bindP (SaveGame g' (Version g)) (\<lambda>err. case err of Some x \<Rightarrow> Return (Inl x)
         | None \<Rightarrow> Return (Inr g'))
     | Seated seat g' \<Rightarrow> commit_join g2 uid name g seat g') (answered gid) False H1"
  proof (cases "join_table e g uid name")
    case (Rejoined g')
    then have st: "service_step g g'" unfolding service_step_def by blast
    have "wp gid (bindP (SaveGame g' (Version g)) (\<lambda>err. case err of Some x \<Rightarrow> Return (Inl x)
         | None \<Rightarrow> Return (Inr g'))) (answered gid) False H1"
      by (rule sv [OF st]) (auto intro: answered_stable)
    then show ?thesis by (simp add: Rejoined)
  next
    case (Seated seat g')
    then have st: "service_step g g'" unfolding service_step_def by blast
    have "wp gid (commit_join g2 uid name g seat g') (answered gid) False H1"
      unfolding commit_join_def
      by (rule sv [OF st]) (auto intro: wp_bookkeeping join_event [OF Seated])
    then show ?thesis by (simp add: Seated)
  qed simp
qed simp

lemma wp_move_loaded:
  assumes "gID g = g2" "no_deck g" "g2 = gid \<longrightarrow> g \<in> set H"
  shows "wp gid (move_loaded g2 uid mt pl cv g) (answered gid) False H"
proof (cases "cv \<noteq> Version g \<or> ValidateMove g uid mt pl \<noteq> None")
  case True
  then show ?thesis by (auto simp: move_loaded_def split: option.split)
next
  case False
  then have v: "ValidateMove g uid mt pl = None" and cv: "cv = Version g" by auto
  have "wp gid (with_env (\<lambda>e. case ApplyMove e g uid mt pl of
      Inl err \<Rightarrow> Return (Inl (GameErr err)) | Inr g' \<Rightarrow> commit_move g2 uid mt pl cv g g')) (answered gid) False H"
  proof (rule wp_with_env)
    fix e H1 assume "grows gid False H H1"
    then have m: "g2 = gid \<longrightarrow> g \<in> set H1" using assms(3) grows_set by blast
    show "wp gid (case ApplyMove e g uid mt pl of
      Inl err \<Rightarrow> Return (Inl (GameErr err)) | Inr g' \<Rightarrow> commit_move g2 uid mt pl cv g g') (answered gid) False H1"
    proof (cases "ApplyMove e g uid mt pl")
      case (Inr g')
      then have st: "service_step g g'" using v unfolding service_step_def by blast
      have "wp gid (commit_move g2 uid mt pl cv g g') (answered gid) False H1"
        unfolding commit_move_def
        by (rule wp_save_answer [OF assms(1,2) m st]) (auto intro: wp_bookkeeping move_event [OF v Inr])
      then show ?thesis by (simp add: Inr)
    qed simp
  qed simp
  with v cv show ?thesis unfolding move_loaded_def by simp
qed

lemma wp_loaded:
  assumes "\<And>g H1. gID g = g2 \<Longrightarrow> no_deck g \<Longrightarrow> (g2 = gid \<longrightarrow> g \<in> set H1) \<Longrightarrow>
      wp gid (body g) (answered gid) False H1"
  shows "wp gid (bindP (LoadGame g2) (\<lambda>l. case l of Inl err \<Rightarrow> Return (Inl (F err))
      | Inr None \<Rightarrow> Return (Inl ErrGameNotFound) | Inr (Some g) \<Rightarrow> body g)) (answered gid) False H"
  by (rule wp_bindP, rule wp_Load) (auto intro: assms split: sum.split option.split)

lemma wp_Save_first:
  assumes "offered cfg" and q: "\<And>x own' H1. good gid own' H1 \<Longrightarrow> (x = None \<longrightarrow> NewWithConfig e gid cfg \<in> set H1) \<Longrightarrow> Q x own' H1"
  shows "wp gid (SaveGame (NewWithConfig e gid cfg) 0) Q True H"
proof -
  let ?g = "NewWithConfig e gid cfg"
  define conv where "conv r = (case r of Failed s \<Rightarrow> Some (External s)
        | Number n \<Rightarrow> (if n = 0 then Some ErrStaleVersion else None)
        | _ \<Rightarrow> Some (External ''unexpected reply type''))" for r
  let ?c = "EvalSave (state_key (gID ?g)) (version_key (gID ?g)) (marshal ?g) (FormatInt (Version ?g)) (FormatInt 0) ttlMillis"
  have l: "SaveGame ?g 0 = Call ?c (\<lambda>r. Return (conv r))"
    by (auto simp: SaveGame_def conv_def split: reply.split)
  have gu: "guard gid ?c True H1" for H1
    unfolding guard_def using new_game_fields(3) [of e gid cfg]
    using assms(1) by (auto intro!: exI [of _ ?g] exI [of _ "0 :: 64 word"])
  have "Q (conv r) own' H3"
    if a: "answers gid ?c True H1 r own' H2" "grows gid own' H2 H3" for r own' H1 H2 H3
  proof (rule q)
    show "good gid own' H3" by (rule grows_good [OF a(2)])
    have "(\<forall>n. r = Number n \<longrightarrow> n = 0) \<or> ?g \<in> set H2"
      using a(1) new_game_fields [of e gid cfg] unfolding answers_def cmd.case
      by (auto dest!: spec [of _ ?g])
    then show "conv r = None \<longrightarrow> ?g \<in> set H3"
      using grows_set [OF a(2)] by (auto simp: conv_def split: reply.splits if_splits)
  qed
  then show ?thesis unfolding l using gu by auto
qed

lemma wp_Insert:
  assumes "\<And>own' H1 err. good gid own' H1 \<Longrightarrow> (err = None \<longrightarrow> own' \<longleftrightarrow> grID row = gid) \<Longrightarrow> Q err own' H1"
  shows "wp gid (Call (InsertGame row) (\<lambda>r. Return (case r of Failed s \<Rightarrow> Some (External s) | _ \<Rightarrow> None))) Q False H"
proof -
  have "Q (case r of Failed s \<Rightarrow> Some (External s) | _ \<Rightarrow> None) own' H3"
    if "answers gid (InsertGame row) False H1 r own' H2" "grows gid own' H2 H3" for r own' H1 H2 H3
    by (rule assms [OF grows_good [OF that(2)]]) (use that(1) in \<open>auto simp: answers_def\<close>)
  then show ?thesis by (simp add: guard_def)
qed

text \<open>A creation that succeeds has used up its right to create.\<close>

definition created :: "string \<Rightarrow> (SvcErr + Game) \<Rightarrow> bool \<Rightarrow> Game list \<Rightarrow> bool" where
  "created gid x own H \<longleftrightarrow> answered gid x own H \<and> (\<forall>g. x = Inr g \<longrightarrow> \<not> own)"

lemma wp_create:
  assumes "offered cfg"
  shows "wp gid (svc_CreateGame g2 cfg) (created gid) False H"
  unfolding svc_CreateGame_def
proof (rule wp_with_env)
  fix e H1
  let ?g = "NewWithConfig e g2 cfg"
  let ?save = "bindP (SaveGame ?g 0) (\<lambda>err. case err of
      Some x \<Rightarrow> Return (Inl (Wrapped ''failed to save game in redis'' x)) | None \<Rightarrow> Return (Inr ?g))"
  have s: "wp gid ?save (created gid) own H2" if "own \<longleftrightarrow> g2 = gid" for own H2
  proof (cases own)
    case True
    then have g2: "g2 = gid" using that by simp
    show ?thesis unfolding g2 using True assms
      by (auto intro!: wp_bindP wp_Save_first split: option.split simp: created_def answered_def grows_set dest!: grows_good simp: good_def)
  next
    case False
    then have "g2 \<noteq> gid" using that by simp
    then show ?thesis using False new_game_fields [of e g2 cfg]
      by (auto intro!: wp_bindP wp_Save split: option.split simp: created_def answered_def)
  qed
  show "wp gid (let g = ?g in bindP (pg_CreateGame g) (\<lambda>err. case err of
           Some x \<Rightarrow> Return (Inl (Wrapped ''failed to create game in db'' x))
         | None \<Rightarrow> bindP (SaveGame g 0) (\<lambda>err. case err of
                 Some x \<Rightarrow> Return (Inl (Wrapped ''failed to save game in redis'' x))
               | None \<Rightarrow> Return (Inr g)))) (created gid) False H1"
    unfolding Let_def pg_CreateGame_def
  proof (rule wp_bindP, rule wp_Insert)
    fix own' H3 and err :: "SvcErr option"
    assume "good gid own' H3"
      "err = None \<longrightarrow> own' \<longleftrightarrow> grID \<lparr>grID = gID ?g, grStatus = Status ?g, grVersion = Version ?g, grCreated = CreatedAt ?g\<rparr> = gid"
    then show "wp gid (case err of Some x \<Rightarrow> Return (Inl (Wrapped ''failed to create game in db'' x))
         | None \<Rightarrow> ?save) (created gid) own' H3"
      using s by (cases err) (simp_all add: new_game_fields created_def)
  qed
qed (simp add: created_def)

lemma wp_handler:
  assumes "request_ok q"
  shows "wp gid (handler q) (answered gid) False H"
  using assms
  by (cases q) (auto simp: created_def handler_def request_ok_def svc_JoinGame_def svc_ProcessMove_def simp del: wp.simps
      intro!: wp_mono [OF wp_create] wp_withGameLock wp_loaded [where F = "\<lambda>x. x"] wp_loaded wp_join_loaded wp_move_loaded)

section \<open>The store and the history\<close>

definition docs_ok :: "world \<Rightarrow> bool" where
  "docs_ok w \<longleftrightarrow> (\<forall>h g x. kv w (state_key h) = Some (RDoc g, x) \<longrightarrow> gID g = h \<and> no_deck g)"

definition has_row :: "string \<Rightarrow> world \<Rightarrow> bool" where
  "has_row gid w \<longleftrightarrow> gid \<in> set (map grID (gameRows w))"

definition world_inv :: "string \<Rightarrow> world \<Rightarrow> Game list \<Rightarrow> bool" where
  "world_inv gid w H \<longleftrightarrow> game_history gid H \<and> cell_holds gid (kv w) H \<and> docs_ok w \<and>
     (\<not> has_row gid w \<longrightarrow> H = []) \<and> (\<forall>ev. (events_channel gid, ev) \<in> set (published w) \<longrightarrow> event_from ev H)"

text \<open>How one command of a request takes the history from \<open>H\<close> to \<open>H'\<close>.\<close>

definition advances :: "string \<Rightarrow> bool \<Rightarrow> world \<Rightarrow> Game list \<Rightarrow> bool \<Rightarrow> Game list \<Rightarrow> bool" where
  "advances gid own w H own' H' \<longleftrightarrow>
     (H' = H \<or> ((own \<or> H \<noteq> []) \<and> (\<exists>g. H' = H @ [g]))) \<and> (own' \<longrightarrow> H' = []) \<and>
     (own' \<longrightarrow> own \<or> \<not> has_row gid w)"

text \<open>A save that goes through appends its game to the history.\<close>

lemma saved_history:
  assumes h: "hist gid H" and own: "own \<longrightarrow> H = []" and last: "H \<noteq> [] \<Longrightarrow> y = Version (last H)"
    and k: "if own then y = 0 \<and> (\<exists>e cfg. offered cfg \<and> g = NewWithConfig e gid cfg)
        else \<exists>i < length H. y = Version (H ! i) \<and> service_step (H ! i) g"
  shows "game_history gid (H @ [g])" "own \<or> H \<noteq> []"
proof -
  show "own \<or> H \<noteq> []" using k by (cases own) auto
  show "game_history gid (H @ [g])"
  proof (cases own)
    case True
    then show ?thesis using k own history_first by auto
  next
    case False
    then obtain i where i: "i < length H" "y = Version (H ! i)" "service_step (H ! i) g" using k by auto
    then have ne: "H \<noteq> []" by auto
    then have "H ! i = last H" using hist_version(2) [OF h i(1)] i(2) last by simp
    then show ?thesis using history_snoc [of gid H g] ne i(3) h by (simp add: hist_def)
  qed
qed

lemma save_advances:
  assumes inv: "world_inv gid w H" "length H < 2 ^ 63" and own: "own \<longrightarrow> H = [] \<and> has_row gid w"
    and g: "guard gid (EvalSave k1 k2 d v x ttl) own H"
    and run: "saveScript (clock w) k1 k2 d v x ttl (kv w) = (n, m)"
    and r: "\<And>k. r = Number k \<Longrightarrow> k = n"
  shows "\<exists>own' H'. answers gid (EvalSave k1 k2 d v x ttl) own H r own' H' \<and>
    world_inv gid (w\<lparr>kv := m\<rparr>) H' \<and> advances gid own w H own' H' \<and> (own' \<longrightarrow> own)"
proof -
  obtain h y where c: "k1 = state_key (gID h)" "k2 = version_key (gID h)" "d = marshal h"
      "v = FormatInt (Version h)" "x = FormatInt y" "ttl = ttlMillis" "no_deck h"
    and k: "gID h = gid \<longrightarrow> (if own then y = 0 \<and> (\<exists>e cfg. offered cfg \<and> h = NewWithConfig e gid cfg)
        else \<exists>i < length H. y = Version (H ! i) \<and> service_step (H ! i) h)"
    using g by (auto simp: guard_def)
  have inj: "g = h" if "d = marshal g" "no_deck g" for g
    using that c(3,7) by (simp add: marshal_no_deck)
  have n: "n = 0 \<and> m = kv w \<or> n = 1 \<and> m = SET_PX (clock w) k2 (RText v) ttl (SET_PX (clock w) k1 d ttl (kv w))"
    using run by (auto simp: saveScript_def Let_def split: if_splits)
  show ?thesis
  proof (cases "n = 0")
    case True
    then have "w\<lparr>kv := m\<rparr> = w" using n by simp
    moreover have "answers gid (EvalSave k1 k2 d v x ttl) own H r own H"
      using r True by (auto simp: answers_def)
    ultimately show ?thesis using inv own by (auto simp: advances_def)
  next
    case False
    then have m: "m = SET_PX (clock w) k2 (RText v) ttl (SET_PX (clock w) k1 (RDoc h) ttl (kv w))"
      using n c by (simp add: marshal_no_deck)
    have docs: "docs_ok (w\<lparr>kv := m\<rparr>)"
      using inv(1) c(7) by (auto simp: world_inv_def docs_ok_def m c SET_PX_def Key_inj)
    have row: "has_row gid (w\<lparr>kv := m\<rparr>) = has_row gid w" by (simp add: has_row_def)
    show ?thesis
    proof (cases "gID h = gid")
      case False
      have "cell_holds gid m H = cell_holds gid (kv w) H"
        by (rule cell_holds_frame) (use False in \<open>simp_all add: m c SET_PX_def Key_inj\<close>)
      moreover have "answers gid (EvalSave k1 k2 d v x ttl) own H r own H"
        using False inj by (auto simp: answers_def)
      ultimately show ?thesis using inv docs own row by (auto simp: world_inv_def advances_def)
    next
      case True
      have sv: "cell_save gid (clock w) y h (kv w) = (True, m)"
        using run False n c True by (auto simp: cell_save_def)
      have h: "cell_holds gid (kv w) H" "game_history gid H" using inv(1) by (simp_all add: world_inv_def)
      note sd = cell.save_done [OF h(1) c(7) sv]
      have hist: "hist gid H" using h inv(2) by (simp add: hist_def)
      have own0: "own \<longrightarrow> H = []" using own by simp
      note k = k [THEN mp, OF True]
      have last: "H \<noteq> [] \<Longrightarrow> y = Version (last H)"
        using sd k own0 hist_version(1) [OF hist] by (auto split: if_splits)
      note gh = saved_history(1) [OF hist own0 last k] and ne = saved_history(2) [OF hist own0 last k]
      have "answers gid (EvalSave k1 k2 d v x ttl) own H r False (H @ [h])"
        using True inj by (auto simp: answers_def)
      moreover have "event_from ev (H @ [h])" if "(events_channel gid, ev) \<in> set (published w)" for ev
        using inv(1) that event_from_mono [of ev H "H @ [h]"] by (auto simp: world_inv_def)
      moreover have "has_row gid w" using own ne inv(1) by (auto simp: world_inv_def)
      ultimately show ?thesis using sd gh docs ne row
        by (intro exI [of _ False] exI [of _ "H @ [h]"]) (auto simp: world_inv_def advances_def)
    qed
  qed
qed

lemma kv_frame:
  assumes "world_inv gid w H" "\<And>h. m (state_key h) = kv w (state_key h)" "m (version_key gid) = kv w (version_key gid)"
  shows "world_inv gid (w\<lparr>kv := m\<rparr>) H"
  using assms cell_holds_frame [of m gid "kv w"]
  by (simp add: world_inv_def docs_ok_def has_row_def)

lemma insert_advances:
  assumes inv: "world_inv gid w H" and own: "own \<longrightarrow> H = [] \<and> has_row gid w"
    and e: "w' = snd (effect ch (InsertGame row) w)" and r: "(\<exists>s. r = Failed s) \<or> r = fst (effect ch (InsertGame row) w)"
  shows "\<exists>own' H'. answers gid (InsertGame row) own H r own' H' \<and> world_inv gid w' H' \<and> advances gid own w H own' H' \<and>
    (own' \<longrightarrow> has_row gid w')"
proof -
  define own' where "own' \<longleftrightarrow> own \<or> (grID row = gid \<and> r = Done)"
  have a: "answers gid (InsertGame row) own H r own' H"
    using r by (auto simp: answers_def own'_def effect_def split: if_splits)
  have new: "own' \<Longrightarrow> own \<or> (\<not> has_row gid w \<and> has_row gid w')"
    using r e by (auto simp: own'_def effect_def has_row_def split: if_splits)
  have "world_inv gid w' H" using inv e by (auto simp: world_inv_def effect_def docs_ok_def has_row_def)
  moreover have "own' \<longrightarrow> has_row gid w'" using new own e by (auto simp: has_row_def effect_def)
  moreover have "advances gid own w H own' H" using new own inv by (auto simp: advances_def world_inv_def)
  ultimately show ?thesis using a by blast
qed

lemma exec_advances:
  assumes inv: "world_inv gid w H" "length H < 2 ^ 63" and own: "own \<longrightarrow> H = [] \<and> has_row gid w"
    and g: "guard gid c own H" and run: "exec ch c w = (r, w')"
  shows "\<exists>own' H'. answers gid c own H r own' H' \<and> world_inv gid w' H' \<and> advances gid own w H own' H' \<and>
    (own' \<longrightarrow> has_row gid w')"
proof -
  have lost: ?thesis if "w' = w" "r = Failed s" for s
  proof -
    have "answers gid c own H (Failed s) own H" by (cases c) (auto simp: answers_def)
    then show ?thesis using that inv own by (auto simp: advances_def)
  qed
  have quiet: ?thesis if "quiet c" "\<forall>k. c \<noteq> Get k" "world_inv gid w' H" "gameRows w' = gameRows w"
  proof -
    have "answers gid c own H r own H" using that(1,2) by (cases c) (auto simp: answers_def quiet_def)
    then show ?thesis using that(3,4) own by (auto simp: advances_def has_row_def)
  qed
  have w': "w' = w \<or> w' = snd (effect ch c w)" and r: "(\<exists>s. r = Failed s) \<or> (r = fst (effect ch c w) \<and> w' = snd (effect ch c w))"
    using run by (auto simp: exec_def split: net.splits)
  show ?thesis
  proof (cases "w' = w \<and> (\<exists>s. r = Failed s)")
    case True
    then show ?thesis using lost by blast
  next
    case False
    then have e: "w' = snd (effect ch c w)" using w' r by auto
    show ?thesis
    proof (cases c)
      case (EvalSave k1 k2 d v x ttl)
      obtain n m where s: "saveScript (clock w) k1 k2 d v x ttl (kv w) = (n, m)" by fastforce
      have "w' = w\<lparr>kv := m\<rparr>" "\<And>k. r = Number k \<Longrightarrow> k = n"
        using e r s EvalSave by (auto simp: effect_def)
      then show ?thesis
        using save_advances [OF inv own g [unfolded EvalSave] s, of r] own
        by (auto simp: EvalSave has_row_def)
    next
      case (Get k)
      then have "w' = w" using e by (auto simp: effect_def split: option.splits)
      moreover have "answers gid c own H r own H"
        using r inv(1) Get
        by (auto simp: answers_def effect_def world_inv_def docs_ok_def GET_Some cell_holds_def
            split: option.splits if_splits)
      ultimately show ?thesis using inv own by (auto simp: advances_def)
    next
      case (SetNX k v px)
      then obtain h where h: "k = lock_key h" using g by (auto simp: guard_def)
      show ?thesis
        by (rule quiet) (use SetNX h e inv(1) in \<open>auto simp: quiet_def effect_def SET_NX_def SET_PX_def
          intro!: kv_frame split: prod.splits if_splits\<close>)
    next
      case (EvalRelease k v)
      then obtain h where h: "k = lock_key h" using g by (auto simp: guard_def)
      show ?thesis
        by (rule quiet) (use EvalRelease h e inv(1) in \<open>auto simp: quiet_def effect_def releaseScript_def DEL_def
          intro!: kv_frame split: prod.splits if_splits\<close>)
    next
      case (InsertGame row)
      show ?thesis unfolding InsertGame
        by (rule insert_advances [OF inv(1) own]) (use e r InsertGame in auto)
    next
      case (Publish chn ev)
      have "world_inv gid w' H"
        using inv(1) e g Publish by (auto simp: world_inv_def effect_def docs_ok_def has_row_def guard_def)
      moreover have "answers gid c own H r own H" "gameRows w' = gameRows w"
        using e Publish by (auto simp: answers_def effect_def)
      ultimately show ?thesis using own by (auto simp: advances_def has_row_def)
    qed (rule quiet; use e inv(1) in \<open>auto simp: quiet_def effect_def world_inv_def docs_ok_def has_row_def\<close>)+
  qed
qed

section \<open>Every interleaving\<close>

text \<open>
  The requests in flight know the history; at most one of them may still create the game. \<open>Q\<close> is what
  every request ends with.
\<close>

definition sys_inv ::
  "string \<Rightarrow> ('a \<Rightarrow> bool \<Rightarrow> Game list \<Rightarrow> bool) \<Rightarrow> world \<times> 'a prog list \<Rightarrow> Game list \<Rightarrow> nat option \<Rightarrow> bool" where
  "sys_inv gid Q s H owner \<longleftrightarrow> (case s of (w, ps) \<Rightarrow>
     world_inv gid w H \<and>
     (\<forall>i. owner = Some i \<longrightarrow> i < length ps \<and> H = [] \<and> has_row gid w) \<and>
     (\<forall>i < length ps. wp gid (ps ! i) Q (owner = Some i) H))"

lemma sys_inv_start: "empty_world w \<Longrightarrow> sys_inv gid Q (w, []) [] None"
  by (simp add: sys_inv_def world_inv_def empty_world_def cell_holds_def docs_ok_def game_history_def)

lemma sys_inv_tick: "sys_inv gid Q (w, ps) H owner \<Longrightarrow> sys_inv gid Q (w\<lparr>clock := t\<rparr>, ps) H owner"
  by (simp add: sys_inv_def world_inv_def docs_ok_def has_row_def)

lemma sys_inv_arrive:
  assumes inv: "sys_inv gid Q (w, ps) H owner" and p: "wp gid p Q False H"
  shows "sys_inv gid Q (w, ps @ [p]) H owner"
proof -
  have "wp gid ((ps @ [p]) ! j) Q (owner = Some j) H" if "j < Suc (length ps)" for j
  proof (cases "j < length ps")
    case True
    then show ?thesis using inv by (simp add: sys_inv_def nth_append)
  next
    case False
    then have "j = length ps" "owner \<noteq> Some j" using inv that by (auto simp: sys_inv_def)
    then show ?thesis using p by simp
  qed
  then show ?thesis using inv by (auto simp: sys_inv_def)
qed

lemma sys_inv_act:
  assumes inv: "sys_inv gid Q (w, ps) H owner" and len: "Suc (length H) < 2 ^ 63"
    and i: "i < length ps" and p: "ps ! i = Call c k" and run: "exec ch c w = (r, w')"
  shows "\<exists>H' owner'. sys_inv gid Q (w', ps[i := k r]) H' owner' \<and> length H' \<le> Suc (length H)"
proof -
  let ?own = "owner = Some i"
  have w: "world_inv gid w H" and ow: "\<forall>i. owner = Some i \<longrightarrow> i < length ps \<and> H = [] \<and> has_row gid w"
    and wps: "\<And>j. j < length ps \<Longrightarrow> wp gid (ps ! j) Q (owner = Some j) H"
    using inv by (auto simp: sys_inv_def)
  have hist: "hist gid H" using w len by (simp add: hist_def world_inv_def)
  have good: "good gid (owner = Some j) H" for j using hist ow by (simp add: good_def)
  have wpi: "wp gid (Call c k) Q ?own H" using wps [OF i] p by simp
  then have g: "guard gid c ?own H"
    and cont: "\<And>r own' H2. answers gid c ?own H r own' H2 \<Longrightarrow> good gid own' H2 \<Longrightarrow> wp gid (k r) Q own' H2"
    using grows_refl [OF good [of i]] by auto
  obtain own' H' where a: "answers gid c ?own H r own' H'" "world_inv gid w' H'"
    "advances gid ?own w H own' H'" "own' \<longrightarrow> has_row gid w'"
    using exec_advances [OF w _ _ g run] ow len by auto
  have l: "length H' \<le> Suc (length H)" using a(3) by (auto simp: advances_def)
  have h': "hist gid H'" using a(2) l len by (simp add: hist_def world_inv_def)
  define owner' where "owner' = (if own' then Some i else if owner = Some i then None else owner)"
  have row: "has_row gid w \<Longrightarrow> has_row gid w'"
    using run by (auto simp: exec_def effect_def has_row_def Let_def split: net.splits cmd.splits prod.splits if_splits)
  have other: "owner' = Some j \<longleftrightarrow> owner = Some j" if "j \<noteq> i" for j
    using a(3) ow that by (auto simp: owner'_def advances_def)
  have mine: "owner' = Some i \<longleftrightarrow> own'" using ow by (auto simp: owner'_def)
  have "wp gid (ps[i := k r] ! j) Q (owner' = Some j) H'" if j: "j < length ps" for j
  proof (cases "j = i")
    case True
    have "good gid own' H'" using h' a(3) by (simp add: good_def advances_def)
    then show ?thesis using cont [OF a(1)] mine True i by simp
  next
    case False
    have "grows gid (owner = Some j) H H'"
      using a(3) ow h' False by (auto simp: grows_def good_def advances_def)
    then show ?thesis using wp_stable [OF wps [OF j]] False other [OF False] by simp
  qed
  moreover have "i < length ps \<and> H' = [] \<and> has_row gid w'" if "own'"
    using that a(3,4) i by (simp add: advances_def)
  moreover have "j < length ps \<and> H' = [] \<and> has_row gid w'" if "owner' = Some j" "j \<noteq> i" for j
    using that other [OF that(2)] ow row a(3) by (auto simp: advances_def)
  ultimately have "sys_inv gid Q (w', ps[i := k r]) H' owner'"
    using a(2) mine by (auto simp: sys_inv_def)
  with l show ?thesis by blast
qed

lemma sys_reach_inv:
  assumes "sys_reach n s" "n < 2 ^ 63"
  shows "\<exists>H owner. sys_inv gid (answered gid) s H owner \<and> length H \<le> n"
  using assms
proof (induction rule: sys_reach.induct)
  case (start w)
  then show ?case using sys_inv_start by fastforce
next
  case (step n s s')
  then obtain H owner where inv: "sys_inv gid (answered gid) s H owner" and l: "length H \<le> n" by auto
  have hist: "Suc (length H) < 2 ^ 63" using l step.prems by simp
  from step.hyps(2) show ?case
  proof (cases rule: sys_step.cases)
    case (arrive q w ps)
    then have "sys_inv gid (answered gid) s' H owner" using inv sys_inv_arrive wp_handler by blast
    then show ?thesis using l le_SucI by blast
  next
    case (act i ps c k ch w r w')
    show ?thesis using sys_inv_act [OF _ hist act(3,4,5), of gid "answered gid" owner] inv act(1,2) l by fastforce
  next
    case (tick w ps t)
    then have "sys_inv gid (answered gid) s' H owner" using inv sys_inv_tick by blast
    then show ?thesis using l le_SucI by blast
  qed
qed

text \<open>What the invariant says of the stored game and of an answer.\<close>

lemma sys_inv_stored:
  assumes "sys_inv gid Q (w, ps) H owner"
  shows "game_history gid H" "stored gid w = Some g \<Longrightarrow> H \<noteq> [] \<and> g = last H"
proof -
  have h: "game_history gid H" "cell_holds gid (kv w) H" using assms by (simp_all add: sys_inv_def world_inv_def)
  show "game_history gid H" by (rule h)
  show "stored gid w = Some g \<Longrightarrow> H \<noteq> [] \<and> g = last H"
    using cell.load_last [OF h(2)] by (simp add: stored_def)
qed

lemma sys_inv_event:
  "sys_inv gid Q (w, ps) H owner \<Longrightarrow> (events_channel gid, ev) \<in> set (published w) \<Longrightarrow> event_from ev H"
  by (simp add: sys_inv_def world_inv_def)

lemma sys_inv_answer:
  assumes inv: "sys_inv gid Q (w, ps) H owner" and l: "length H < 2 ^ 63" and x: "Return x \<in> set ps"
  shows "\<exists>own. Q x own H"
proof -
  obtain i where i: "i < length ps" "ps ! i = Return x" using x by (metis in_set_conv_nth)
  then have "wp gid (Return x) Q (owner = Some i) H" using inv by (force simp: sys_inv_def)
  moreover have "good gid (owner = Some i) H"
    using inv l by (simp add: sys_inv_def good_def hist_def world_inv_def)
  ultimately show ?thesis using grows_refl by (metis wp.simps(1))
qed

text \<open>
  No update is lost. However many requests run at once, and whatever replies are lost, locks expire and clocks do: the
  states stored for a game form one history, which starts with the new game and in which every state
  comes from the one before it by exactly one join, return or accepted move; a read returns the last
  state, and every state that was answered to a client as a success is in the history.
\<close>

lemma stored_games_form_a_history:
  assumes "sys_reach n (w, ps)" "n < 2 ^ 63"
  shows "\<exists>H. game_history gid H \<and> (\<forall>g. stored gid w = Some g \<longrightarrow> H \<noteq> [] \<and> g = last H) \<and>
    (\<forall>g. Return (Inr g) \<in> set ps \<longrightarrow> gID g = gid \<longrightarrow> g \<in> set H)"
proof -
  obtain H owner where inv: "sys_inv gid (answered gid) (w, ps) H owner" and l: "length H < 2 ^ 63"
    using sys_reach_inv [OF assms] assms(2) by (meson le_less_trans)
  have "g \<in> set H" if "Return (Inr g) \<in> set ps" "gID g = gid" for g
    using sys_inv_answer [OF inv l that(1)] that(2) by (simp add: answered_def)
  then show ?thesis using sys_inv_stored [OF inv] by blast
qed

section \<open>Stored tables are legal\<close>

lemma service_step_table:
  assumes "service_step g g'" "round_inv False g" "not_widened g"
  shows "table_step False False g g'"
proof -
  consider (rejoin) e uid name where "join_table e g uid name = Rejoined g'"
    | (seat) e uid name s where "join_table e g uid name = Seated s g'"
    | (move) e uid mt pl where "ValidateMove g uid mt pl = None" "ApplyMove e g uid mt pl = Inr g'"
    using assms(1) unfolding service_step_def by blast
  then show ?thesis
  proof cases
    case rejoin
    then show ?thesis by (rule table_step.rejoin)
  next
    case seat
    then have "Status g = PhaseWaiting"
      using full_table_takes_nobody late_table_ok [OF assms(2)] assms(3) unfolding not_widened_def by blast
    then show ?thesis using seat by (rule table_join)
  next
    case move
    then show ?thesis using table_step.move [of g uid mt pl False e g'] by simp
  qed
qed

text \<open>A history in which nobody widened a finished table consists of reachable tables.\<close>

lemma history_reachable:
  assumes h: "game_history gid H" and w: "\<forall>g \<in> set H. not_widened g" and ne: "H \<noteq> []"
  obtains cfg where "offered cfg" "\<And>i. i < length H \<Longrightarrow> reachable False cfg False i (H ! i)"
proof -
  obtain e cfg where c: "offered cfg" "H ! 0 = NewWithConfig e gid cfg"
    using h ne by (auto simp: game_history_def hd_conv_nth)
  have "reachable False cfg False i (H ! i)" if "i < length H" for i
    using that
  proof (induction i)
    case 0
    then show ?case using c reachable.new by (simp add: offered_def)
  next
    case (Suc i)
    then have r: "reachable False cfg False i (H ! i)" by simp
    have "service_step (H ! i) (H ! Suc i)" "not_widened (H ! i)" using h w Suc.prems by (auto simp: game_history_def)
    then have "table_step False False (H ! i) (H ! Suc i)" using service_step_table reachable_inv [OF r] by blast
    with r show ?case by (rule reachable_step)
  qed
  with c(1) show thesis by (rule that)
qed

lemma history_inv:
  assumes "game_history gid H" "\<forall>g \<in> set H. not_widened g" "i < length H"
  shows "round_inv False (H ! i)"
proof -
  have "H \<noteq> []" using assms(3) by auto
  with assms(1,2) show ?thesis using history_reachable reachable_inv assms(3) by metis
qed

text \<open>
  What the store holds is legal. In every interleaving the stored game is the end of a history as in the property
  before, and it satisfies the round invariant of its phase unless a finished table in that history was
  widened by a seat.
\<close>

lemma stored_tables_are_legal:
  assumes "sys_reach n (w, ps)" "n < 2 ^ 63" "stored gid w = Some g"
  shows "\<exists>H. game_history gid H \<and> H \<noteq> [] \<and> g = last H \<and>
    ((\<forall>k \<in> set H. not_widened k) \<longrightarrow> round_inv False g)"
proof -
  obtain H owner where inv: "sys_inv gid (answered gid) (w, ps) H owner"
    using sys_reach_inv [OF assms(1,2)] by blast
  note h = sys_inv_stored [OF inv]
  have l: "H \<noteq> [] \<and> g = last H" using h(2) assms(3) by blast
  then have "g = H ! (length H - 1)" "length H - 1 < length H" by (simp_all add: last_conv_nth)
  then have "(\<forall>k \<in> set H. not_widened k) \<longrightarrow> round_inv False g" using history_inv [OF h(1)] by simp
  then show ?thesis using h(1) l by blast
qed

section \<open>A sample run\<close>

text \<open>A request that runs to its end without being interrupted, in any system that lets it act.\<close>

lemma run_steps:
  assumes act: "\<And>n w ps c f r w'. R n (w, ps) \<Longrightarrow> i < length ps \<Longrightarrow> ps ! i = Call c f \<Longrightarrow> exec ch c w = (r, w') \<Longrightarrow>
      R (Suc n) (w', ps[i := f r])"
  shows "R n (w, ps) \<Longrightarrow> i < length ps \<Longrightarrow> run ch (ps ! i) w = (x, w') \<Longrightarrow> commands (ps ! i) k \<Longrightarrow>
    \<exists>m \<le> n + k. R m (w', ps[i := Return x])"
proof (induction "ps ! i" arbitrary: n w ps k)
  case (Return y)
  have y: "ps ! i = Return y" using Return(1) by simp
  then have "y = x" "w' = w" using Return.prems(3) by simp_all
  then have "ps[i := Return x] = ps" "w' = w" using y list_update_id [of ps i] by simp_all
  with Return.prems(1) show ?case by (intro exI [of _ n]) simp
next
  case (Call c f)
  obtain r w1 where e: "exec ch c w = (r, w1)" by fastforce
  note ih = Call.hyps(1)
  let ?ps = "ps[i := f r]"
  have "R (Suc n) (w1, ?ps)" by (rule act [OF Call.prems(1,2) Call.hyps(2) [symmetric] e])
  moreover have "run ch (?ps ! i) w1 = (x, w')" "commands (?ps ! i) (k - 1)" "0 < k"
    using Call.prems Call.hyps(2) [symmetric] e by simp_all
  ultimately obtain m where "m \<le> Suc n + (k - 1)" "R m (w', ?ps[i := Return x])"
    using ih [where ps = "?ps" and n = "Suc n" and w = w1 and k = "k - 1"] Call.prems(2) by auto
  then show ?case using \<open>0 < k\<close> by (intro exI [of _ m]) simp
qed

lemma run_reach:
  "sys_reach n (w, ps) \<Longrightarrow> i < length ps \<Longrightarrow> run ch (ps ! i) w = (x, w') \<Longrightarrow> commands (ps ! i) k \<Longrightarrow>
    \<exists>m \<le> n + k. sys_reach m (w', ps[i := Return x])"
  by (rule run_steps [where R = sys_reach]) (blast intro: sys_reach.step sys_step.act)

definition demo_new :: Game where
  "demo_new = NewWithConfig demo_env ''g'' DefaultConfig"

lemma demo_create_run:
  "\<exists>w. run demo_choice (svc_CreateGame ''g'' DefaultConfig) demo_world = (Inr demo_new, w) \<and>
     stored ''g'' w = Some demo_new"
proof -
  have ch: "ch_net demo_choice = Delivered" "ch_env demo_choice = demo_env" by (simp_all add: demo_choice_def)
  have nd: "no_deck demo_new" and id: "gID demo_new = ''g''" by (simp_all add: demo_new_def new_game_fields)
  let ?row = "\<lparr>grID = gID demo_new, grStatus = Status demo_new, grVersion = Version demo_new, grCreated = CreatedAt demo_new\<rparr>"
  let ?w = "demo_world\<lparr>gameRows := [?row]\<rparr>"
  have row: "run demo_choice (pg_CreateGame demo_new) demo_world = (None, ?w)"
    using run_bookkeeping(3) [OF ch(1), of demo_new demo_world] by (simp add: demo_world_def)
  have sv: "run demo_choice (SaveGame demo_new 0) ?w = (None, saved demo_new ?w)"
    by (simp add: run_SaveGame ch cell_save_def saveScript_def GET_def demo_world_def saved_def SET_PX_def Let_def)
  have "run demo_choice (svc_CreateGame ''g'' DefaultConfig) demo_world = (Inr demo_new, saved demo_new ?w)"
    using row sv by (simp add: svc_CreateGame_def run_with_env ch demo_new_def [symmetric] run_bindP)
  moreover have "stored ''g'' (saved demo_new ?w) = Some demo_new"
    using id by (simp add: stored_def cell_load_def GET_def saved_def demo_world_def ttlMillis_def marshal_no_deck nd)
  ultimately show ?thesis by blast
qed

lemma demo_system: "\<exists>n w. sys_reach n (w, [Return (Inr demo_new)]) \<and> n < 2 ^ 63 \<and> stored ''g'' w = Some demo_new"
proof -
  obtain w where r: "run demo_choice (svc_CreateGame ''g'' DefaultConfig) demo_world = (Inr demo_new, w)"
    "stored ''g'' w = Some demo_new" using demo_create_run by blast
  have s: "sys_reach 0 (demo_world, [])" by (rule sys_reach.start) (simp add: empty_world_def demo_world_def)
  have "request_ok (ReqCreate ''g'' DefaultConfig)" by (simp add: request_ok_def offered_def config_ok_def DefaultConfig_def)
  from sys_reach.step [OF s sys_step.arrive [OF this]]
  have a: "sys_reach 1 (demo_world, [svc_CreateGame ''g'' DefaultConfig])" by (simp add: handler_def)
  obtain m where "m \<le> 1 + 3" "sys_reach m (w, [Return (Inr demo_new)])"
    using run_reach [OF a, of 0 demo_choice "Inr demo_new" w 3] r create_commands by auto
  then show ?thesis using r(2) by (intro exI [of _ m] exI [of _ w]) auto
qed

theorem stored_games_form_a_history_witness:
  "\<exists>w H. stored ''g'' w = Some demo_new \<and> game_history ''g'' H \<and> last H = demo_new \<and> demo_new \<in> set H"
proof -
  obtain n w where s: "sys_reach n (w, [Return (Inr demo_new)])" "n < 2 ^ 63" "stored ''g'' w = Some demo_new"
    using demo_system by blast
  have id: "gID demo_new = ''g''" by (simp add: demo_new_def new_game_fields)
  show ?thesis using stored_games_form_a_history [OF s(1,2), of "''g''"] s(3) id by auto
qed

theorem stored_tables_are_legal_witness:
  "\<exists>w H. stored ''g'' w = Some demo_new \<and> game_history ''g'' H \<and> last H = demo_new \<and> Status demo_new = PhaseWaiting"
proof -
  obtain n w where s: "sys_reach n (w, [Return (Inr demo_new)])" "n < 2 ^ 63" "stored ''g'' w = Some demo_new"
    using demo_system by blast
  have "Status demo_new = PhaseWaiting" by (simp add: demo_new_def NewWithConfig_def Let_def)
  then show ?thesis using stored_tables_are_legal [OF s] s(3) by metis
qed

end
