(* ===== verification/RateLimit.thy ===== *)
theory RateLimit
  imports Complex_Main
begin

text \<open>
  internal/ratelimit: the in-process token bucket (bucket.go) and the Redis-backed limiter with its
  Lua script (limiter.go). Go's and Lua's floating-point numbers are exact rationals here; rounding
  is not modelled. A time is an integer, in nanoseconds for the bucket and in milliseconds for the
  limiter.
\<close>

section \<open>The in-process bucket (bucket.go)\<close>

record Bucket =
  b_capacity :: rat
  b_refill :: rat
  b_tokens :: rat
  b_last :: int

definition NewBucket :: "rat \<Rightarrow> rat \<Rightarrow> int \<Rightarrow> Bucket" where
  "NewBucket capacity refillPerSec now =
     \<lparr>b_capacity = capacity, b_refill = refillPerSec, b_tokens = capacity, b_last = now\<rparr>"

definition seconds :: "int \<Rightarrow> rat" where
  "seconds ns = of_int ns / 10 ^ 9"

text \<open>A millisecond in nanoseconds.\<close>

definition millis :: "int \<Rightarrow> int" where
  "millis t = t * 10 ^ 6"

definition bucket_Allow :: "int \<Rightarrow> Bucket \<Rightarrow> bool \<times> Bucket" where
  "bucket_Allow now b =
     (let elapsed = seconds (now - b_last b);
          b1 = (if elapsed > 0
                then (let t = b_tokens b + elapsed * b_refill b
                      in b\<lparr>b_tokens := (if t > b_capacity b then b_capacity b else t), b_last := now\<rparr>)
                else b)
      in if b_tokens b1 < 1 then (False, b1) else (True, b1\<lparr>b_tokens := b_tokens b1 - 1\<rparr>))"

section \<open>The limiter's script (limiter.go)\<close>

record Rule =
  Capacity :: rat
  RefillPerSec :: rat

definition PerHour :: "rat \<Rightarrow> Rule" where
  "PerHour n = \<lparr>Capacity = n, RefillPerSec = n / 3600\<rparr>"

record Decision =
  Allowed :: bool
  RetryAfter :: int

text \<open>
  A bucket in Redis: a hash with the fields \<^verbatim>\<open>tokens\<close> and \<^verbatim>\<open>ts\<close>, and the instant at which the server
  expires the key.
\<close>

record bucket_hash =
  h_tokens :: rat
  h_ts :: int
  h_expires :: int

type_synonym buckets = "string \<Rightarrow> bucket_hash option"

definition HMGET :: "int \<Rightarrow> string \<Rightarrow> buckets \<Rightarrow> (rat \<times> int) option" where
  "HMGET clock key m =
     (case m key of None \<Rightarrow> None
      | Some h \<Rightarrow> if clock < h_expires h then Some (h_tokens h, h_ts h) else None)"

text \<open>Refilling: an out-of-order request does not move the time stamp back.\<close>

definition script_refill :: "rat \<Rightarrow> rat \<Rightarrow> int \<Rightarrow> (rat \<times> int) option \<Rightarrow> rat \<times> int" where
  "script_refill capacity refill now_ms data =
     (let (tokens, ts) = (case data of None \<Rightarrow> (capacity, now_ms) | Some d \<Rightarrow> d);
          elapsed = of_int (now_ms - ts) / 1000
      in if elapsed > 0 then (min capacity (tokens + elapsed * refill), now_ms) else (tokens, ts))"

text \<open>The reply is the pair \<^verbatim>\<open>{allowed, retry_ms}\<close>.\<close>

definition bucketScript ::
  "int \<Rightarrow> string \<Rightarrow> rat \<Rightarrow> rat \<Rightarrow> int \<Rightarrow> rat \<Rightarrow> buckets \<Rightarrow> (int \<times> int) \<times> buckets" where
  "bucketScript clock key capacity refill now_ms cost m =
     (let (tokens, ts) = script_refill capacity refill now_ms (HMGET clock key m);
          allowed = (if tokens \<ge> cost then 1 else 0);
          retry_ms = (if tokens \<ge> cost then 0 else \<lceil>((cost - tokens) / refill) * 1000\<rceil>);
          tokens' = (if tokens \<ge> cost then tokens - cost else tokens)
      in ((allowed, retry_ms),
          m(key := Some \<lparr>h_tokens = tokens', h_ts = ts,
                         h_expires = clock + (\<lceil>(capacity / refill) * 1000\<rceil> + 1000)\<rparr>)))"

text \<open>
  What the client library hands back: an error, or a slice of values, of which only the integers
  matter. \<open>fault\<close> is what the surroundings do to one call: nothing, or another reply in its place,
  with or without the script having run.
\<close>

datatype script_val = SInt int | SOther string

datatype script_reply = ScriptErr string | Slice "script_val list"

definition decide :: "script_reply \<Rightarrow> Decision" where
  "decide reply =
     (case reply of
        Slice [SInt allowed, SInt retryMS] \<Rightarrow>
          \<lparr>Allowed = (allowed = 1), RetryAfter = millis retryMS\<rparr>
      | _ \<Rightarrow> \<lparr>Allowed = True, RetryAfter = 0\<rparr>)"

text \<open>\<open>present\<close>: the limiter and its client are not nil.\<close>

definition limiter_Allow ::
  "bool \<Rightarrow> (script_reply \<times> bool) option \<Rightarrow> int \<Rightarrow> int \<Rightarrow> string \<Rightarrow> Rule \<Rightarrow> buckets \<Rightarrow> Decision \<times> buckets" where
  "limiter_Allow present fault clock now_ms key rule m =
     (if \<not> present \<or> RefillPerSec rule \<le> 0 \<or> Capacity rule \<le> 0
      then (\<lparr>Allowed = True, RetryAfter = 0\<rparr>, m)
      else (let ((allowed, retry_ms), m') =
                  bucketScript clock key (Capacity rule) (RefillPerSec rule) now_ms 1 m
            in case fault of
                 None \<Rightarrow> (decide (Slice [SInt allowed, SInt retry_ms]), m')
               | Some (reply, took) \<Rightarrow> (decide reply, if took then m' else m)))"

section \<open>How many requests a bucket lets through\<close>

primrec bucket_run :: "int list \<Rightarrow> Bucket \<Rightarrow> bool list \<times> Bucket" where
  "bucket_run [] b = ([], b)"
| "bucket_run (t # ts) b =
     (let (ok, b1) = bucket_Allow t b; (oks, b2) = bucket_run ts b1 in (ok # oks, b2))"

definition count_true :: "bool list \<Rightarrow> nat" where
  "count_true oks = length (filter (\<lambda>b. b) oks)"

definition bucket_ok :: "Bucket \<Rightarrow> bool" where
  "bucket_ok b \<longleftrightarrow> 0 \<le> b_refill b \<and> 0 \<le> b_tokens b \<and> b_tokens b \<le> b_capacity b"

lemma seconds_pos [simp]: "0 < seconds d \<longleftrightarrow> 0 < d"
  by (simp add: seconds_def zero_less_divide_iff)

lemma seconds_diff: "seconds (a - b) = seconds a - seconds b"
  by (simp add: seconds_def diff_divide_distrib)

lemma bucket_Allow_spec:
  assumes "bucket_ok b" "bucket_Allow t b = (ok, b1)"
  shows "bucket_ok b1" "b_capacity b1 = b_capacity b" "b_refill b1 = b_refill b"
    "b_last b1 = max t (b_last b)"
    "b_tokens b1 + (if ok then 1 else 0) \<le> b_tokens b + b_refill b * seconds (b_last b1 - b_last b)"
proof -
  have r: "0 \<le> seconds (t - b_last b) * b_refill b" if "b_last b < t"
  proof -
    have "0 < seconds (t - b_last b)" using that by simp
    then show ?thesis using assms(1) by (intro mult_nonneg_nonneg) (simp_all add: bucket_ok_def less_imp_le)
  qed
  show "bucket_ok b1" "b_capacity b1 = b_capacity b" "b_refill b1 = b_refill b" "b_last b1 = max t (b_last b)"
    using assms r by (auto simp: bucket_Allow_def bucket_ok_def Let_def split: if_splits)
  show "b_tokens b1 + (if ok then 1 else 0) \<le> b_tokens b + b_refill b * seconds (b_last b1 - b_last b)"
    using assms r
    by (auto simp: bucket_Allow_def bucket_ok_def Let_def mult.commute seconds_def split: if_splits)
qed

lemma bucket_run_spec:
  assumes "bucket_ok b" "bucket_run ts b = (oks, b')"
  shows "bucket_ok b' \<and> b_refill b' = b_refill b \<and> b_last b \<le> b_last b' \<and>
    (\<forall>u. b_last b \<le> u \<longrightarrow> (\<forall>t \<in> set ts. t \<le> u) \<longrightarrow> b_last b' \<le> u) \<and>
    b_tokens b' + of_nat (count_true oks) \<le> b_tokens b + b_refill b * seconds (b_last b' - b_last b)"
  using assms
proof (induction ts arbitrary: b oks)
  case Nil
  then show ?case by (simp add: count_true_def seconds_def)
next
  case (Cons t ts)
  obtain ok b1 where a: "bucket_Allow t b = (ok, b1)" by fastforce
  obtain oks2 where r: "bucket_run ts b1 = (oks2, b')" and o: "oks = ok # oks2"
    using Cons.prems(2) a by (auto split: prod.splits)
  note s = bucket_Allow_spec [OF Cons.prems(1) a]
  note ih = Cons.IH [OF s(1) r]
  have c: "of_nat (count_true oks) = (of_nat (count_true oks2) :: rat) + (if ok then 1 else 0)"
    by (simp add: o count_true_def)
  have t: "seconds (b_last b' - b_last b) = seconds (b_last b' - b_last b1) + seconds (b_last b1 - b_last b)"
    by (simp add: seconds_diff)
  have "b_tokens b' + of_nat (count_true oks) \<le> b_tokens b + b_refill b * seconds (b_last b' - b_last b)"
    using ih s(3,5) by (simp add: c t distrib_left)
  then show ?case using ih s by auto
qed

text \<open>
  A bucket bounds the rate. Whatever the times at which it is asked, in order or not, from its creation to time \<open>u\<close> it lets
  through at most its capacity plus what the refill rate yields in that span.
\<close>

lemma bucket_rate_bound:
  assumes "0 \<le> c" "0 \<le> r" "\<forall>t \<in> set ts. t \<le> u" "t0 \<le> u"
  shows "of_nat (count_true (fst (bucket_run ts (NewBucket c r t0)))) \<le> c + r * seconds (u - t0)"
proof -
  obtain oks b' where run: "bucket_run ts (NewBucket c r t0) = (oks, b')" by fastforce
  have "bucket_ok (NewBucket c r t0)" using assms(1,2) by (simp add: bucket_ok_def NewBucket_def)
  note s = bucket_run_spec [OF this run]
  have l: "b_last b' \<le> u" using s assms(3,4) by (simp add: NewBucket_def)
  have "seconds (b_last b' - t0) \<le> seconds (u - t0)" using l by (simp add: seconds_def divide_right_mono)
  then have "r * seconds (b_last b' - t0) \<le> r * seconds (u - t0)" using assms(2) by (rule mult_left_mono)
  moreover have "0 \<le> b_tokens b'" using s by (simp add: bucket_ok_def)
  moreover have "b_tokens b' + of_nat (count_true oks) \<le> c + r * seconds (b_last b' - t0)"
    using s by (simp add: NewBucket_def)
  ultimately show ?thesis by (simp add: run)
qed

section \<open>The limiter decides like the bucket\<close>

text \<open>Requests for one key, at one clock, at the given times in milliseconds.\<close>

primrec limiter_run :: "string \<Rightarrow> Rule \<Rightarrow> int list \<Rightarrow> buckets \<Rightarrow> bool list \<times> buckets" where
  "limiter_run key rule [] m = ([], m)"
| "limiter_run key rule (t # ts) m =
     (let (d, m1) = limiter_Allow True None t t key rule m; (oks, m2) = limiter_run key rule ts m1
      in (Allowed d # oks, m2))"

text \<open>The bucket that the stored hash stands for at time \<open>t\<close>.\<close>

definition same_bucket :: "string \<Rightarrow> Rule \<Rightarrow> int \<Rightarrow> buckets \<Rightarrow> Bucket \<Rightarrow> bool" where
  "same_bucket key rule t m b \<longleftrightarrow>
     b_capacity b = Capacity rule \<and> b_refill b = RefillPerSec rule \<and> b_last b \<le> millis t \<and>
     (case HMGET t key m of
        Some (tokens, ts) \<Rightarrow> b_tokens b = tokens \<and> b_last b = millis ts
      | None \<Rightarrow> b_tokens b + seconds (millis t - b_last b) * b_refill b \<ge> b_capacity b \<and>
          b_tokens b \<le> b_capacity b)"

lemma seconds_millis: "seconds (millis t - millis s) = (of_int t - of_int s) / 1000"
  by (simp add: seconds_def millis_def field_simps)

lemma millis_le [simp]: "millis s \<le> millis t \<longleftrightarrow> s \<le> t" "millis s < millis t \<longleftrightarrow> s < t" "millis s = millis t \<longleftrightarrow> s = t"
  by (simp_all add: millis_def)

text \<open>The common core: both refill, then both take a token.\<close>

definition refilled :: "int \<Rightarrow> Bucket \<Rightarrow> Bucket" where
  "refilled now b =
     (let elapsed = seconds (now - b_last b)
      in if elapsed > 0
         then (let t = b_tokens b + elapsed * b_refill b
               in b\<lparr>b_tokens := (if t > b_capacity b then b_capacity b else t), b_last := now\<rparr>)
         else b)"

lemma bucket_Allow_refilled:
  "bucket_Allow now b = (let b1 = refilled now b in
     if b_tokens b1 < 1 then (False, b1) else (True, b1\<lparr>b_tokens := b_tokens b1 - 1\<rparr>))"
  by (simp add: bucket_Allow_def refilled_def Let_def)

lemma refill_same:
  assumes "same_bucket key rule t m b"
  shows "(b_tokens (refilled (millis t) b), b_last (refilled (millis t) b)) =
    (fst (script_refill (Capacity rule) (RefillPerSec rule) t (HMGET t key m)),
     millis (snd (script_refill (Capacity rule) (RefillPerSec rule) t (HMGET t key m))))"
proof (cases "HMGET t key m")
  case None
  then have f: "b_capacity b \<le> b_tokens b + seconds (millis t - b_last b) * b_refill b"
    "b_tokens b \<le> b_capacity b" "b_last b \<le> millis t" "b_capacity b = Capacity rule"
    using assms by (auto simp: same_bucket_def)
  show ?thesis
  proof (cases "b_last b = millis t")
    case True
    with f have "b_tokens b = Capacity rule" by (simp add: seconds_def)
    then show ?thesis using None True f(4) by (simp add: refilled_def script_refill_def Let_def)
  next
    case False
    then have "0 < seconds (millis t - b_last b)" using f(3) by simp
    then show ?thesis using None f by (simp add: refilled_def script_refill_def Let_def)
  qed
next
  case (Some d)
  obtain tokens ts where d: "d = (tokens, ts)" by fastforce
  have f: "b_tokens b = tokens" "b_last b = millis ts" "b_capacity b = Capacity rule" "b_refill b = RefillPerSec rule"
    using assms Some d by (auto simp: same_bucket_def)
  show ?thesis using Some d f
    by (auto simp: seconds_millis refilled_def script_refill_def Let_def min_def)
qed

lemma refilled_fields [simp]:
  "b_capacity (refilled now b) = b_capacity b" "b_refill (refilled now b) = b_refill b"
  by (simp_all add: refilled_def Let_def)

lemma same_bucket_step:
  assumes sb: "same_bucket key rule t m b" and pos: "0 < RefillPerSec rule" "0 < Capacity rule" and ok: "bucket_ok b"
    and a: "bucket_Allow (millis t) b = (q, b1)" and l: "limiter_Allow True None t t key rule m = (d, m1)"
  shows "Allowed d = q" "t \<le> t' \<Longrightarrow> same_bucket key rule t' m1 b1"
proof -
  let ?b = "refilled (millis t) b"
  obtain tokens ts where r: "script_refill (Capacity rule) (RefillPerSec rule) t (HMGET t key m) = (tokens, ts)"
    by fastforce
  have same: "b_tokens ?b = tokens" "b_last ?b = millis ts" using refill_same [OF sb] r by auto
  let ?x = "t + (\<lceil>(Capacity rule / RefillPerSec rule) * 1000\<rceil> + 1000)"
  define tokens' where "tokens' = (if 1 \<le> tokens then tokens - 1 else tokens)"
  have m1: "m1 = m(key := Some \<lparr>h_tokens = tokens', h_ts = ts, h_expires = ?x\<rparr>)"
    and d: "Allowed d \<longleftrightarrow> 1 \<le> tokens"
    using l pos r by (auto simp: limiter_Allow_def bucketScript_def Let_def decide_def tokens'_def split: if_splits)
  have b1: "b_tokens b1 = tokens'" "b_last b1 = millis ts" "q \<longleftrightarrow> 1 \<le> tokens"
    "b_capacity b1 = Capacity rule" "b_refill b1 = RefillPerSec rule"
    using a same sb by (auto simp: bucket_Allow_refilled Let_def tokens'_def same_bucket_def split: if_splits)
  show "Allowed d = q" using d b1(3) by simp
  note sp = bucket_Allow_spec [OF ok a]
  have bo: "0 \<le> tokens'" "tokens' \<le> Capacity rule" using sp(1) b1 by (auto simp: bucket_ok_def)
  have last: "ts \<le> t" using sp(4) b1(2) sb by (simp add: same_bucket_def max_absorb1)
  assume t': "t \<le> t'"
  show "same_bucket key rule t' m1 b1"
  proof (cases "t' < ?x")
    case True
    then show ?thesis using b1 last t' by (simp add: same_bucket_def HMGET_def m1)
  next
    case False
    have "Capacity rule / RefillPerSec rule * 1000 \<le> of_int \<lceil>(Capacity rule / RefillPerSec rule) * 1000\<rceil>"
      by (rule le_of_int_ceiling)
    also have "\<dots> \<le> of_int (t' - ts)" using False last by simp
    finally have "Capacity rule / RefillPerSec rule \<le> of_int (t' - ts) / 1000" by simp
    then have "Capacity rule / RefillPerSec rule * RefillPerSec rule \<le> of_int (t' - ts) / 1000 * RefillPerSec rule"
      using pos(1) by (intro mult_right_mono) simp_all
    then have "Capacity rule \<le> of_int (t' - ts) / 1000 * RefillPerSec rule" using pos(1) by simp
    then have "Capacity rule \<le> tokens' + seconds (millis t' - millis ts) * RefillPerSec rule"
      using bo(1) by (simp add: seconds_millis)
    then show ?thesis using False b1 bo(2) last t' by (simp add: same_bucket_def HMGET_def m1)
  qed
qed

lemma limiter_run_same:
  assumes "0 < RefillPerSec rule" "0 < Capacity rule"
  shows "sorted (t # ts) \<Longrightarrow> same_bucket key rule t m b \<Longrightarrow> bucket_ok b \<Longrightarrow>
    fst (limiter_run key rule (t # ts) m) = fst (bucket_run (map millis (t # ts)) b)"
proof (induction ts arbitrary: t m b)
  case Nil
  obtain q b1 where a: "bucket_Allow (millis t) b = (q, b1)" by fastforce
  obtain d m1 where l: "limiter_Allow True None t t key rule m = (d, m1)" by fastforce
  show ?case using same_bucket_step(1) [OF Nil(2) assms Nil(3) a l] by (simp add: a l)
next
  case (Cons t2 ts)
  obtain q b1 where a: "bucket_Allow (millis t) b = (q, b1)" by fastforce
  obtain d m1 where l: "limiter_Allow True None t t key rule m = (d, m1)" by fastforce
  note s = same_bucket_step [OF Cons.prems(2) assms Cons.prems(3) a l]
  have "same_bucket key rule t2 m1 b1" "bucket_ok b1" "sorted (t2 # ts)"
    using s(2) [of t2] Cons.prems(1) bucket_Allow_spec(1) [OF Cons.prems(3) a] by simp_all
  from Cons.IH [OF this(3,1,2)] s(1)
  show ?case by (simp add: a l case_prod_beta)
qed

lemma limiter_run_fresh:
  assumes "0 < RefillPerSec rule" "0 < Capacity rule" "sorted (t # ts)" "m key = None"
  shows "fst (limiter_run key rule (t # ts) m) =
    fst (bucket_run (map millis (t # ts)) (NewBucket (Capacity rule) (RefillPerSec rule) (millis t)))"
proof (rule limiter_run_same [OF assms(1-3)])
  show "same_bucket key rule t m (NewBucket (Capacity rule) (RefillPerSec rule) (millis t))"
    using assms(4) by (simp add: same_bucket_def NewBucket_def HMGET_def seconds_def)
  show "bucket_ok (NewBucket (Capacity rule) (RefillPerSec rule) (millis t))"
    using assms(1,2) by (simp add: bucket_ok_def NewBucket_def)
qed

text \<open>
  C25. The Redis limiter is a token bucket. For any sequence of requests in order of time, the script's decisions, with the
  state kept in a hash that the server expires, are those of the in-process bucket that starts full at the
  first request: expiry loses nothing, since a bucket has refilled by then.
\<close>

theorem limiter_decides_like_bucket:
  assumes "0 < RefillPerSec rule" "0 < Capacity rule" "sorted (t # ts)" "m key = None"
  shows "fst (limiter_run key rule (t # ts) m) =
    fst (bucket_run (map millis (t # ts)) (NewBucket (Capacity rule) (RefillPerSec rule) (millis t)))"
  using assms by (rule limiter_run_fresh)

section \<open>When Redis fails\<close>

text \<open>What happens to one call: nothing, or another reply in its place, with or without the script having run.\<close>

type_synonym fault = "(script_reply \<times> bool) option"

primrec limiter_calls :: "string \<Rightarrow> Rule \<Rightarrow> (int \<times> fault) list \<Rightarrow> buckets \<Rightarrow> bool list \<times> buckets" where
  "limiter_calls key rule [] m = ([], m)"
| "limiter_calls key rule (x # xs) m =
     (let (d, m1) = limiter_Allow True (snd x) (fst x) (fst x) key rule m; (oks, m2) = limiter_calls key rule xs m1
      in (Allowed d # oks, m2))"

definition faulty :: "int \<times> fault \<Rightarrow> bool" where
  "faulty x \<longleftrightarrow> snd x \<noteq> None"

lemma faulty_simps [simp]: "\<not> faulty (t, None)" "faulty (t, Some y)"
  by (simp_all add: faulty_def)

definition script_ran :: "int \<times> fault \<Rightarrow> bool" where
  "script_ran x \<longleftrightarrow> (case snd x of None \<Rightarrow> True | Some (reply, took) \<Rightarrow> took)"

text \<open>
  A bucket as the script leaves it: within its capacity, stamped in the past, and not expired before it is full again. No
  bucket at all is a full one.
\<close>

definition hash_sound :: "Rule \<Rightarrow> int \<Rightarrow> bucket_hash option \<Rightarrow> bool" where
  "hash_sound rule t0 x \<longleftrightarrow> (case x of None \<Rightarrow> True | Some h \<Rightarrow>
     0 \<le> h_tokens h \<and> h_tokens h \<le> Capacity rule \<and> h_ts h \<le> t0 \<and>
     of_int (h_ts h) + Capacity rule / RefillPerSec rule * 1000 \<le> of_int (h_expires h))"

lemma bucketScript_sound:
  assumes pos: "0 < RefillPerSec rule" "0 < Capacity rule" and h: "hash_sound rule t (m key)"
  shows "hash_sound rule t (snd (bucketScript t key (Capacity rule) (RefillPerSec rule) t 1 m) key)"
proof -
  obtain tokens ts where r: "script_refill (Capacity rule) (RefillPerSec rule) t (HMGET t key m) = (tokens, ts)" by fastforce
  have b: "0 \<le> tokens \<and> tokens \<le> Capacity rule \<and> ts \<le> t"
  proof (cases "HMGET t key m")
    case None
    then show ?thesis using r pos by (simp add: script_refill_def Let_def)
  next
    case (Some d)
    obtain k s where d: "d = (k, s)" by fastforce
    have f: "0 \<le> k" "k \<le> Capacity rule" "s \<le> t"
      using h Some d by (auto simp: HMGET_def hash_sound_def split: option.splits if_splits)
    have "0 \<le> (of_int t - of_int s) / 1000 * RefillPerSec rule" if "s < t"
      using that pos(1) by (intro mult_nonneg_nonneg) simp_all
    then show ?thesis using r Some d f pos(2) by (auto simp: script_refill_def Let_def min_def split: if_splits)
  qed
  have "Capacity rule / RefillPerSec rule * 1000 \<le> of_int \<lceil>(Capacity rule / RefillPerSec rule) * 1000\<rceil>"
    by (rule le_of_int_ceiling)
  moreover have "(of_int ts :: rat) \<le> of_int t" using b by simp
  ultimately have "of_int ts + Capacity rule / RefillPerSec rule * 1000 \<le>
      of_int t + (of_int \<lceil>(Capacity rule / RefillPerSec rule) * 1000\<rceil> + 1000)" by linarith
  then have "of_int ts + Capacity rule / RefillPerSec rule * 1000 \<le> of_int (t + (\<lceil>(Capacity rule / RefillPerSec rule) * 1000\<rceil> + 1000))"
    by simp
  then show ?thesis using b by (auto simp: bucketScript_def r Let_def hash_sound_def)
qed

lemma hash_sound_later: "hash_sound rule t x \<Longrightarrow> t \<le> t' \<Longrightarrow> hash_sound rule t' x"
  by (auto simp: hash_sound_def split: option.splits)

text \<open>So every bucket that the limiter has worked on is sound at all later times.\<close>

lemma limiter_calls_sound:
  assumes "0 < RefillPerSec rule" "0 < Capacity rule"
  shows "sorted (t0 # map fst xs) \<Longrightarrow> hash_sound rule t0 (m key) \<Longrightarrow> \<forall>x \<in> set xs. fst x \<le> t1 \<Longrightarrow> t0 \<le> t1 \<Longrightarrow>
    hash_sound rule t1 (snd (limiter_calls key rule xs m) key)"
proof (induction xs arbitrary: m t0)
  case Nil
  then show ?case using hash_sound_later by simp
next
  case (Cons x xs)
  obtain t f where x: "x = (t, f)" by fastforce
  obtain d m1 where l: "limiter_Allow True f t t key rule m = (d, m1)" by fastforce
  have h: "hash_sound rule t (m key)" using Cons.prems(1,2) hash_sound_later x by simp
  then have "hash_sound rule t (m1 key)"
    using bucketScript_sound [where m = m and key = key, OF assms h] l assms
    by (auto simp: limiter_Allow_def Let_def case_prod_beta split: option.splits if_splits prod.splits)
  then have "hash_sound rule t1 (snd (limiter_calls key rule xs m1) key)"
    using Cons.prems(1,3) x by (intro Cons.IH [of t]) auto
  then show ?case by (simp add: x l case_prod_beta)
qed

lemma same_bucket_sound:
  assumes pos: "0 < RefillPerSec rule" "0 < Capacity rule" and h: "hash_sound rule t0 (m key)"
  obtains b where "bucket_ok b" "b_capacity b = Capacity rule" "b_refill b = RefillPerSec rule" "b_last b \<le> millis t0"
    "\<And>t. t0 \<le> t \<Longrightarrow> same_bucket key rule t m b"
proof (cases "m key")
  case None
  let ?b = "NewBucket (Capacity rule) (RefillPerSec rule) (millis t0)"
  have "0 \<le> seconds (millis t - millis t0)" if "t0 \<le> t" for t using that by (simp add: seconds_millis)
  then have "same_bucket key rule t m ?b" if "t0 \<le> t" for t
    using None that pos by (simp add: same_bucket_def HMGET_def NewBucket_def)
  then show thesis using that [of ?b] pos by (simp add: bucket_ok_def NewBucket_def)
next
  case (Some h)
  let ?b = "\<lparr>b_capacity = Capacity rule, b_refill = RefillPerSec rule, b_tokens = h_tokens h, b_last = millis (h_ts h)\<rparr>"
  have f: "0 \<le> h_tokens h" "h_tokens h \<le> Capacity rule" "h_ts h \<le> t0"
    "of_int (h_ts h) + Capacity rule / RefillPerSec rule * 1000 \<le> of_int (h_expires h)"
    using h Some by (simp_all add: hash_sound_def)
  have "same_bucket key rule t m ?b" if t: "t0 \<le> t" for t
  proof (cases "t < h_expires h")
    case True
    then show ?thesis using Some f t by (simp add: same_bucket_def HMGET_def)
  next
    case False
    then have "of_int (h_ts h) + Capacity rule / RefillPerSec rule * 1000 \<le> of_int t"
      using f(4) by (meson linorder_not_less of_int_le_iff order_trans)
    then have "Capacity rule / RefillPerSec rule \<le> (of_int t - of_int (h_ts h)) / 1000" by simp
    then have "Capacity rule \<le> (of_int t - of_int (h_ts h)) / 1000 * RefillPerSec rule"
      using pos(1) by (simp add: pos_divide_le_eq)
    then have "Capacity rule \<le> h_tokens h + seconds (millis t - millis (h_ts h)) * RefillPerSec rule"
      using f(1) by (simp add: seconds_millis)
    then show ?thesis using False Some f t by (simp add: same_bucket_def HMGET_def)
  qed
  then show thesis using that [of ?b] pos f by (simp add: bucket_ok_def)
qed

lemma count_true_Cons [simp]: "count_true (b # bs) = (if b then Suc (count_true bs) else count_true bs)"
  by (simp add: count_true_def)

text \<open>The calls that Redis answers are decided by the bucket; each of the others lets at most its own request through.\<close>

lemma limiter_calls_bucket:
  assumes pos: "0 < RefillPerSec rule" "0 < Capacity rule"
  shows "sorted (t0 # map fst xs) \<Longrightarrow> (\<And>t. t0 \<le> t \<Longrightarrow> same_bucket key rule t m b) \<Longrightarrow> bucket_ok b \<Longrightarrow>
    count_true (fst (limiter_calls key rule xs m)) \<le>
      count_true (fst (bucket_run (map (\<lambda>x. millis (fst x)) (filter script_ran xs)) b)) +
      length (filter faulty xs)"
proof (induction xs arbitrary: t0 m b)
  case Nil
  then show ?case by (simp add: count_true_def)
next
  case (Cons x xs)
  obtain t f where x: "x = (t, f)" by fastforce
  have t: "t0 \<le> t" "sorted (t # map fst xs)" using Cons.prems(1) x by auto
  have sb: "same_bucket key rule t m b" using Cons.prems(2) t(1) by simp
  obtain q b1 where a: "bucket_Allow (millis t) b = (q, b1)" by fastforce
  obtain d m1 where l: "limiter_Allow True None t t key rule m = (d, m1)" by fastforce
  note s = same_bucket_step [OF sb pos Cons.prems(3) a l]
  note ran = Cons.IH [OF t(2) s(2) bucket_Allow_spec(1) [OF Cons.prems(3) a]]
  have "\<And>t'. t \<le> t' \<Longrightarrow> same_bucket key rule t' m b" using Cons.prems(2) t(1) by simp
  note idle = Cons.IH [OF t(2) this Cons.prems(3)]
  show ?case
  proof (cases f)
    case None
    then show ?thesis using ran s(1) by (simp add: x l a script_ran_def case_prod_beta)
  next
    case (Some rt)
    obtain reply took where rt: "rt = (reply, took)" by fastforce
    have f: "limiter_Allow True f t t key rule m = (decide reply, if took then m1 else m)"
      using l pos by (simp add: Some rt limiter_Allow_def case_prod_beta Let_def)
    show ?thesis
    proof (cases took)
      case True
      then show ?thesis using ran f Some rt by (simp add: x a script_ran_def case_prod_beta)
    next
      case False
      then show ?thesis using idle f Some rt False by (simp add: x script_ran_def case_prod_beta)
    qed
  qed
qed

lemma refilled_twice:
  assumes "bucket_ok b" "b_last b \<le> t0" "t0 \<le> t"
  shows "refilled t (refilled t0 b) = refilled t b"
proof (cases "b_last b = t0 \<or> t0 = t")
  case True
  then show ?thesis by (auto simp: refilled_def Let_def seconds_def)
next
  case False
  then have l: "b_last b < t0" "t0 < t" using assms by auto
  have split: "seconds (t - b_last b) = seconds (t0 - b_last b) + seconds (t - t0)" by (simp add: seconds_diff)
  have p: "0 < seconds (t0 - b_last b)" "0 < seconds (t - t0)" "0 < seconds (t - b_last b)" using l by simp_all
  have "0 \<le> b_refill b" using assms(1) by (simp add: bucket_ok_def)
  then have "0 \<le> seconds (t - t0) * b_refill b" using p(2) by (intro mult_nonneg_nonneg) (simp_all add: less_imp_le)
  then show ?thesis using p unfolding refilled_def Let_def split
    by (cases b) (auto simp: distrib_right)
qed

lemma refilled_full:
  assumes "bucket_ok b" "b_last b \<le> t0"
  shows "bucket_ok (refilled t0 b)" "b_last (refilled t0 b) = t0"
proof -
  have "0 \<le> seconds (t0 - b_last b) * b_refill b" if "b_last b < t0"
    using that assms(1) by (intro mult_nonneg_nonneg) (simp_all add: bucket_ok_def less_imp_le)
  then show "bucket_ok (refilled t0 b)" "b_last (refilled t0 b) = t0"
    using assms by (auto simp: refilled_def Let_def bucket_ok_def)
qed

lemma bucket_run_refilled:
  assumes "bucket_ok b" "b_last b \<le> t0" "\<forall>t \<in> set ts. t0 \<le> t"
  shows "fst (bucket_run ts (refilled t0 b)) = fst (bucket_run ts b)"
  using assms by (cases ts) (simp_all add: bucket_Allow_refilled refilled_twice)

lemma limiter_calls_bound:
  assumes pos: "0 < RefillPerSec rule" "0 < Capacity rule" and s: "sorted (map fst xs)"
    and t: "\<forall>x \<in> set xs. t0 \<le> fst x \<and> fst x \<le> t1" "t0 \<le> t1" and h: "hash_sound rule t0 (m key)"
  shows "of_nat (count_true (fst (limiter_calls key rule xs m))) \<le>
    Capacity rule + RefillPerSec rule * (of_int (t1 - t0) / 1000) + of_nat (length (filter faulty xs))"
proof -
  obtain b where b: "bucket_ok b" "b_capacity b = Capacity rule" "b_refill b = RefillPerSec rule" "b_last b \<le> millis t0"
    "\<And>t. t0 \<le> t \<Longrightarrow> same_bucket key rule t m b" by (rule same_bucket_sound [where m = m and key = key, OF pos h]) blast
  let ?ts = "map (\<lambda>x. millis (fst x)) (filter script_ran xs)" and ?b = "refilled (millis t0) b"
  note f = refilled_full [OF b(1,4)]
  obtain oks b' where run: "bucket_run ?ts ?b = (oks, b')" by fastforce
  note sp = bucket_run_spec [OF f(1) run]
  have "\<forall>x \<in> set ?ts. x \<le> millis t1" using t(1) by auto
  then have l: "b_last b' \<le> millis t1" using sp f(2) t(2) by (metis millis_le(1))
  have "oks = fst (bucket_run ?ts b)"
    using bucket_run_refilled [OF b(1,4), of ?ts] run t(1) by simp
  moreover have "sorted (t0 # map fst xs)" using s t(1) by auto
  ultimately have "count_true (fst (limiter_calls key rule xs m)) \<le> count_true oks + length (filter faulty xs)"
    using limiter_calls_bucket [OF pos _ b(5,1)] by simp
  then have "(of_nat (count_true (fst (limiter_calls key rule xs m))) :: rat) \<le>
      of_nat (count_true oks) + of_nat (length (filter faulty xs))"
    by (metis of_nat_add of_nat_le_iff)
  moreover have "b_tokens b' + of_nat (count_true oks) \<le> b_tokens ?b + b_refill ?b * seconds (b_last b' - b_last ?b)"
    "0 \<le> b_tokens b'" using sp by (auto simp: bucket_ok_def)
  moreover have "b_tokens ?b \<le> Capacity rule" using f(1) b(2) by (simp add: bucket_ok_def)
  moreover have "seconds (b_last b' - millis t0) \<le> seconds (millis t1 - millis t0)"
    using l by (simp add: seconds_def divide_right_mono)
  then have "RefillPerSec rule * seconds (b_last b' - millis t0) \<le> RefillPerSec rule * (of_int (t1 - t0) / 1000)"
    using pos(1) by (simp add: seconds_millis mult_left_mono)
  ultimately show ?thesis using b(3) f(2) by simp
qed

section \<open>Refusals\<close>

text \<open>A later call finds the bucket as the refusal left it, or expired and full.\<close>

lemma later_call:
  fixes rule :: Rule and T :: rat
  assumes on: "0 < RefillPerSec rule" and cap: "1 \<le> Capacity rule" and T: "0 \<le> T" "T < 1" and j: "0 \<le> j"
    and m': "m' = m(key := Some \<lparr>h_tokens = T, h_ts = now_ms,
        h_expires = clock + (\<lceil>(Capacity rule / RefillPerSec rule) * 1000\<rceil> + 1000)\<rparr>)"
  shows "Allowed (fst (limiter_Allow True None (clock + j) (now_ms + j) key rule m')) \<longleftrightarrow>
    \<lceil>((1 - T) / RefillPerSec rule) * 1000\<rceil> \<le> j"
proof -
  let ?r = "RefillPerSec rule"
  let ?k = "\<lceil>((1 - T) / ?r) * 1000\<rceil>"
  let ?live = "clock + j < clock + (\<lceil>(Capacity rule / ?r) * 1000\<rceil> + 1000)"
  have kle: "?k \<le> \<lceil>(Capacity rule / ?r) * 1000\<rceil>"
    by (rule ceiling_mono) (use T on cap in \<open>simp add: divide_right_mono\<close>)
  have a: "Allowed (fst (limiter_Allow True None (clock + j) (now_ms + j) key rule m')) \<longleftrightarrow>
      1 \<le> fst (script_refill (Capacity rule) ?r (now_ms + j) (HMGET (clock + j) key m'))"
    using on cap by (auto simp: limiter_Allow_def bucketScript_def Let_def decide_def case_prod_beta)
  show ?thesis
  proof (cases ?live)
    case False
    then have "HMGET (clock + j) key m' = None" by (simp add: m' HMGET_def)
    then have "1 \<le> fst (script_refill (Capacity rule) ?r (now_ms + j) (HMGET (clock + j) key m'))"
      using cap by (simp add: script_refill_def Let_def)
    then show ?thesis using a False kle by simp
  next
    case True
    then have h: "HMGET (clock + j) key m' = Some (T, now_ms)" by (simp add: m' HMGET_def)
    have "?k \<le> j \<longleftrightarrow> ((1 - T) / ?r) * 1000 \<le> of_int j" by (rule ceiling_le_iff)
    also have "\<dots> \<longleftrightarrow> 1 \<le> T + of_int j / 1000 * ?r" using on by (simp add: field_simps)
    finally have k: "?k \<le> j \<longleftrightarrow> 1 \<le> T + of_int j / 1000 * ?r" .
    have "1 \<le> fst (script_refill (Capacity rule) ?r (now_ms + j) (HMGET (clock + j) key m')) \<longleftrightarrow>
        1 \<le> T + of_int j / 1000 * ?r"
      using h j T cap by (cases "j = 0") (simp_all add: script_refill_def Let_def)
    then show ?thesis using a k by simp
  qed
qed


text \<open>A refusal comes from the script alone: every failure lets the request through.\<close>

lemma limiter_fails_open:
  "limiter_Allow present fault clock now_ms key rule m = (d, m') \<Longrightarrow> \<not> Allowed d \<Longrightarrow>
    present \<and> 0 < RefillPerSec rule \<and> 0 < Capacity rule \<and>
    (\<forall>s took. fault \<noteq> Some (ScriptErr s, took))"
  by (auto simp: limiter_Allow_def decide_def split: if_splits prod.splits option.splits)

section \<open>Sample requests\<close>

lemma bucket_rate_bound_sample:
  "count_true (fst (bucket_run [0, 0, 0, 0] (NewBucket 3 1 0))) = 3 \<and>
   of_nat (count_true (fst (bucket_run [0, 0, 0, 0] (NewBucket 3 1 0)))) \<le> (3 :: rat)"
  using bucket_rate_bound [of 3 1 "[0, 0, 0, 0]" 0 0]
  by (simp add: bucket_Allow_def NewBucket_def Let_def seconds_def count_true_def)

lemma limiter_decides_like_bucket_witness:
  "fst (limiter_run ''k'' (PerHour 3600) [0, 0, 7000000] (\<lambda>_. None)) =
   fst (bucket_run [0, 0, millis 7000000] (NewBucket 3600 1 0))"
  using limiter_decides_like_bucket [of "PerHour 3600" 0 "[0, 7000000]" "\<lambda>_. None" "''k''"]
  by (simp add: PerHour_def millis_def)

definition demo_hash :: buckets where
  "demo_hash = (\<lambda>_. Some \<lparr>h_tokens = 1 / 2, h_ts = 0, h_expires = 1000\<rparr>)"

end
