(* ===== verification/ConnLimit.thy ===== *)
theory ConnLimit
  imports GoMap
begin

text \<open>
  internal/api/connlimit.go: the registry of live WebSocket connections, with its caps per user and per
  source address. Every operation runs under the registry's mutex, so it is one step here. The function
  that \<^verbatim>\<open>acquire\<close> hands out captures the user, the address and a \<^verbatim>\<open>sync.Once\<close>; it is a handle with
  a flag here.
\<close>

section \<open>The registry\<close>

record connRegistry =
  perUser :: "(string, int) gomap"
  perIP :: "(string, int) gomap"
  maxPerUser :: int
  maxPerIP :: int

datatype conn_error = errTooManyUserConns | errTooManyIPConns

definition newConnRegistry :: "int \<Rightarrow> int \<Rightarrow> connRegistry" where
  "newConnRegistry maxUser maxIP = \<lparr>perUser = [], perIP = [], maxPerUser = maxUser, maxPerIP = maxIP\<rparr>"

definition acquire :: "string \<Rightarrow> string \<Rightarrow> connRegistry \<Rightarrow> conn_error + connRegistry" where
  "acquire userID ip c =
     (if maxPerUser c > 0 \<and> gm_get (perUser c) userID 0 \<ge> maxPerUser c then Inl errTooManyUserConns
      else if maxPerIP c > 0 \<and> gm_get (perIP c) ip 0 \<ge> maxPerIP c then Inl errTooManyIPConns
      else Inr (c\<lparr>perUser := gm_set userID (gm_get (perUser c) userID 0 + 1) (perUser c),
                  perIP := gm_set ip (gm_get (perIP c) ip 0 + 1) (perIP c)\<rparr>))"

text \<open>Decrement, and delete at zero.\<close>

definition decrement :: "string \<Rightarrow> (string, int) gomap \<Rightarrow> (string, int) gomap" where
  "decrement k m =
     (let n = gm_get m k 0 - 1 in if n \<le> 0 then AList.delete k m else gm_set k n m)"

record conn_handle =
  ch_user :: string
  ch_ip :: string
  ch_done :: bool

definition release :: "conn_handle \<Rightarrow> connRegistry \<Rightarrow> conn_handle \<times> connRegistry" where
  "release h c =
     (if ch_done h then (h, c)
      else (h\<lparr>ch_done := True\<rparr>,
            c\<lparr>perUser := decrement (ch_user h) (perUser c), perIP := decrement (ch_ip h) (perIP c)\<rparr>))"

section \<open>Runs\<close>

text \<open>Any sequence of acquires and releases; a release names the connection it belongs to.\<close>

datatype conn_op = Acquire string string | Release nat

type_synonym conn_state = "connRegistry \<times> conn_handle list"

fun conn_step :: "conn_op \<Rightarrow> conn_state \<Rightarrow> conn_state" where
  "conn_step (Acquire u ip) (c, hs) =
     (case acquire u ip c of
        Inl e \<Rightarrow> (c, hs)
      | Inr c' \<Rightarrow> (c', hs @ [\<lparr>ch_user = u, ch_ip = ip, ch_done = False\<rparr>]))"
| "conn_step (Release i) (c, hs) =
     (if i < length hs then (let (h, c') = release (hs ! i) c in (c', hs[i := h])) else (c, hs))"

definition conn_run :: "conn_op list \<Rightarrow> conn_state \<Rightarrow> conn_state" where
  "conn_run ops s = fold conn_step ops s"

definition live_user :: "string \<Rightarrow> conn_handle list \<Rightarrow> int" where
  "live_user u hs = int (length (filter (\<lambda>h. ch_user h = u \<and> \<not> ch_done h) hs))"

definition live_ip :: "string \<Rightarrow> conn_handle list \<Rightarrow> int" where
  "live_ip ip hs = int (length (filter (\<lambda>h. ch_ip h = ip \<and> \<not> ch_done h) hs))"

section \<open>Counters\<close>

text \<open>A map of counters shows \<open>f\<close>: it has the keys with a positive count and nothing else.\<close>

definition counts :: "(string, int) gomap \<Rightarrow> (string \<Rightarrow> int) \<Rightarrow> bool" where
  "counts m f \<longleftrightarrow> gm_ok m \<and> (\<forall>k. map_of m k = (if f k > 0 then Some (f k) else None)) \<and> (\<forall>k. 0 \<le> f k)"

lemma counts_get: "counts m f \<Longrightarrow> gm_get m k 0 = f k"
  by (auto simp: counts_def gm_get_def order.antisym)

lemma counts_up: "counts m f \<Longrightarrow> counts (gm_set k (gm_get m k 0 + 1) m) (f(k := f k + 1))"
  using counts_get [of m f k] by (auto simp: counts_def update_conv')

lemma counts_down:
  assumes "counts m f" "0 < f k"
  shows "counts (decrement k m) (f(k := f k - 1))"
  using assms counts_get [OF assms(1), of k]
  by (auto simp: counts_def decrement_def Let_def update_conv' delete_conv' gm_ok_def distinct_delete distinct_update)

lemma counts_empty: "counts m f \<Longrightarrow> (\<And>k. f k = 0) \<Longrightarrow> m = []"
  by (cases m) (auto simp: counts_def dest: spec [of _ "fst (hd m)"])

definition registry_ok :: "conn_state \<Rightarrow> bool" where
  "registry_ok s \<longleftrightarrow> (case s of (c, hs) \<Rightarrow>
     counts (perUser c) (\<lambda>u. live_user u hs) \<and> counts (perIP c) (\<lambda>ip. live_ip ip hs) \<and>
     (0 < maxPerUser c \<longrightarrow> (\<forall>u. live_user u hs \<le> maxPerUser c)) \<and>
     (0 < maxPerIP c \<longrightarrow> (\<forall>ip. live_ip ip hs \<le> maxPerIP c)))"

lemma live_append:
  "live_user u (hs @ [h]) = live_user u hs + (if ch_user h = u \<and> \<not> ch_done h then 1 else 0)"
  "live_ip ip (hs @ [h]) = live_ip ip hs + (if ch_ip h = ip \<and> \<not> ch_done h then 1 else 0)"
  by (simp_all add: live_user_def live_ip_def)

lemma length_filter_update:
  "i < length xs \<Longrightarrow> P (xs ! i) \<Longrightarrow> \<not> P y \<Longrightarrow>
    Suc (length (filter P (xs[i := y]))) = length (filter P xs)"
  by (induction xs arbitrary: i) (auto split: nat.split)

lemma length_filter_update_same:
  "i < length xs \<Longrightarrow> \<not> P (xs ! i) \<Longrightarrow> \<not> P y \<Longrightarrow> length (filter P (xs[i := y])) = length (filter P xs)"
  by (induction xs arbitrary: i) (auto split: nat.split)

lemma live_done:
  assumes "i < length hs" "\<not> ch_done (hs ! i)"
  shows "live_user u (hs[i := (hs ! i)\<lparr>ch_done := True\<rparr>]) = live_user u hs - (if ch_user (hs ! i) = u then 1 else 0)"
    "live_ip ip (hs[i := (hs ! i)\<lparr>ch_done := True\<rparr>]) = live_ip ip hs - (if ch_ip (hs ! i) = ip then 1 else 0)"
  using length_filter_update [OF assms(1), of "\<lambda>h. ch_user h = u \<and> \<not> ch_done h" "(hs ! i)\<lparr>ch_done := True\<rparr>"]
    length_filter_update_same [OF assms(1), of "\<lambda>h. ch_user h = u \<and> \<not> ch_done h" "(hs ! i)\<lparr>ch_done := True\<rparr>"]
    length_filter_update [OF assms(1), of "\<lambda>h. ch_ip h = ip \<and> \<not> ch_done h" "(hs ! i)\<lparr>ch_done := True\<rparr>"]
    length_filter_update_same [OF assms(1), of "\<lambda>h. ch_ip h = ip \<and> \<not> ch_done h" "(hs ! i)\<lparr>ch_done := True\<rparr>"]
    assms(2)
  by (auto simp: live_user_def live_ip_def)

lemma live_pos:
  assumes "i < length hs" "\<not> ch_done (hs ! i)"
  shows "0 < live_user (ch_user (hs ! i)) hs" "0 < live_ip (ch_ip (hs ! i)) hs"
  using assms by (auto simp: live_user_def live_ip_def length_greater_0_conv filter_empty_conv intro!: bexI [of _ "hs ! i"])

lemma acquire_ok:
  assumes "registry_ok (c, hs)" "acquire u ip c = Inr c'"
  shows "registry_ok (c', hs @ [\<lparr>ch_user = u, ch_ip = ip, ch_done = False\<rparr>])"
proof -
  let ?hs = "hs @ [\<lparr>ch_user = u, ch_ip = ip, ch_done = False\<rparr>]"
  have r: "counts (perUser c) (\<lambda>u. live_user u hs)" "counts (perIP c) (\<lambda>ip. live_ip ip hs)"
    "0 < maxPerUser c \<longrightarrow> (\<forall>u. live_user u hs \<le> maxPerUser c)" "0 < maxPerIP c \<longrightarrow> (\<forall>ip. live_ip ip hs \<le> maxPerIP c)"
    using assms(1) by (auto simp: registry_ok_def)
  have g: "0 < maxPerUser c \<longrightarrow> live_user u hs < maxPerUser c" "0 < maxPerIP c \<longrightarrow> live_ip ip hs < maxPerIP c"
    and c': "perUser c' = gm_set u (gm_get (perUser c) u 0 + 1) (perUser c)"
      "perIP c' = gm_set ip (gm_get (perIP c) ip 0 + 1) (perIP c)" "maxPerUser c' = maxPerUser c" "maxPerIP c' = maxPerIP c"
    using assms(2) counts_get [OF r(1), of u] counts_get [OF r(2), of ip]
    by (auto simp: acquire_def split: if_splits)
  have f: "(\<lambda>v. live_user v ?hs) = (\<lambda>v. live_user v hs)(u := live_user u hs + 1)"
    "(\<lambda>v. live_ip v ?hs) = (\<lambda>v. live_ip v hs)(ip := live_ip ip hs + 1)"
    by (auto simp: fun_eq_iff live_append)
  show ?thesis
    unfolding registry_ok_def prod.case f c' using counts_up [OF r(1), of u] counts_up [OF r(2), of ip] r(3,4) g
    by (auto simp: live_append)
qed

lemma release_ok:
  assumes "registry_ok (c, hs)" "i < length hs" "release (hs ! i) c = (h, c')"
  shows "registry_ok (c', hs[i := h])"
proof (cases "ch_done (hs ! i)")
  case True
  then show ?thesis using assms by (auto simp: release_def)
next
  case False
  have r: "counts (perUser c) (\<lambda>u. live_user u hs)" "counts (perIP c) (\<lambda>ip. live_ip ip hs)"
    "0 < maxPerUser c \<longrightarrow> (\<forall>u. live_user u hs \<le> maxPerUser c)" "0 < maxPerIP c \<longrightarrow> (\<forall>ip. live_ip ip hs \<le> maxPerIP c)"
    using assms(1) by (auto simp: registry_ok_def)
  have h: "h = (hs ! i)\<lparr>ch_done := True\<rparr>" and
    c': "perUser c' = decrement (ch_user (hs ! i)) (perUser c)" "perIP c' = decrement (ch_ip (hs ! i)) (perIP c)"
      "maxPerUser c' = maxPerUser c" "maxPerIP c' = maxPerIP c"
    using assms(3) False by (auto simp: release_def)
  note d = live_done [OF assms(2) False] and p = live_pos [OF assms(2) False]
  have f: "(\<lambda>v. live_user v (hs[i := h])) = (\<lambda>v. live_user v hs)(ch_user (hs ! i) := live_user (ch_user (hs ! i)) hs - 1)"
    "(\<lambda>v. live_ip v (hs[i := h])) = (\<lambda>v. live_ip v hs)(ch_ip (hs ! i) := live_ip (ch_ip (hs ! i)) hs - 1)"
    by (auto simp: fun_eq_iff d h)
  have le: "live_user v (hs[i := h]) \<le> live_user v hs" "live_ip v (hs[i := h]) \<le> live_ip v hs" for v
    by (simp_all add: d h)
  show ?thesis
    unfolding registry_ok_def prod.case f c'
    using counts_down [OF r(1) p(1)] counts_down [OF r(2) p(2)] r(3,4) le by (meson order_trans)
qed

lemma conn_run_ok: "registry_ok s \<Longrightarrow> registry_ok (conn_run ops s)"
proof (induction ops arbitrary: s)
  case (Cons x ops)
  obtain c hs where s: "s = (c, hs)" by fastforce
  have "registry_ok (conn_step x s)"
  proof (cases x)
    case (Acquire u ip)
    then show ?thesis using Cons.prems s acquire_ok by (auto split: sum.split)
  next
    case (Release i)
    then show ?thesis using Cons.prems s release_ok by (auto simp: Let_def split: prod.split)
  qed
  from Cons.IH [OF this] show ?case by (simp add: conn_run_def)
qed (simp add: conn_run_def)

lemma max_kept: "maxPerUser (fst (conn_step x s)) = maxPerUser (fst s) \<and> maxPerIP (fst (conn_step x s)) = maxPerIP (fst s)"
  by (cases x; cases s) (auto simp: acquire_def release_def Let_def split: sum.split prod.split)

lemma max_run: "maxPerUser (fst (conn_run ops s)) = maxPerUser (fst s) \<and> maxPerIP (fst (conn_run ops s)) = maxPerIP (fst s)"
  by (induction ops arbitrary: s) (simp_all add: conn_run_def max_kept)

lemma conn_run_counts:
  assumes "conn_run ops (newConnRegistry maxU maxIP, []) = (c, hs)"
  shows "(\<forall>u. gm_get (perUser c) u 0 = live_user u hs) \<and> (\<forall>ip. gm_get (perIP c) ip 0 = live_ip ip hs) \<and>
    (0 < maxU \<longrightarrow> (\<forall>u. live_user u hs \<le> maxU)) \<and> (0 < maxIP \<longrightarrow> (\<forall>ip. live_ip ip hs \<le> maxIP)) \<and>
    ((\<forall>h \<in> set hs. ch_done h) \<longrightarrow> perUser c = [] \<and> perIP c = [])"
proof -
  have "registry_ok (newConnRegistry maxU maxIP, [])"
    by (simp add: registry_ok_def newConnRegistry_def live_user_def live_ip_def counts_def)
  then have r: "registry_ok (c, hs)" using conn_run_ok [of "(newConnRegistry maxU maxIP, [])" ops] assms by simp
  have m: "maxPerUser c = maxU" "maxPerIP c = maxIP"
    using max_run [of ops "(newConnRegistry maxU maxIP, [])"] assms by (simp_all add: newConnRegistry_def)
  have k: "counts (perUser c) (\<lambda>u. live_user u hs)" "counts (perIP c) (\<lambda>ip. live_ip ip hs)"
    using r by (simp_all add: registry_ok_def)
  have "perUser c = [] \<and> perIP c = []" if "\<forall>h \<in> set hs. ch_done h"
  proof -
    have "live_user v hs = 0" "live_ip v hs = 0" for v using that by (auto simp: live_user_def live_ip_def)
    then show ?thesis using counts_empty [OF k(1)] counts_empty [OF k(2)] by simp
  qed
  then show ?thesis using r m counts_get [OF k(1)] counts_get [OF k(2)] by (auto simp: registry_ok_def)
qed

text \<open>
  C24. The connection registry counts what is live. After any sequence of accepted and refused connections and of
  releases, repeated ones included, the counters are exactly the numbers of connections that have not
  been released, no enabled cap is exceeded, and when all are released both maps are empty again, so
  they do not grow over the life of the process.
\<close>

theorem live_connections_are_counted:
  assumes "conn_run ops (newConnRegistry maxU maxIP, []) = (c, hs)"
  shows "(\<forall>u. gm_get (perUser c) u 0 = live_user u hs) \<and> (\<forall>ip. gm_get (perIP c) ip 0 = live_ip ip hs) \<and>
    (0 < maxU \<longrightarrow> (\<forall>u. live_user u hs \<le> maxU)) \<and> (0 < maxIP \<longrightarrow> (\<forall>ip. live_ip ip hs \<le> maxIP)) \<and>
    ((\<forall>h \<in> set hs. ch_done h) \<longrightarrow> perUser c = [] \<and> perIP c = [])"
  by (rule conn_run_counts [OF assms])

lemma live_connections_are_counted_witness:
  "\<exists>c hs. conn_run [Acquire ''u'' ''a'', Acquire ''u'' ''a'', Release 0, Release 0] (newConnRegistry 1 20, []) = (c, hs) \<and>
     length hs = 1 \<and> perUser c = []"
proof -
  obtain c hs where r: "conn_run [Acquire ''u'' ''a'', Acquire ''u'' ''a'', Release 0, Release 0] (newConnRegistry 1 20, []) = (c, hs)"
    by fastforce
  then have "hs = [\<lparr>ch_user = ''u'', ch_ip = ''a'', ch_done = True\<rparr>]"
    by (simp add: conn_run_def newConnRegistry_def acquire_def release_def decrement_def Let_def gm_get_def)
  then show ?thesis using live_connections_are_counted [OF r] r by auto
qed
end
