(* ===== verification/Users.thy ===== *)
theory Users
  imports Complex_Main Program "HOL-Library.Sublist"
begin

text \<open>
  internal/store/postgres/user_store.go and internal/service/cognito_auth.go: the user table, the
  creation of a user at the first sight of a Cognito subject, and the validation of an access token.

  The email of a user is always \<^verbatim>\<open>NULL\<close> and its time stamps are set by the server; both are left out.

  The table is the one of migrations/: \<^verbatim>\<open>id\<close> is the primary key, \<^verbatim>\<open>username\<close> and \<^verbatim>\<open>cognito_sub\<close> are unique,
  \<^verbatim>\<open>user_stats.user_id\<close> refers to \<^verbatim>\<open>users.id\<close>. A transaction is one step; between two statements of a
  request other requests may change the table.
\<close>

section \<open>The tables\<close>

record User =
  uID :: string
  uName :: string
  uSub :: string

record user_db =
  users :: "User list"
  stats :: "string list"

definition GetUserByCognitoSub :: "string \<Rightarrow> user_db \<Rightarrow> User option" where
  "GetUserByCognitoSub sub db = find (\<lambda>u. uSub u = sub) (users db)"

text \<open>
  The first statement of the transaction: \<^verbatim>\<open>ON CONFLICT (cognito_sub) DO NOTHING\<close> skips a row whose
  subject is there, and a row that violates another constraint is an error.
\<close>

definition insert_user :: "string \<Rightarrow> string \<Rightarrow> user_db \<Rightarrow> string + user_db" where
  "insert_user sub name db =
     (if length sub > 64 \<or> length name > 255 then Inl ''22001''
      else if \<exists>u \<in> set (users db). uSub u = sub then Inr db
      else if \<exists>u \<in> set (users db). uID u = sub \<or> uName u = name then Inl ''23505''
      else Inr (db\<lparr>users := users db @ [\<lparr>uID = sub, uName = name, uSub = sub\<rparr>]\<rparr>))"

definition insert_stats :: "string \<Rightarrow> user_db \<Rightarrow> string + user_db" where
  "insert_stats sub db =
     (if sub \<in> set (stats db) then Inr db
      else if \<exists>u \<in> set (users db). uID u = sub then Inr (db\<lparr>stats := stats db @ [sub]\<rparr>)
      else Inl ''23503'')"

text \<open>The transaction: an error of either statement rolls both back.\<close>

definition insert_tx :: "string \<Rightarrow> string \<Rightarrow> user_db \<Rightarrow> string + user_db" where
  "insert_tx sub name db =
     (case insert_user sub name db of Inl e \<Rightarrow> Inl e | Inr db1 \<Rightarrow> insert_stats sub db1)"

section \<open>The upsert\<close>

text \<open>
  \<open>others n\<close> is what other requests do before step \<open>n\<close>, \<open>down n\<close> an error of the connection at step
  \<open>n\<close>. The result is the function's error, or the user pointer (\<open>None\<close> is nil).
\<close>

definition suffixed :: "string \<Rightarrow> string \<Rightarrow> string" where
  "suffixed username sub = username @ ''_'' @ take 8 sub"

definition try_insert ::
  "(nat \<Rightarrow> user_db \<Rightarrow> user_db) \<Rightarrow> (nat \<Rightarrow> string option) \<Rightarrow> nat \<Rightarrow> string \<Rightarrow> string \<Rightarrow> user_db \<Rightarrow>
   string option \<times> user_db" where
  "try_insert others down n sub name db =
     (let db1 = others n db in
      case down n of
        Some e \<Rightarrow> (Some e, db1)
      | None \<Rightarrow> (case insert_tx sub name db1 of Inl e \<Rightarrow> (Some e, db1) | Inr db2 \<Rightarrow> (None, db2)))"

definition try_get ::
  "(nat \<Rightarrow> user_db \<Rightarrow> user_db) \<Rightarrow> (nat \<Rightarrow> string option) \<Rightarrow> nat \<Rightarrow> string \<Rightarrow> user_db \<Rightarrow>
   (string + User option) \<times> user_db" where
  "try_get others down n sub db =
     (let db1 = others n db in
      case down n of Some e \<Rightarrow> (Inl e, db1) | None \<Rightarrow> (Inr (GetUserByCognitoSub sub db1), db1))"

definition UpsertUserByCognitoSub ::
  "(nat \<Rightarrow> user_db \<Rightarrow> user_db) \<Rightarrow> (nat \<Rightarrow> string option) \<Rightarrow> string \<Rightarrow> string \<Rightarrow> user_db \<Rightarrow>
   (string + User option) \<times> user_db" where
  "UpsertUserByCognitoSub others down sub username db =
     (let (existing, db1) = try_get others down 0 sub db in
      if existing \<noteq> Inr None then (existing, db1)
      else
        (let (err, db2) = try_insert others down 1 sub username db1;
             (err', db3) = (if err = Some ''23505''
                            then try_insert others down 2 sub (suffixed username sub) db2
                            else (err, db2))
         in case err' of Some e \<Rightarrow> (Inl e, db3) | None \<Rightarrow> try_get others down 3 sub db3))"

section \<open>The statistics of a user\<close>

text \<open>
  A row of \<^verbatim>\<open>user_stats\<close> is inserted with the defaults of its columns, and no statement changes them. \<open>down\<close>
  is an error of the query.
\<close>

record UserStats =
  usUserID :: string
  GamesPlayed :: int
  GamesWon :: int
  TotalPoints :: rat

definition GetUserStats :: "string option \<Rightarrow> string \<Rightarrow> user_db \<Rightarrow> string + UserStats option" where
  "GetUserStats down userID db =
     (case down of
        Some e \<Rightarrow> Inl e
      | None \<Rightarrow> Inr (if userID \<in> set (stats db)
          then Some \<lparr>usUserID = userID, GamesPlayed = 0, GamesWon = 0, TotalPoints = 0\<rparr> else None))"

section \<open>Token validation (cognito_auth.go)\<close>

record AuthClaims =
  UserID :: string
  Username :: string

text \<open>
  The validator that \<^verbatim>\<open>newCognitoAuth\<close> builds, after the key cache has registered and fetched the keys of the
  pool: both are parameters. The fetcher is the pool in which it looks up names.
\<close>

record CognitoAuth =
  caPool :: string
  caJwksURL :: string
  caIssuer :: string
  caClientID :: string

definition newCognitoAuth ::
  "(string \<Rightarrow> string option) \<Rightarrow> (string \<Rightarrow> string option) \<Rightarrow> string \<Rightarrow> string \<Rightarrow> string \<Rightarrow> string + CognitoAuth" where
  "newCognitoAuth register refresh fetcher issuer clientID =
     (let jwksURL = issuer @ ''/.well-known/jwks.json'' in
      case register jwksURL of
        Some e \<Rightarrow> Inl e
      | None \<Rightarrow>
          (case refresh jwksURL of
             Some e \<Rightarrow> Inl (''initial JWKS fetch '' @ jwksURL @ '': '' @ e)
           | None \<Rightarrow> Inr \<lparr>caPool = fetcher, caJwksURL = jwksURL, caIssuer = issuer, caClientID = clientID\<rparr>))"

text \<open>
  The libraries are parameters: \<open>keys\<close> is the answer of the key cache, \<open>parse\<close> is \<^verbatim>\<open>jwt.Parse\<close> with
  the options of the code (signature, issuer, client, use, expiry) and gives the subject, \<open>fetch\<close> looks
  up the preferred name, \<open>upsert\<close> is the user store.
\<close>

definition ValidateToken ::
  "(string + 'k) \<Rightarrow> ('k \<Rightarrow> string \<Rightarrow> string + string) \<Rightarrow> (string \<Rightarrow> string + string) \<Rightarrow>
   (string \<Rightarrow> string \<Rightarrow> (string + User option) \<times> user_db) \<Rightarrow> user_db \<Rightarrow> string \<Rightarrow>
   (SvcErr + AuthClaims) \<times> user_db" where
  "ValidateToken keys parse fetch upsert db token =
     (case keys of
        Inl e \<Rightarrow> (Inl (External e), db)
      | Inr keySet \<Rightarrow>
          (case parse keySet token of
             Inl e \<Rightarrow> (Inl (Wrapped e ErrInvalidToken), db)
           | Inr sub \<Rightarrow>
               if sub = '''' then (Inl ErrInvalidToken, db)
               else
                 (let username = (case fetch sub of Inl e \<Rightarrow> sub | Inr n \<Rightarrow> if n = '''' then sub else n);
                      (user, db') = upsert sub username
                  in (case user of
                        Inl e \<Rightarrow> Inl (External e)
                      | Inr None \<Rightarrow> Inl (GameErr nil_panic)
                      | Inr (Some u) \<Rightarrow> Inr \<lparr>UserID = uID u, Username = uName u\<rparr>, db'))))"

section \<open>What the upsert promises\<close>

definition db_ok :: "user_db \<Rightarrow> bool" where
  "db_ok db \<longleftrightarrow> distinct (map uName (users db)) \<and> distinct (map uSub (users db)) \<and>
     (\<forall>u \<in> set (users db). uID u = uSub u) \<and> distinct (stats db) \<and>
     (\<forall>s \<in> set (stats db). \<exists>u \<in> set (users db). uID u = s)"

text \<open>Rows are only added.\<close>

definition db_grows :: "user_db \<Rightarrow> user_db \<Rightarrow> bool" where
  "db_grows db db' \<longleftrightarrow> prefix (users db) (users db') \<and> prefix (stats db) (stats db')"

lemma db_grows_refl [simp]: "db_grows db db"
  by (simp add: db_grows_def)

lemma db_grows_trans: "db_grows a b \<Longrightarrow> db_grows b c \<Longrightarrow> db_grows a c"
  by (auto simp: db_grows_def intro: prefix_order.trans)

lemma db_grows_users: "db_grows a b \<Longrightarrow> set (users a) \<subseteq> set (users b)"
  by (auto simp: db_grows_def prefix_def)

lemma insert_tx_ok:
  assumes "db_ok db" "insert_tx sub name db = Inr db'"
  shows "db_ok db' \<and> db_grows db db' \<and> (\<exists>u \<in> set (users db'). uSub u = sub) \<and> sub \<in> set (stats db')"
proof -
  obtain db1 where u: "insert_user sub name db = Inr db1" and s: "insert_stats sub db1 = Inr db'"
    using assms(2) by (auto simp: insert_tx_def split: sum.splits)
  have 1: "db_ok db1 \<and> db_grows db db1 \<and> (\<exists>u \<in> set (users db1). uSub u = sub)"
    using u assms(1) by (auto simp: insert_user_def db_ok_def db_grows_def split: if_splits)
  have 2: "db_ok db' \<and> db_grows db1 db' \<and> users db' = users db1 \<and> sub \<in> set (stats db')"
    using s 1 by (auto simp: insert_stats_def db_ok_def db_grows_def split: if_splits)
  show ?thesis using 1 2 db_grows_trans by auto
qed

lemma GetUser_Some: "GetUserByCognitoSub sub db = Some u \<Longrightarrow> u \<in> set (users db) \<and> uSub u = sub"
  by (auto simp: GetUserByCognitoSub_def find_Some_iff)

lemma GetUser_None: "GetUserByCognitoSub sub db = None \<longleftrightarrow> (\<forall>u \<in> set (users db). uSub u \<noteq> sub)"
  by (auto simp: GetUserByCognitoSub_def find_None_iff)

text \<open>What the other requests are assumed to do: the same kind of thing.\<close>

definition well_behaved :: "(nat \<Rightarrow> user_db \<Rightarrow> user_db) \<Rightarrow> bool" where
  "well_behaved others \<longleftrightarrow> (\<forall>n db. db_ok db \<longrightarrow> db_ok (others n db) \<and> db_grows db (others n db))"

lemma try_insert_ok:
  assumes "well_behaved others" "db_ok db" "try_insert others down n sub name db = (err, db')"
  shows "db_ok db' \<and> db_grows db db' \<and> (err = None \<longrightarrow> (\<exists>u \<in> set (users db'). uSub u = sub))"
proof -
  have o: "db_ok (others n db)" "db_grows db (others n db)" using assms(1,2) by (auto simp: well_behaved_def)
  show ?thesis
    using assms(3) o insert_tx_ok [OF o(1)] db_grows_trans
    by (auto simp: try_insert_def Let_def split: option.splits sum.splits)
qed

lemma try_get_ok:
  assumes "well_behaved others" "db_ok db" "try_get others down n sub db = (r, db')"
  shows "db_ok db' \<and> db_grows db db' \<and> (\<forall>u. r = Inr (Some u) \<longrightarrow> u \<in> set (users db') \<and> uSub u = sub) \<and>
    (r = Inr None \<longrightarrow> (\<forall>u \<in> set (users db). uSub u \<noteq> sub))"
proof -
  have o: "db_ok (others n db)" "db_grows db (others n db)" using assms(1,2) by (auto simp: well_behaved_def)
  show ?thesis
    using assms(3) o GetUser_Some [of sub "others n db"] GetUser_None [of sub "others n db"] db_grows_users [OF o(2)]
    by (auto simp: try_get_def Let_def split: option.splits)
qed

lemma upsert_spec:
  assumes "well_behaved others" "db_ok db"
    and "UpsertUserByCognitoSub others down sub username db = (r, db')"
  shows "db_ok db' \<and> db_grows db db' \<and>
    (\<forall>x. r = Inr x \<longrightarrow> (\<exists>u. x = Some u \<and> u \<in> set (users db') \<and> uSub u = sub \<and> uID u = sub))"
proof -
  obtain r0 db1 where g0: "try_get others down 0 sub db = (r0, db1)" by fastforce
  note k0 = try_get_ok [OF assms(1,2) g0]
  have id: "uID u = sub" if "db_ok d" "u \<in> set (users d)" "uSub u = sub" for d u
    using that by (auto simp: db_ok_def)
  show ?thesis
  proof (cases "r0 = Inr None")
    case False
    then have "r = r0" "db' = db1" using assms(3) g0 by (auto simp: UpsertUserByCognitoSub_def)
    moreover have "\<exists>u. x = Some u" if "r0 = Inr x" for x using that False by (cases x) auto
    ultimately show ?thesis using k0 id by blast
  next
    case True
    obtain err db2 where i1: "try_insert others down 1 sub username db1 = (err, db2)" by fastforce
    note k1 = try_insert_ok [OF assms(1) conjunct1 [OF k0] i1]
    obtain err' db3 where i2: "(if err = Some ''23505'' then try_insert others down 2 sub (suffixed username sub) db2
        else (err, db2)) = (err', db3)" by fastforce
    have k2: "db_ok db3 \<and> db_grows db2 db3 \<and> (err' = None \<longrightarrow> (\<exists>u \<in> set (users db3). uSub u = sub))"
      using i2 k1 try_insert_ok [OF assms(1) conjunct1 [OF k1], of down 2 sub "suffixed username sub" err' db3]
      by (auto split: if_splits)
    have run: "(r, db') = (case err' of Some e \<Rightarrow> (Inl e, db3) | None \<Rightarrow> try_get others down 3 sub db3)"
      using assms(3) g0 i1 i2 True by (simp add: UpsertUserByCognitoSub_def)
    have g: "db_grows db db3" using k0 k1 k2 db_grows_trans by blast
    show ?thesis
    proof (cases err')
      case (Some e)
      then show ?thesis using run g k2 by simp
    next
      case None
      then have t: "try_get others down 3 sub db3 = (r, db')" using run by simp
      note k3 = try_get_ok [OF assms(1) conjunct1 [OF k2] t]
      have "r \<noteq> Inr None" using k3 k2 None by blast
      then have "\<exists>u. x = Some u" if "r = Inr x" for x using that by (cases x) auto
      then show ?thesis using k3 g id db_grows_trans by blast
    qed
  qed
qed

text \<open>
  C30. One user per subject. Whatever other requests do to the tables between its statements, as long as they too keep them legal
  and only add rows, the upsert keeps them legal, removes nothing, and when it returns no error it returns
  a user, never a nil pointer: the one row of that subject, whose ID is the subject.
\<close>

theorem upsert_finds_the_user:
  assumes "well_behaved others" "db_ok db"
    and "UpsertUserByCognitoSub others down sub username db = (r, db')"
  shows "db_ok db' \<and> db_grows db db' \<and>
    (\<forall>x. r = Inr x \<longrightarrow> (\<exists>u. x = Some u \<and> u \<in> set (users db') \<and> uSub u = sub \<and> uID u = sub))"
  using assms by (rule upsert_spec)

section \<open>The store behind the validator\<close>

text \<open>
  The interface \<^verbatim>\<open>userUpserter\<close>, which is all that the validator knows of the store: an upsert keeps the
  tables legal, only adds rows, and returns the user of the subject unless it returns an error.
\<close>

locale user_store =
  fixes upsert :: "string \<Rightarrow> string \<Rightarrow> user_db \<Rightarrow> (string + User option) \<times> user_db"
  assumes upsert_law: "db_ok db \<Longrightarrow> upsert sub name db = (r, db') \<Longrightarrow>
    db_ok db' \<and> db_grows db db' \<and> (\<forall>x. r = Inr x \<longrightarrow> (\<exists>u. x = Some u \<and> uID u = sub))"
begin

lemma validate_law:
  assumes ok: "db_ok db" and v: "ValidateToken keys parse fetch (\<lambda>sub name. upsert sub name db) db token = (r, db')"
  shows "db_ok db' \<and> db_grows db db' \<and> r \<noteq> Inl (GameErr nil_panic) \<and>
    (\<forall>claims. r = Inr claims \<longrightarrow> (\<exists>ks. keys = Inr ks \<and> parse ks token = Inr (UserID claims) \<and> UserID claims \<noteq> [])) \<and>
    (\<forall>err. r = Inl err \<longrightarrow> (errors_is err ErrInvalidToken \<longleftrightarrow>
       (\<exists>ks. keys = Inr ks \<and> (parse ks token = Inr [] \<or> (\<exists>e. parse ks token = Inl e)))))"
proof (cases "\<exists>ks sub. keys = Inr ks \<and> parse ks token = Inr sub \<and> sub \<noteq> []")
  case True
  then obtain ks sub where k: "keys = Inr ks" "parse ks token = Inr sub" "sub \<noteq> []" by blast
  let ?name = "case fetch sub of Inl e \<Rightarrow> sub | Inr n \<Rightarrow> if n = [] then sub else n"
  obtain q d where u: "upsert sub ?name db = (q, d)" by fastforce
  show ?thesis
    using v k u upsert_law [OF ok u] by (cases q) (auto simp: ValidateToken_def Let_def)
next
  case False
  then show ?thesis using ok v by (auto simp: ValidateToken_def split: sum.splits if_splits)
qed

text \<open>No upsert ever removes or changes an account that a request has been given.\<close>

lemma account_stays:
  "db_ok db \<Longrightarrow> upsert sub name db = (r, db') \<Longrightarrow> u \<in> set (users db) \<Longrightarrow> u \<in> set (users db')"
  using upsert_law [of db sub name r db'] db_grows_users by blast

end

text \<open>
  The upsert of the Postgres store implements the interface, while other requests run the same
  transactions: \<open>busy reqs n\<close> are the inserts that others commit before step \<open>n\<close>.
\<close>

definition busy :: "(nat \<Rightarrow> (string \<times> string) list) \<Rightarrow> nat \<Rightarrow> user_db \<Rightarrow> user_db" where
  "busy reqs n db = fold (\<lambda>(sub, name) d. case insert_tx sub name d of Inl _ \<Rightarrow> d | Inr d' \<Rightarrow> d') (reqs n) db"

lemma busy_well_behaved: "well_behaved (busy reqs)"
proof -
  have "db_ok (fold (\<lambda>(sub, name) d. case insert_tx sub name d of Inl _ \<Rightarrow> d | Inr d' \<Rightarrow> d') xs db) \<and>
      db_grows db (fold (\<lambda>(sub, name) d. case insert_tx sub name d of Inl _ \<Rightarrow> d | Inr d' \<Rightarrow> d') xs db)"
    if "db_ok db" for xs db
    using that
  proof (induction xs arbitrary: db)
    case (Cons x xs)
    obtain sub name where x: "x = (sub, name)" by fastforce
    let ?d = "case insert_tx sub name db of Inl _ \<Rightarrow> db | Inr d' \<Rightarrow> d'"
    have "db_ok ?d \<and> db_grows db ?d" using Cons.prems insert_tx_ok by (auto split: sum.split)
    then show ?case using Cons.IH [of ?d] db_grows_trans by (auto simp: x)
  qed simp
  then show ?thesis by (simp add: well_behaved_def busy_def)
qed

lemma postgres_user_store: "well_behaved others \<Longrightarrow> user_store (UpsertUserByCognitoSub others down)"
  by unfold_locales (use upsert_spec in blast)

interpretation postgres: user_store "UpsertUserByCognitoSub (busy reqs) down" for reqs down
  by (rule postgres_user_store [OF busy_well_behaved])

text \<open>
  C31. A validated identity is the token's. \<^verbatim>\<open>ValidateToken\<close> never dereferences a nil user; claims carry the subject of the token, which
  is not empty; and an error is an invalid-token error, which becomes a 401, exactly when the token was
  refused or has no subject.
\<close>

theorem validated_identity:
  assumes "well_behaved others" "db_ok db"
    and "ValidateToken keys parse fetch (\<lambda>sub name. UpsertUserByCognitoSub others down sub name db) db token = (r, db')"
  shows "db_ok db' \<and> db_grows db db' \<and> r \<noteq> Inl (GameErr nil_panic) \<and>
    (\<forall>claims. r = Inr claims \<longrightarrow> (\<exists>ks. keys = Inr ks \<and> parse ks token = Inr (UserID claims) \<and> UserID claims \<noteq> [])) \<and>
    (\<forall>err. r = Inl err \<longrightarrow> (errors_is err ErrInvalidToken \<longleftrightarrow>
       (\<exists>ks. keys = Inr ks \<and> (parse ks token = Inr [] \<or> (\<exists>e. parse ks token = Inl e)))))"
  by (rule user_store.validate_law [OF postgres_user_store [OF assms(1)] assms(2,3)])

section \<open>A sample\<close>

definition demo_db :: user_db where
  "demo_db = \<lparr>users = [\<lparr>uID = ''a'', uName = ''ann'', uSub = ''a''\<rparr>], stats = [''a'']\<rparr>"

lemma demo_db_ok: "db_ok demo_db" "well_behaved (\<lambda>_ db. db)"
  by (simp add: db_ok_def demo_db_def) (simp add: well_behaved_def)

text \<open>A second user with the same name gets a suffix.\<close>

lemma upsert_finds_the_user_witness:
  "\<exists>u db'. UpsertUserByCognitoSub (\<lambda>_ db. db) (\<lambda>_. None) ''b'' ''ann'' demo_db = (Inr (Some u), db') \<and>
     uID u = ''b'' \<and> uName u = ''ann_b'' \<and> db_ok db'"
proof -
  obtain r db' where run: "UpsertUserByCognitoSub (\<lambda>_ db. db) (\<lambda>_. None) ''b'' ''ann'' demo_db = (r, db')" by fastforce
  then have "r = Inr (Some \<lparr>uID = ''b'', uName = ''ann_b'', uSub = ''b''\<rparr>)"
    by (simp add: UpsertUserByCognitoSub_def try_get_def try_insert_def insert_tx_def insert_user_def insert_stats_def
        GetUserByCognitoSub_def demo_db_def suffixed_def Let_def)
  then show ?thesis using upsert_finds_the_user [OF demo_db_ok(2,1) run] run by simp
qed

lemma validated_identity_witness:
  "\<exists>claims db'. ValidateToken (Inr ()) (\<lambda>_ t. Inr t) (\<lambda>_. Inl [])
       (\<lambda>sub name. UpsertUserByCognitoSub (\<lambda>_ db. db) (\<lambda>_. None) sub name demo_db) demo_db ''a'' = (Inr claims, db') \<and>
     UserID claims = ''a'' \<and> db_ok db'"
proof -
  obtain r db' where run: "ValidateToken (Inr ()) (\<lambda>_ t. Inr t) (\<lambda>_. Inl [])
      (\<lambda>sub name. UpsertUserByCognitoSub (\<lambda>_ db. db) (\<lambda>_. None) sub name demo_db) demo_db ''a'' = (r, db')" by fastforce
  then have "r = Inr \<lparr>UserID = ''a'', Username = ''ann''\<rparr>"
    by (simp add: ValidateToken_def UpsertUserByCognitoSub_def try_get_def GetUserByCognitoSub_def demo_db_def Let_def)
  then show ?thesis using validated_identity [OF demo_db_ok(2,1) run] run by simp
qed

end
