(* ===== verification/Http.thy ===== *)
theory Http
  imports Payload Interleaving RateLimit ConnLimit Users
begin

text \<open>
  internal/api: authentication, origins and addresses (authctx.go, clientip.go, options.go, ws.go), the
  limits on bodies and rates (hardening.go, ratelimit_middleware.go), the response writer and the
  request handlers of handler.go, with the status of every outcome. A handler is a program that ends
  with its response.
\<close>

section \<open>Text functions of the standard library\<close>

text \<open>
  Of \<^verbatim>\<open>strings\<close>, on ASCII texts: \<^verbatim>\<open>TrimSpace\<close>, \<^verbatim>\<open>TrimSuffix\<close>, \<^verbatim>\<open>ToLower\<close> (\<open>ascii_lower\<close>), the first part of
  a \<^verbatim>\<open>Split\<close> at a comma, and \<^verbatim>\<open>Fields\<close>.
\<close>

definition is_space :: "char \<Rightarrow> bool" where
  "is_space c \<longleftrightarrow> c \<in> {CHR '' '', CHR 0x09, CHR 0x0A, CHR 0x0B, CHR 0x0C, CHR 0x0D}"

definition TrimSpace :: "string \<Rightarrow> string" where
  "TrimSpace s = rev (dropWhile is_space (rev (dropWhile is_space s)))"

definition TrimSlash :: "string \<Rightarrow> string" where
  "TrimSlash s = (if s \<noteq> [] \<and> last s = CHR ''/'' then butlast s else s)"

definition before_comma :: "string \<Rightarrow> string" where
  "before_comma s = takeWhile (\<lambda>c. c \<noteq> CHR '','') s"

fun fields_from :: "string \<Rightarrow> string \<Rightarrow> string list" where
  "fields_from cur [] = (if cur = [] then [] else [cur])"
| "fields_from cur (c # cs) =
     (if is_space c then (if cur = [] then fields_from [] cs else cur # fields_from [] cs)
      else fields_from (cur @ [c]) cs)"

definition Fields :: "string \<Rightarrow> string list" where
  "Fields s = fields_from [] s"

text \<open>
  \<^verbatim>\<open>net.SplitHostPort\<close>: the host in front of the last colon, or between brackets. \<open>None\<close> is an error.
\<close>

definition SplitHost :: "string \<Rightarrow> string option" where
  "SplitHost s =
     (let port_rev = takeWhile (\<lambda>c. c \<noteq> CHR '':'') (rev s);
          host = take (length s - length port_rev - 1) s
      in if CHR '':'' \<notin> set s then None
         else if s \<noteq> [] \<and> hd s = CHR ''['' then
           (let inner = takeWhile (\<lambda>c. c \<noteq> CHR '']'') (tl s) in
            if length inner + 2 \<noteq> length host then None
            else if CHR ''['' \<in> set inner \<or> CHR ''['' \<in> set port_rev \<or> CHR '']'' \<in> set port_rev then None
            else Some inner)
         else if CHR '':'' \<in> set host \<or> CHR ''['' \<in> set s \<or> CHR '']'' \<in> set s then None
         else Some host)"

section \<open>Requests and responses\<close>

text \<open>
  What the handlers read of a request. \<open>Body\<close> is the JSON value that \<^verbatim>\<open>Decode\<close> finds, \<open>None\<close> when
  decoding the text fails; \<open>BodyBytes\<close> is how many bytes of the body the decoder reads to the end of that value,
  \<open>ContentLength\<close> what the client declares (-1 when it declares nothing). \<open>JNum\<close> is an integer literal there, except inside a member of type \<^verbatim>\<open>any\<close>,
  which stands as the decoder leaves it: objects with distinct and sorted names, numbers as marshalling
  writes the \<^verbatim>\<open>float64\<close>.
\<close>

record Request =
  Header :: "string \<Rightarrow> string"
  RemoteAddr :: string
  Host :: string
  PathID :: string
  QueryStatus :: string
  HasBody :: bool
  Body :: "json option"
  BodyBytes :: int
  ContentLength :: int
  ContextClaims :: "AuthClaims option"

datatype content = OneGame "Game option" | GameList "Game list" | NoContent

record Response =
  code :: int
  message :: string
  retryAfter :: int
  content :: content

definition http_error :: "int \<Rightarrow> string \<Rightarrow> Response" where
  "http_error c msg = \<lparr>code = c, message = msg, retryAfter = 0, content = NoContent\<rparr>"

definition ok_json :: "content \<Rightarrow> Response" where
  "ok_json x = \<lparr>code = 200, message = '''', retryAfter = 0, content = x\<rparr>"

text \<open>\<^verbatim>\<open>err.Error()\<close>, as far as a client can tell the errors apart.\<close>

primrec err_text :: "SvcErr \<Rightarrow> string" where
  "err_text ErrLockFailed = ''failed to acquire lock''"
| "err_text ErrStaleVersion = ''stale version''"
| "err_text ErrGameBusy = ''game busy''"
| "err_text ErrGameNotFound = ''game not found''"
| "err_text ErrGameFull = ''game is full''"
| "err_text ErrRedisStoreNotInitialized = ''redis store not initialized''"
| "err_text ErrInvalidToken = ''invalid token''"
| "err_text (GameErr e) = (case e of InvalidMove s \<Rightarrow> ''invalid move: '' @ s | PlainError s \<Rightarrow> s
     | Panic s \<Rightarrow> s | Diverges \<Rightarrow> '''')"
| "err_text (External s) = s"
| "err_text (Wrapped s e) =
     (if e = ErrInvalidToken then err_text e @ '': '' @ s else s @ '': '' @ err_text e)"

section \<open>Who is asking\<close>

text \<open>
  \<open>authSvc\<close> is the token validator, or \<open>None\<close> when it is not configured. The claims in the request's
  context come from \<^verbatim>\<open>RequireAuth\<close>.
\<close>

definition authenticate :: "(string \<Rightarrow> SvcErr + AuthClaims) option \<Rightarrow> Request \<Rightarrow> SvcErr + AuthClaims" where
  "authenticate authSvc r =
     (case ContextClaims r of
        Some claims \<Rightarrow> Inr claims
      | None \<Rightarrow>
          (case authSvc of
             None \<Rightarrow> Inl (External ''authentication service is not configured'')
           | Some validate \<Rightarrow>
               (let authHeader = Header r ''Authorization'';
                    parts = Fields authHeader;
                    tokenString = (if authHeader \<noteq> '''' \<and> length parts = 2 \<and> parts ! 0 = ''Bearer''
                                   then parts ! 1 else '''')
                in if tokenString = '''' then Inl (Wrapped ''missing authentication token'' ErrInvalidToken)
                   else validate tokenString)))"

definition writeAuthError :: "SvcErr \<Rightarrow> Response" where
  "writeAuthError err =
     (if errors_is err ErrInvalidToken then http_error 401 (err_text err)
      else http_error 503 ''authentication unavailable'')"

text \<open>
  A handler of the router, with the state \<open>'s\<close> that the middleware shares between requests: the buckets of
  the rate limiter. The handlers of handler.go do not use it.
\<close>

type_synonym 's handler = "Request \<Rightarrow> 's \<Rightarrow> Response prog \<times> 's"

definition handler_func :: "(Request \<Rightarrow> Response prog) \<Rightarrow> 's handler" where
  "handler_func h r s = (h r, s)"

text \<open>\<^verbatim>\<open>RequireAuth\<close>: the next handler sees the claims in the context.\<close>

definition RequireAuth :: "(string \<Rightarrow> SvcErr + AuthClaims) option \<Rightarrow> 's handler \<Rightarrow> 's handler" where
  "RequireAuth authSvc nxt r s =
     (case authenticate authSvc r of
        Inl err \<Rightarrow> (Return (writeAuthError err), s)
      | Inr claims \<Rightarrow> nxt (r\<lparr>ContextClaims := Some claims\<rparr>) s)"

definition ClientIP :: "Request \<Rightarrow> bool \<Rightarrow> string" where
  "ClientIP r trustProxy =
     (let xff = Header r ''X-Forwarded-For'';
          first = TrimSpace (before_comma xff);
          peer = (case SplitHost (RemoteAddr r) of None \<Rightarrow> RemoteAddr r | Some host \<Rightarrow> host)
      in if trustProxy \<and> xff \<noteq> '''' \<and> first \<noteq> '''' then first else peer)"

section \<open>Origins\<close>

definition normalize_origin :: "string \<Rightarrow> string" where
  "normalize_origin origin = ascii_lower (TrimSpace (TrimSlash origin))"

definition WithAllowedOrigins :: "string list \<Rightarrow> string list" where
  "WithAllowedOrigins origins = filter (\<lambda>x. x \<noteq> '''') (map normalize_origin origins)"

text \<open>\<open>parse\<close> is \<^verbatim>\<open>url.Parse\<close> followed by \<^verbatim>\<open>.Host\<close>; \<open>None\<close> is a parse error.\<close>

definition checkOrigin :: "(string \<Rightarrow> string option) \<Rightarrow> string list \<Rightarrow> Request \<Rightarrow> bool" where
  "checkOrigin parse allowedOrigins r =
     (let origin = Header r ''Origin'' in
      if origin = '''' then True
      else if allowedOrigins = [] then (case parse origin of None \<Rightarrow> False | Some h \<Rightarrow> h = Host r)
      else list_ex (\<lambda>allowed. ascii_lower (TrimSlash origin) = allowed) allowedOrigins)"

section \<open>Limits\<close>

definition MaxBodyBytes :: int where
  "MaxBodyBytes = 64 * 2 ^ 10"

text \<open>
  \<^verbatim>\<open>BodyLimitMiddleware\<close>: a declared length beyond the limit is refused, and \<^verbatim>\<open>http.MaxBytesReader\<close> around the body
  makes a read beyond the limit fail, and with it the decoding.
\<close>

definition limit_body :: "Request \<Rightarrow> Request" where
  "limit_body r = (if HasBody r \<and> BodyBytes r > MaxBodyBytes then r\<lparr>Body := None\<rparr> else r)"

definition BodyLimitMiddleware :: "'s handler \<Rightarrow> 's handler" where
  "BodyLimitMiddleware nxt r s =
     (if ContentLength r > MaxBodyBytes then (Return (http_error 413 ''request body too large''), s)
      else nxt (limit_body r) s)"

lemma limit_body_fields [simp]:
  "Header (limit_body r) = Header r" "RemoteAddr (limit_body r) = RemoteAddr r" "Host (limit_body r) = Host r"
  "PathID (limit_body r) = PathID r" "QueryStatus (limit_body r) = QueryStatus r" "HasBody (limit_body r) = HasBody r"
  "ContentLength (limit_body r) = ContentLength r" "ContextClaims (limit_body r) = ContextClaims r"
  "BodyBytes (limit_body r) = BodyBytes r"
  by (simp_all add: limit_body_def)

lemma limit_body_auth [simp]: "authenticate a (limit_body r) = authenticate a r"
  unfolding authenticate_def limit_body_fields ..

lemma limit_body_small: "BodyBytes r \<le> MaxBodyBytes \<Longrightarrow> limit_body r = r"
  by (simp add: limit_body_def)

definition rate_limited :: "int \<Rightarrow> Response" where
  "rate_limited retry =
     \<lparr>code = 429, message = ''rate limit exceeded'', retryAfter = retry, content = NoContent\<rparr>"

text \<open>
  \<^verbatim>\<open>RateLimitByUser\<close>: \<open>limiter\<close> is the limiter's \<^verbatim>\<open>Allow\<close> (\<open>None\<close> when the handler has none).
  The wait is rounded up to whole seconds and is at least one.
\<close>

definition retry_seconds :: "int \<Rightarrow> int" where
  "retry_seconds ns = (let retry = \<lceil>seconds ns\<rceil> in if retry < 1 then 1 else retry)"

definition RateLimitByUser ::
  "(string \<Rightarrow> Rule \<Rightarrow> 's \<Rightarrow> Decision \<times> 's) option \<Rightarrow> string \<Rightarrow> Rule \<Rightarrow> 's handler \<Rightarrow> 's handler" where
  "RateLimitByUser limiter action rule nxt r s =
     (case (ContextClaims r, limiter) of
        (Some claims, Some allow) \<Rightarrow>
          (let (decision, s') = allow (''rl:'' @ action @ '':'' @ UserID claims) rule s in
           if \<not> Allowed decision then (Return (rate_limited (retry_seconds (RetryAfter decision))), s')
           else nxt r s')
      | _ \<Rightarrow> nxt r s)"

end
