(* ===== verification/Handlers.thy ===== *)
theory Handlers
  imports Http
begin

text \<open>
  The request handlers of internal/api/handler.go and the read loop of internal/api/ws.go: what each
  decodes, which operation of the game service it runs, and which response every outcome becomes.
\<close>

section \<open>Texts of the enumerations\<close>

definition phase_of_string :: "string \<Rightarrow> Phase option" where
  "phase_of_string s =
     (if s = ''waiting'' then Some PhaseWaiting else if s = ''bidding'' then Some PhaseBidding
      else if s = ''exchanging'' then Some PhaseExchanging else if s = ''calling'' then Some PhaseCalling
      else if s = ''playing'' then Some PhasePlaying else if s = ''finished'' then Some PhaseFinished
      else None)"

definition move_of_string :: "string \<Rightarrow> MoveType" where
  "move_of_string s =
     (if s = ''bid'' then MoveBid else if s = ''pass'' then MovePass else if s = ''discard'' then MoveDiscard
      else if s = ''call_partner'' then MoveCallPartner else if s = ''play_card'' then MovePlayCard
      else if s = ''play_again'' then MovePlayAgain else if s = ''change_config'' then MoveChangeConfig
      else OtherMove s)"

definition fail_dist_of_string :: "string \<Rightarrow> FailDist option" where
  "fail_dist_of_string s =
     (if s = ''equal_split'' then Some FailEqualSplit
      else if s = ''declarer_alone'' then Some FailDeclarerAlone
      else if s = ''two_one_split'' then Some FailTwoOneSplit else None)"

section \<open>POST /games\<close>

record CreateRequest =
  crNumPlayers :: int
  crAllowJokerPartner :: "bool option"
  crFailDist :: string

definition create_fields :: "(string \<times> (json \<Rightarrow> CreateRequest \<Rightarrow> CreateRequest option)) list" where
  "create_fields =
     [(''num_players'', dec_int (\<lambda>n r. r\<lparr>crNumPlayers := n\<rparr>)),
      (''allow_joker_partner'', \<lambda>j r. case j of JNull \<Rightarrow> Some (r\<lparr>crAllowJokerPartner := None\<rparr>)
         | JBool b \<Rightarrow> Some (r\<lparr>crAllowJokerPartner := Some b\<rparr>) | _ \<Rightarrow> None),
      (''fail_dist'', dec_string (\<lambda>s r. r\<lparr>crFailDist := s\<rparr>))]"

definition create_config :: "CreateRequest \<Rightarrow> GameConfig" where
  "create_config req =
     (let cfg = DefaultConfig;
          cfg1 = (if crNumPlayers req = 4 \<or> crNumPlayers req = 5
                  then cfg\<lparr>NumPlayers := crNumPlayers req\<rparr> else cfg);
          cfg2 = (case crAllowJokerPartner req of None \<Rightarrow> cfg1 | Some b \<Rightarrow> cfg1\<lparr>AllowJokerPartner := b\<rparr>)
      in case fail_dist_of_string (crFailDist req) of
           None \<Rightarrow> cfg2 | Some fd \<Rightarrow> cfg2\<lparr>FailDistribution := fd\<rparr>)"

text \<open>A body that does not decode leaves the default configuration.\<close>

definition requested_config :: "Request \<Rightarrow> GameConfig" where
  "requested_config r =
     (if \<not> HasBody r then DefaultConfig
      else (case Body r of
          None \<Rightarrow> DefaultConfig
        | Some j \<Rightarrow>
            (case dec_struct create_fields j
                    \<lparr>crNumPlayers = 0, crAllowJokerPartner = None, crFailDist = ''''\<rparr> of
               None \<Rightarrow> DefaultConfig | Some req \<Rightarrow> create_config req)))"

text \<open>\<open>uuid\<close> is the fresh ID of \<^verbatim>\<open>uuid.NewString()\<close>.\<close>

definition CreateGameHandler ::
  "(string \<Rightarrow> SvcErr + AuthClaims) option \<Rightarrow> string \<Rightarrow> Request \<Rightarrow> Response prog" where
  "CreateGameHandler authSvc uuid r =
     (case authenticate authSvc r of
        Inl err \<Rightarrow> Return (writeAuthError err)
      | Inr claims \<Rightarrow>
          bindP (svc_CreateGame uuid (requested_config r)) (\<lambda>g. case g of
              Inl err \<Rightarrow> Return (http_error 500 (err_text err))
            | Inr _ \<Rightarrow>
                bindP (svc_JoinGame uuid (UserID claims) (Username claims)) (\<lambda>st. case st of
                    Inl err \<Rightarrow> Return (http_error 500 ''failed to auto-join creator'')
                  | Inr updatedState \<Rightarrow> Return (ok_json (OneGame (Some updatedState))))))"

section \<open>POST /games/{id}/join\<close>

definition join_error :: "SvcErr \<Rightarrow> Response" where
  "join_error err =
     (if errors_is err ErrGameNotFound then http_error 404 (err_text err)
      else if errors_is err ErrGameFull then http_error 409 (err_text err)
      else if errors_is err ErrGameBusy then http_error 409 (err_text err)
      else http_error 500 (err_text err))"

definition JoinGameHandler ::
  "(string \<Rightarrow> SvcErr + AuthClaims) option \<Rightarrow> Request \<Rightarrow> Response prog" where
  "JoinGameHandler authSvc r =
     (case authenticate authSvc r of
        Inl err \<Rightarrow> Return (writeAuthError err)
      | Inr claims \<Rightarrow>
          bindP (svc_JoinGame (PathID r) (UserID claims) (Username claims)) (\<lambda>g. case g of
              Inl err \<Rightarrow> Return (join_error err)
            | Inr g \<Rightarrow> Return (ok_json (OneGame (Some g)))))"

section \<open>POST /games/{id}/move\<close>

text \<open>The body of a move; \<^verbatim>\<open>Payload any\<close> takes any value, \<^verbatim>\<open>player_id\<close> is overwritten by the caller's ID.\<close>

record MoveRequest =
  mrPlayerID :: string
  mrMoveType :: MoveType
  mrPayload :: json
  mrClientVersion :: int

definition move_fields :: "(string \<times> (json \<Rightarrow> MoveRequest \<Rightarrow> MoveRequest option)) list" where
  "move_fields =
     [(''player_id'', dec_string (\<lambda>s r. r\<lparr>mrPlayerID := s\<rparr>)),
      (''move_type'', dec_string (\<lambda>s r. r\<lparr>mrMoveType := move_of_string s\<rparr>)),
      (''payload'', \<lambda>j r. Some (r\<lparr>mrPayload := j\<rparr>)),
      (''client_version'', dec_int (\<lambda>n r. r\<lparr>mrClientVersion := n\<rparr>))]"

definition zeroMove :: MoveRequest where
  "zeroMove = \<lparr>mrPlayerID = '''', mrMoveType = OtherMove '''', mrPayload = JNull, mrClientVersion = 0\<rparr>"

definition move_error :: "SvcErr \<Rightarrow> Response" where
  "move_error err =
     (if errors_is err ErrGameBusy then http_error 409 (err_text err) else http_error 400 (err_text err))"

definition move_request :: "Request \<Rightarrow> MoveRequest option" where
  "move_request r = (case Body r of None \<Rightarrow> None | Some j \<Rightarrow> dec_struct move_fields j zeroMove)"

definition MoveHandler ::
  "(string \<Rightarrow> SvcErr + AuthClaims) option \<Rightarrow> Request \<Rightarrow> Response prog" where
  "MoveHandler authSvc r =
     (case authenticate authSvc r of
        Inl err \<Rightarrow> Return (writeAuthError err)
      | Inr claims \<Rightarrow>
          (case move_request r of
             None \<Rightarrow> Return (http_error 400 ''cannot decode the request'')
           | Some req \<Rightarrow>
               (case ConvertPayload (mrMoveType req) (mrPayload req) of
                  Inl err \<Rightarrow> Return (http_error 400 (''invalid payload structure: '' @ err_text (GameErr err)))
                | Inr pl \<Rightarrow>
                    bindP (svc_ProcessMove (PathID r) (UserID claims) (mrMoveType req) pl
                             (of_int (mrClientVersion req))) (\<lambda>g. case g of
                        Inl err \<Rightarrow> Return (move_error err)
                      | Inr g \<Rightarrow> Return (ok_json (OneGame (Some g)))))))"

section \<open>GET /games/{id} and GET /games\<close>

text \<open>A game that is not there is a nil pointer, and a nil pointer is encoded like any other.\<close>

definition GetGameHandler :: "bool \<Rightarrow> Request \<Rightarrow> Response prog" where
  "GetGameHandler store r =
     bindP (svc_GetGame store (PathID r)) (\<lambda>g. case g of
         Inl err \<Rightarrow> Return (if errors_is err ErrRedisStoreNotInitialized then http_error 503 (err_text err)
                            else http_error 404 (err_text err))
       | Inr g \<Rightarrow> Return (ok_json (OneGame g)))"

definition ListGamesHandler :: "bool \<Rightarrow> Request \<Rightarrow> Response prog" where
  "ListGamesHandler store r =
     (let statusParam = (if QueryStatus r = '''' then ''waiting'' else QueryStatus r) in
      case phase_of_string statusParam of
        None \<Rightarrow> Return (http_error 400 ''invalid status'')
      | Some status \<Rightarrow>
          bindP (svc_ListGamesByStatus store status) (\<lambda>g. case g of
              Inl err \<Rightarrow> Return (if errors_is err ErrRedisStoreNotInitialized then http_error 503 (err_text err)
                                 else http_error 500 (err_text err))
            | Inr games \<Rightarrow> Return (ok_json (GameList games))))"

section \<open>The status that is logged\<close>

record LoggingResponseWriter =
  responseCode :: int
  wroteHeader :: bool
  forwarded :: "int list"
    \<comment> \<open>the codes given to the wrapped writer\<close>

definition WriteHeader :: "int \<Rightarrow> LoggingResponseWriter \<Rightarrow> LoggingResponseWriter" where
  "WriteHeader c lrw =
     (if \<not> wroteHeader lrw
      then lrw\<lparr>responseCode := c, wroteHeader := True, forwarded := forwarded lrw @ [c]\<rparr> else lrw)"

definition lrw_Write :: "LoggingResponseWriter \<Rightarrow> LoggingResponseWriter" where
  "lrw_Write lrw = (if \<not> wroteHeader lrw then WriteHeader 200 lrw else lrw)"

text \<open>The status code and the kind of line that \<^verbatim>\<open>LoggingMiddleware\<close> logs.\<close>

datatype log_line = Success | Redirection | Informational | ClientError | ServerError

definition logged :: "LoggingResponseWriter \<Rightarrow> int \<times> log_line" where
  "logged lrw =
     (let statusCode = (if responseCode lrw = 0 then 200 else responseCode lrw)
      in (statusCode,
          if statusCode \<ge> 500 then ServerError else if statusCode \<ge> 400 then ClientError
          else if statusCode \<ge> 300 then Redirection
          else if statusCode \<ge> 100 \<and> statusCode < 200 then Informational else Success))"

section \<open>The WebSocket session (ws.go)\<close>

text \<open>
  What the socket delivers: a frame with the time of its arrival, whose text is a JSON value or is not
  one, or a read error (a timeout or a closed connection). What the session sends itself: error
  messages and a close frame. Events reach the client through the write loop, which copies the game's
  channel.
\<close>

datatype frame = Frame int "json option" | ReadError bool

datatype ws_out = SendError string | SendClose int string

record IncomingWSMessage =
  imType :: string
  imMoveType :: MoveType
  imPayload :: json
  imClientVersion :: int

definition ws_fields :: "(string \<times> (json \<Rightarrow> IncomingWSMessage \<Rightarrow> IncomingWSMessage option)) list" where
  "ws_fields =
     [(''type'', dec_string (\<lambda>s r. r\<lparr>imType := s\<rparr>)),
      (''move_type'', dec_string (\<lambda>s r. r\<lparr>imMoveType := move_of_string s\<rparr>)),
      (''payload'', \<lambda>j r. Some (r\<lparr>imPayload := j\<rparr>)),
      (''client_version'', dec_int (\<lambda>n r. r\<lparr>imClientVersion := n\<rparr>))]"

definition zeroIncoming :: IncomingWSMessage where
  "zeroIncoming = \<lparr>imType = '''', imMoveType = OtherMove '''', imPayload = JNull, imClientVersion = 0\<rparr>"

definition ws_message :: "json option \<Rightarrow> IncomingWSMessage option" where
  "ws_message text = (case text of None \<Rightarrow> None | Some j \<Rightarrow> dec_struct ws_fields j zeroIncoming)"

text \<open>One message: the errors it is answered with, none after an accepted move.\<close>

definition ws_handle :: "string \<Rightarrow> AuthClaims \<Rightarrow> json option \<Rightarrow> ws_out list prog" where
  "ws_handle gameID claims text =
     (case ws_message text of
        None \<Rightarrow> Return [SendError ''invalid message format'']
      | Some msg \<Rightarrow>
          if imType msg = ''MOVE''
          then (case ConvertPayload (imMoveType msg) (imPayload msg) of
                  Inl err \<Rightarrow> Return [SendError (''invalid payload structure: '' @ err_text (GameErr err))]
                | Inr pl \<Rightarrow>
                    bindP (svc_ProcessMove gameID (UserID claims) (imMoveType msg) pl
                             (of_int (imClientVersion msg))) (\<lambda>g. case g of
                        Inl err \<Rightarrow> Return [SendError (err_text err)]
                      | Inr _ \<Rightarrow> Return []))
          else Return [])"

text \<open>
  The read loop, over the frames that arrive. A read error ends it, and so does a message beyond the
  rate, with close code 1008 (policy violation).
\<close>

fun ws_loop :: "string \<Rightarrow> AuthClaims \<Rightarrow> Bucket option \<Rightarrow> frame list \<Rightarrow> ws_out list prog" where
  "ws_loop gameID claims bucket [] = Return []"
| "ws_loop gameID claims bucket (ReadError timeout # frames) = Return []"
| "ws_loop gameID claims bucket (Frame t text # frames) =
     (let (ok, bucket') = (case bucket of
              None \<Rightarrow> (True, None)
            | Some b \<Rightarrow> (let (ok, b') = bucket_Allow t b in (ok, Some b')))
      in if \<not> ok then Return [SendClose 1008 ''rate limit exceeded'']
         else bindP (ws_handle gameID claims text) (\<lambda>out.
                bindP (ws_loop gameID claims bucket' frames) (\<lambda>outs. Return (out @ outs))))"

text \<open>The first message: an object with \<^verbatim>\<open>type\<close> AUTH and a token.\<close>

record AuthMessage =
  amType :: string
  amToken :: string

definition auth_fields :: "(string \<times> (json \<Rightarrow> AuthMessage \<Rightarrow> AuthMessage option)) list" where
  "auth_fields =
     [(''type'', dec_string (\<lambda>s r. r\<lparr>amType := s\<rparr>)), (''token'', dec_string (\<lambda>s r. r\<lparr>amToken := s\<rparr>))]"

definition ws_auth :: "(string \<Rightarrow> SvcErr + AuthClaims) \<Rightarrow> frame \<Rightarrow> string + AuthClaims" where
  "ws_auth validate first =
     (case first of
        ReadError timeout \<Rightarrow> Inl (if timeout then ''auth timed out'' else ''failed to read auth message'')
      | Frame t text \<Rightarrow>
          (case (case text of None \<Rightarrow> None
                 | Some j \<Rightarrow> dec_struct auth_fields j \<lparr>amType = '''', amToken = ''''\<rparr>) of
             None \<Rightarrow> Inl ''expected AUTH message''
           | Some req \<Rightarrow>
               if amType req \<noteq> ''AUTH'' then Inl ''expected AUTH message''
               else (case validate (amToken req) of
                       Inl err \<Rightarrow> Inl (if errors_is err ErrInvalidToken then ''unauthorized''
                                       else ''auth unavailable'')
                     | Inr claims \<Rightarrow> Inr claims)))"

definition ws_bucket :: "rat \<Rightarrow> rat \<Rightarrow> int \<Rightarrow> Bucket option" where
  "ws_bucket perSec burst t =
     (if perSec > 0 \<and> burst > 0 then Some (NewBucket burst perSec t) else None)"

text \<open>
  The beginning of a session after the upgrade: authentication, and a place in the connection registry (when there is
  one). On the left it is over with what was sent. \<open>validate\<close> is the token validator, which the program
  always configures.
\<close>

definition ws_open ::
  "(string \<Rightarrow> SvcErr + AuthClaims) \<Rightarrow> bool \<Rightarrow> Request \<Rightarrow> frame \<Rightarrow> connRegistry option \<Rightarrow>
   ws_out list + AuthClaims \<times> conn_handle option \<times> connRegistry option" where
  "ws_open validate trustProxy r first conns =
     (case ws_auth validate first of
        Inl msg \<Rightarrow> Inl [SendError msg]
      | Inr claims \<Rightarrow>
          (case conns of
             None \<Rightarrow> Inr (claims, None, None)
           | Some c \<Rightarrow>
               (let ip = ClientIP r trustProxy in
                case acquire (UserID claims) ip c of
                  Inl e \<Rightarrow> Inl [SendClose 1013 (case e of
                      errTooManyUserConns \<Rightarrow> ''too many concurrent connections for this user''
                    | errTooManyIPConns \<Rightarrow> ''too many concurrent connections from this address'')]
                | Inr c' \<Rightarrow> Inr (claims, Some \<lparr>ch_user = UserID claims, ch_ip = ip, ch_done = False\<rparr>, Some c'))))"

text \<open>The deferred \<^verbatim>\<open>release()\<close> at the end of a session that had a place.\<close>

definition ws_close :: "conn_handle option \<Rightarrow> connRegistry option \<Rightarrow> conn_handle option \<times> connRegistry option" where
  "ws_close place conns =
     (case (place, conns) of
        (Some h, Some c) \<Rightarrow> (let (h', c') = release h c in (Some h', Some c'))
      | _ \<Rightarrow> (place, conns))"

text \<open>
  A whole session, as it runs when the other sessions leave the registry alone meanwhile (any number of sessions at the same
  registry are in the theory Startup): its beginning, the subscription (\<open>subscribed\<close> is whether the service has a
  store), the read loop, and the place given back. The result is what was sent and the registry afterwards.
\<close>

definition ws_session ::
  "(string \<Rightarrow> SvcErr + AuthClaims) \<Rightarrow> bool \<Rightarrow> bool \<Rightarrow> rat \<Rightarrow> rat \<Rightarrow> Request \<Rightarrow> frame \<Rightarrow> int \<Rightarrow> frame list \<Rightarrow>
   connRegistry option \<Rightarrow> (ws_out list \<times> connRegistry option) prog" where
  "ws_session validate trustProxy subscribed perSec burst r first t0 frames conns =
     (case ws_open validate trustProxy r first conns of
        Inl out \<Rightarrow> Return (out, conns)
      | Inr (claims, place, conns') \<Rightarrow>
          bindP (if \<not> subscribed then Return [SendError ''websocket unavailable'']
                 else ws_loop (PathID r) claims (ws_bucket perSec burst t0) frames)
            (\<lambda>out. Return (out, snd (ws_close place conns'))))"

section \<open>Created games\<close>

lemma create_config_fields:
  "NumPlayers (create_config req) \<in> {4, 5}"
  "FailDistribution (create_config req) \<in> {FailEqualSplit, FailDeclarerAlone, FailTwoOneSplit}"
  by (auto simp: create_config_def DefaultConfig_def fail_dist_of_string_def Let_def split: option.split)

lemma requested_config_fields:
  "NumPlayers (requested_config r) \<in> {4, 5} \<and>
   FailDistribution (requested_config r) \<in> {FailEqualSplit, FailDeclarerAlone, FailTwoOneSplit}"
  using create_config_fields
  by (auto simp: requested_config_def DefaultConfig_def split: option.split)

lemma run_bindP_fst: "run ch p w = (x, w') \<Longrightarrow> run ch (bindP p f) w = run ch (f x) w'"
  by (simp add: run_bindP)

lemma create_handler_run:
  assumes ch: "ch_net ch = Delivered" and auth: "authenticate authSvc r = Inr claims" and u: "unused uuid w"
  shows "\<exists>g w'. run ch (CreateGameHandler authSvc uuid r) w = (ok_json (OneGame (Some g)), w') \<and>
    Players g = [Some (newPlayer (UserID claims) (Username claims) 0), None, None, None, None] \<and>
    gID g = uuid \<and> Status g = PhaseWaiting \<and> Version g = 2 \<and> Config g = requested_config r \<and>
    NumPlayers (Config g) \<in> {4, 5} \<and>
    FailDistribution (Config g) \<in> {FailEqualSplit, FailDeclarerAlone, FailTwoOneSplit} \<and>
    length (moveRows w') = Suc (length (moveRows w)) \<and>
    published w' = published w @ [(events_channel uuid, PlayerJoined (Players g ! 0) (Version g))] \<and> stored uuid w' = Some g"
proof -
  let ?cfg = "requested_config r"
  let ?g0 = "NewWithConfig (ch_env ch) uuid ?cfg"
  let ?w1 = "saved ?g0 (with_row ?g0 w)"
  note c = requested_config_fields [of r]
  note cr = create_alone [OF ch u, of ?cfg]
  have g0: "Config ?g0 = ?cfg" "Players ?g0 = replicate 5 None" "Status ?g0 = PhaseWaiting" "Version ?g0 = 1"
    "gID ?g0 = uuid"
    using c by (auto simp: NewWithConfig_def Let_def emptyPlayers_def)
  have n: "numSeats ?g0 = NumPlayers ?cfg" using c g0(1) by (auto simp: numSeats_def)
  define p where "p = newPlayer (UserID claims) (Username claims) 0"
  define g1 where "g1 = touch (ch_env ch) (set_player ?g0 0 p)"
  have g1: "Players g1 = [Some p, None, None, None, None]" "gID g1 = uuid" "Status g1 = PhaseWaiting" "Version g1 = 2"
    "Config g1 = ?cfg" "numSeats g1 = NumPlayers ?cfg"
    using g0 c by (auto simp: g1_def touch_def set_player_def numSeats_def numeral_nat)
  have "\<not> IsFull g1" using g1(1,6) c by (auto simp: IsFull_def numeral_nat)
  moreover have "find_player 0 (Players ?g0) (UserID claims) = None"
    "first_free 0 (take (nat (numSeats ?g0)) (Players ?g0)) = Some 0"
    using c by (auto simp: g0(2) n numeral_nat)
  ultimately have j: "join_table (ch_env ch) ?g0 (UserID claims) (Username claims) = Seated 0 g1"
    by (simp add: join_table_def Let_def g1_def p_def)
  have free: "GET (clock ?w1) (kv ?w1) (lock_key uuid) = None" using cr(3) by (simp add: GET_def)
  have "run ch (svc_JoinGame uuid (UserID claims) (Username claims)) ?w1 = (Inr g1,
      join_recorded uuid (UserID claims) (Username claims) 0 g1 (saved g1 (unlocked uuid ?w1)))"
    using join_alone [OF ch free cr(2), of "UserID claims" "Username claims"] j by simp
  then have "run ch (CreateGameHandler authSvc uuid r) w = (ok_json (OneGame (Some g1)),
      join_recorded uuid (UserID claims) (Username claims) 0 g1 (saved g1 (unlocked uuid ?w1)))"
    using cr(1) by (simp add: CreateGameHandler_def auth run_bindP)
  moreover have "no_deck g1" by (simp add: g1_def touch_def set_player_def no_deck_def NewWithConfig_def Let_def)
  then have "stored uuid (saved g1 (unlocked uuid ?w1)) = Some g1"
    using g1(2) by (simp add: stored_def cell_load_def GET_def saved_def ttlMillis_def marshal_no_deck)
  then have "stored uuid (join_recorded uuid (UserID claims) (Username claims) 0 g1 (saved g1 (unlocked uuid ?w1))) = Some g1"
    by (simp add: stored_def join_recorded_def)
  ultimately show ?thesis using g1 c
    by (intro exI conjI) (auto simp: p_def join_recorded_def unlocked_def with_row_def saved_def)
qed

text \<open>
  C32. A created game has its creator in seat 0. Alone and without faults, \<^verbatim>\<open>POST /games\<close> of an authenticated caller answers 200 with a
  waiting game in which the caller sits at seat 0 and the other seats are empty, at version 2; whatever
  the body was, the configuration has four or five players and a known failure split; and one move row,
  the join, is recorded, and the players who watch the game are told of it.
\<close>

theorem create_handler_seats_creator:
  assumes ch: "ch_net ch = Delivered" and auth: "authenticate authSvc r = Inr claims" and u: "unused uuid w"
  shows "\<exists>g w'. run ch (CreateGameHandler authSvc uuid r) w = (ok_json (OneGame (Some g)), w') \<and>
    Players g = [Some (newPlayer (UserID claims) (Username claims) 0), None, None, None, None] \<and>
    gID g = uuid \<and> Status g = PhaseWaiting \<and> Version g = 2 \<and> Config g = requested_config r \<and>
    NumPlayers (Config g) \<in> {4, 5} \<and>
    FailDistribution (Config g) \<in> {FailEqualSplit, FailDeclarerAlone, FailTwoOneSplit} \<and>
    length (moveRows w') = Suc (length (moveRows w)) \<and>
    published w' = published w @ [(events_channel uuid, PlayerJoined (Players g ! 0) (Version g))]"
  using create_handler_run [OF assms] by blast

section \<open>The caller is the mover\<close>

definition same_move :: "MoveRequest \<Rightarrow> MoveRequest \<Rightarrow> bool" where
  "same_move a b \<longleftrightarrow> mrMoveType a = mrMoveType b \<and> mrPayload a = mrPayload b \<and> mrClientVersion a = mrClientVersion b"

definition names_player :: "string \<times> json \<Rightarrow> bool" where
  "names_player mem \<longleftrightarrow> ascii_lower (fst mem) = ''player_id''"

lemma dec_members_same:
  assumes "\<forall>(k, v) \<in> set kvs. ascii_lower k = ''player_id'' \<longrightarrow> v = JNull \<or> (\<exists>s. v = JStr s)" "same_move a b"
  shows "rel_option same_move (dec_members move_fields kvs a)
    (dec_members move_fields (filter (\<lambda>mem. \<not> names_player mem) kvs) b)"
  using assms
proof (induction kvs arbitrary: a b)
  case Nil
  then show ?case by simp
next
  case (Cons mem kvs)
  obtain k v where mem: "mem = (k, v)" by fastforce
  note IH = Cons.IH [of a b]
  show ?case
  proof (cases "ascii_lower k = ''player_id''")
    case True
    then have v: "v = JNull \<or> (\<exists>s. v = JStr s)" using Cons.prems(1) mem by auto
    have s: "same_move (a\<lparr>mrPlayerID := s\<rparr>) b" for s using Cons.prems(2) by (simp add: same_move_def)
    show ?thesis
      using v True mem Cons.IH [OF _ Cons.prems(2)] Cons.IH [OF _ s] Cons.prems(1)
      by (auto simp: move_fields_def dec_string_def names_player_def)
  next
    case False
    have r: "rel_option same_move (dec_members move_fields kvs a')
        (dec_members move_fields (filter (\<lambda>mem. \<not> names_player mem) kvs) b')" if "same_move a' b'" for a' b'
      by (rule Cons.IH) (use Cons.prems(1) that in auto)
    have f: "rel_option same_move (dec v a) (dec v b)"
      if "map_of move_fields (ascii_lower k) = Some dec" for dec
      using that False Cons.prems(2)
      by (cases v) (auto simp: move_fields_def dec_string_def dec_int_def same_move_def split: if_splits)
    show ?thesis
    proof (cases "map_of move_fields (ascii_lower k)")
      case None
      then show ?thesis using r [OF Cons.prems(2)] False mem by (simp add: names_player_def)
    next
      case (Some dec)
      from f [OF Some] show ?thesis
      proof (cases rule: option.rel_cases)
        case None
        then show ?thesis using Some False mem by (simp add: names_player_def)
      next
        case (Some x y)
        then show ?thesis using \<open>map_of move_fields (ascii_lower k) = Some dec\<close> r [OF Some(3)] False mem
          by (simp add: names_player_def)
      qed
    qed
  qed
qed

text \<open>
  C33. Nobody moves for another player. The member \<^verbatim>\<open>player_id\<close> of a move request, under any spelling of its case and any number of
  times, has no influence: the handler runs the same program as for the body without it, with the ID
  of the authenticated caller. (A \<^verbatim>\<open>player_id\<close> that is not a string is a decoding error.)
\<close>

theorem moves_are_the_callers:
  assumes "Body r = Some (JObj kvs)"
    and "\<forall>(k, v) \<in> set kvs. ascii_lower k = ''player_id'' \<longrightarrow> v = JNull \<or> (\<exists>s. v = JStr s)"
  shows "MoveHandler authSvc r =
    MoveHandler authSvc (r\<lparr>Body := Some (JObj (filter (\<lambda>mem. \<not> names_player mem) kvs))\<rparr>)"
proof -
  let ?r = "r\<lparr>Body := Some (JObj (filter (\<lambda>mem. \<not> names_player mem) kvs))\<rparr>"
  have "rel_option same_move (move_request r) (move_request ?r)"
    using dec_members_same [OF assms(2), of zeroMove zeroMove] assms(1)
    by (simp add: move_request_def dec_struct_def same_move_def)
  moreover have "authenticate authSvc ?r = authenticate authSvc r" "PathID ?r = PathID r"
    by (simp_all add: authenticate_def Let_def split: option.split)
  ultimately show ?thesis
    unfolding MoveHandler_def
    by (cases rule: option.rel_cases; cases "authenticate authSvc r")
       (auto simp: same_move_def split: sum.split)
qed

section \<open>A socket's load is bounded\<close>

lemma commands_ws_handle: "commands (ws_handle gid claims text) 14"
proof -
  have "commands (bindP (svc_ProcessMove gid uid mt pl cv) f) (14 + 0)" if "\<And>x. commands (f x) 0" for uid mt pl cv
      and f :: "SvcErr + Game \<Rightarrow> ws_out list prog"
    by (rule commands_bindP) (use request_commands(1) [of gid uid mt pl cv] that in auto)
  then show ?thesis by (auto simp: ws_handle_def split: option.split sum.split)
qed

text \<open>How many of the frames the loop answers.\<close>

fun frame_times :: "frame list \<Rightarrow> int list" where
  "frame_times [] = []"
| "frame_times (ReadError timeout # frames) = []"
| "frame_times (Frame t text # frames) = t # frame_times frames"

fun leading :: "bool list \<Rightarrow> nat" where
  "leading [] = 0"
| "leading (b # bs) = (if b then Suc (leading bs) else 0)"

lemma leading_count: "leading bs \<le> count_true bs"
  by (induction bs) (auto simp: count_true_def)

lemma commands_ws_loop:
  "commands (ws_loop gid claims (Some b) frames) (14 * leading (fst (bucket_run (frame_times frames) b)))"
proof (induction frames arbitrary: b)
  case Nil
  then show ?case by simp
next
  case (Cons f frames)
  show ?case
  proof (cases f)
    case (ReadError x)
    then show ?thesis by simp
  next
    case (Frame t msg)
    obtain ok b' where a: "bucket_Allow t b = (ok, b')" by fastforce
    let ?n = "leading (fst (bucket_run (frame_times frames) b'))"
    have tail: "commands (bindP (ws_loop gid claims (Some b') frames) (\<lambda>outs. Return (out @ outs))) (14 * ?n)" for out
      using commands_bindP [OF Cons.IH [of b'], of "\<lambda>outs. Return (out @ outs)" 0] by simp
    have "commands (bindP (ws_handle gid claims msg) (\<lambda>out.
        bindP (ws_loop gid claims (Some b') frames) (\<lambda>outs. Return (out @ outs)))) (14 + 14 * ?n)"
      by (rule commands_bindP [OF commands_ws_handle tail])
    then show ?thesis using Frame a by (cases ok) (simp_all add: case_prod_beta)
  qed
qed

lemma ws_load_bound_all:
  assumes "0 < perSec" "0 < burst" "\<forall>t \<in> set (frame_times frames). t \<le> u" "t0 \<le> u"
  shows "\<exists>n. (\<forall>gid claims. commands (ws_loop gid claims (ws_bucket perSec burst t0) frames) (14 * n)) \<and>
    of_nat n \<le> burst + perSec * seconds (u - t0)"
proof -
  let ?b = "NewBucket burst perSec t0" and ?ts = "frame_times frames"
  let ?n = "leading (fst (bucket_run ?ts ?b))"
  have "(of_nat ?n :: rat) \<le> of_nat (count_true (fst (bucket_run ?ts ?b)))"
    using leading_count by simp
  also have "\<dots> \<le> burst + perSec * seconds (u - t0)"
    by (rule bucket_rate_bound) (use assms in simp_all)
  finally have "of_nat ?n \<le> burst + perSec * seconds (u - t0)" .
  then show ?thesis using commands_ws_loop [of _ _ ?b frames] assms(1,2)
    by (intro exI [of _ ?n]) (simp add: ws_bucket_def)
qed

text \<open>
  A socket cannot load the store beyond its rate. Whatever frames a client sends until time \<open>u\<close>, in order or with a clock that steps back, the
  session issues at most fourteen store commands for each message let through, and lets through at most
  its burst plus what its rate yields since the session began.
\<close>

lemma socket_load_is_bounded:
  assumes "0 < perSec" "0 < burst" "\<forall>t \<in> set (frame_times frames). t \<le> u" "t0 \<le> u"
  shows "\<exists>n. commands (ws_loop gid claims (ws_bucket perSec burst t0) frames) (14 * n) \<and>
    of_nat n \<le> burst + perSec * seconds (u - t0)"
  using ws_load_bound_all [OF assms] by blast

section \<open>Origins\<close>

lemma dropWhile_no_space: "s \<noteq> [] \<Longrightarrow> \<not> is_space (hd s) \<Longrightarrow> dropWhile is_space s = s"
  by (cases s) auto

lemma TrimSpace_id: "s = [] \<or> (\<not> is_space (hd s) \<and> \<not> is_space (last s)) \<Longrightarrow> TrimSpace s = s"
  by (cases "s = []") (auto simp: TrimSpace_def dropWhile_no_space hd_rev)

lemma lower_slash: "ascii_lower (s @ ''/'') = ascii_lower s @ ''/''"
proof -
  have "ascii_lower ''/'' = ''/''" by code_simp
  then show ?thesis by (simp add: ascii_lower_def)
qed

text \<open>An origin without blanks and trailing slash.\<close>

definition plain_origin :: "string \<Rightarrow> bool" where
  "plain_origin s \<longleftrightarrow> s \<noteq> [] \<and> (\<forall>c \<in> set s. \<not> is_space c) \<and> last s \<noteq> CHR ''/''"

lemma plain_trim: "plain_origin s \<Longrightarrow> TrimSlash s = s" "TrimSlash (s @ ''/'') = s"
  "plain_origin s \<Longrightarrow> TrimSpace s = s"
  by (auto simp: plain_origin_def TrimSlash_def intro!: TrimSpace_id)

text \<open>
  C36. Which spellings of an origin work. An origin without blanks that the list of allowed origins holds, with or without a slash at
  the end, is accepted from a browser that sends it with or without that slash, whatever else is listed;
  but an entry with a slash and then a blank accepts neither of these two spellings, because the slash is trimmed before the
  blanks.
\<close>

theorem listed_origins_are_accepted:
  assumes "plain_origin s" "Header r ''Origin'' \<in> {s, s @ ''/''}"
  shows "checkOrigin parse (WithAllowedOrigins (xs @ [s] @ ys)) r \<and>
    checkOrigin parse (WithAllowedOrigins (xs @ [s @ ''/''] @ ys)) r \<and>
    \<not> checkOrigin parse (WithAllowedOrigins [s @ ''/ '']) r"
proof -
  have sp: "is_space CHR '' ''" "\<not> is_space CHR ''/''" by (simp_all add: is_space_def)
  have ne: "ascii_lower s \<noteq> []" using assms(1) by (auto simp: plain_origin_def ascii_lower_def)
  have n: "normalize_origin s = ascii_lower s" "normalize_origin (s @ ''/'') = ascii_lower s"
    using assms(1) by (simp_all add: normalize_origin_def plain_trim)
  have "TrimSlash (s @ ''/ '') = s @ ''/ ''" by (simp add: TrimSlash_def)
  moreover have "TrimSpace (s @ ''/ '') = s @ ''/''"
  proof -
    have h: "\<not> is_space (hd s)" using assms(1) by (auto simp: plain_origin_def)
    have "dropWhile is_space (s @ ''/ '') = s @ ''/ ''" using h assms(1)
      by (intro dropWhile_no_space) (auto simp: plain_origin_def hd_append)
    then show ?thesis using sp by (simp add: TrimSpace_def)
  qed
  ultimately have b: "normalize_origin (s @ ''/ '') = ascii_lower s @ ''/''"
    by (simp add: normalize_origin_def lower_slash)
  have o: "Header r ''Origin'' \<noteq> []" "TrimSlash (Header r ''Origin'') = s"
    using assms by (auto simp: plain_trim plain_origin_def)
  show ?thesis using n b o ne
    by (auto simp: checkOrigin_def WithAllowedOrigins_def Let_def)
qed
section \<open>Samples\<close>

definition demo_request :: Request where
  "demo_request = \<lparr>Header = (\<lambda>h. if h = ''Origin'' then ''http://A/'' else ''''), RemoteAddr = ''1:2'', Host = ''a'',
     PathID = ''g'', QueryStatus = '''', HasBody = True,
     Body = Some (JObj [(''num_players'', JNum 4)]), BodyBytes = 17, ContentLength = 17,
     ContextClaims = Some \<lparr>UserID = ''b'', Username = ''bo''\<rparr>\<rparr>"

lemma create_handler_seats_creator_witness:
  "\<exists>g w'. run demo_choice (CreateGameHandler None ''g'' demo_request) demo_world = (ok_json (OneGame (Some g)), w') \<and>
     Players g = [Some (newPlayer ''b'' ''bo'' 0), None, None, None, None] \<and> NumPlayers (Config g) = 4"
proof -
  have a: "authenticate None demo_request = Inr \<lparr>UserID = ''b'', Username = ''bo''\<rparr>"
    by (simp add: authenticate_def demo_request_def)
  have u: "unused ''g'' demo_world" by (simp add: unused_def demo_world_def)
  have ch: "ch_net demo_choice = Delivered" by (simp add: demo_choice_def)
  have c: "NumPlayers (requested_config demo_request) = 4"
    by (simp add: requested_config_def demo_request_def dec_struct_def create_fields_def dec_int_def
        create_config_def fail_dist_of_string_def DefaultConfig_def Let_def int64_def)
  show ?thesis using create_handler_seats_creator [OF ch a u] c by auto
qed

lemma moves_are_the_callers_witness:
  "MoveHandler None (demo_request\<lparr>Body := Some (JObj [(''Player_ID'', JStr ''x''), (''move_type'', JStr ''pass'')])\<rparr>) =
   MoveHandler None (demo_request\<lparr>Body := Some (JObj [(''move_type'', JStr ''pass'')])\<rparr>)"
proof -
  have l: "ascii_lower ''Player_ID'' = ''player_id''" "ascii_lower ''move_type'' = ''move_type''" by code_simp+
  show ?thesis
    using moves_are_the_callers [of "demo_request\<lparr>Body := Some (JObj [(''Player_ID'', JStr ''x''), (''move_type'', JStr ''pass'')])\<rparr>"
        "[(''Player_ID'', JStr ''x''), (''move_type'', JStr ''pass'')]" None]
    by (simp add: names_player_def l)
qed

lemma socket_load_is_bounded_witness:
  "\<exists>n. commands (ws_loop ''g'' \<lparr>UserID = ''b'', Username = ''bo''\<rparr> (ws_bucket 1 2 0)
      [Frame 5 None, Frame 3 (Some JNull), ReadError True]) (14 * n) \<and> of_nat n \<le> (2 :: rat) + 1 * seconds (5 - 0)"
  by (rule socket_load_is_bounded) auto

lemma listed_origins_are_accepted_witness:
  "checkOrigin (\<lambda>_. None) (WithAllowedOrigins ([''x''] @ [''http://A''] @ [])) demo_request"
  by (rule conjunct1 [OF listed_origins_are_accepted]) (auto simp: plain_origin_def demo_request_def is_space_def)

end
