(* ===== verification/Socket.thy ===== *)
theory Socket
  imports Handlers
begin

text \<open>
  A WebSocket connection in time (internal/api/ws.go): which of the client's messages a session reads under
  its deadlines and its size limit, and the write loop, which shares the connection with the read loop
  and copies the game's channel to the client.
\<close>

section \<open>What a session reads\<close>

definition maxWSMessageBytes :: int where "maxWSMessageBytes = 32 * 2 ^ 10"

text \<open>Durations and instants are in nanoseconds.\<close>

definition wsIdleTimeout :: int where "wsIdleTimeout = 60 * 10 ^ 9"

definition wsAuthTimeout :: int where "wsAuthTimeout = 5 * 10 ^ 9"

definition wsPingPeriod :: int where "wsPingPeriod = 30 * 10 ^ 9"

text \<open>A message has its size and its text; a pong is handled within the read of the next message.\<close>

datatype heard = Message int "json option" | Pong

text \<open>
  The first read has a deadline of its own; the pong handler is not installed yet, so a pong is without
  effect.
\<close>

fun first_frame :: "int \<Rightarrow> (int \<times> heard) list \<Rightarrow> frame" where
  "first_frame d [] = ReadError True"
| "first_frame d ((t, x) # xs) =
     (if d \<le> t then ReadError True
      else case x of
          Message len text \<Rightarrow> if maxWSMessageBytes < len then ReadError False else Frame t text
        | Pong \<Rightarrow> first_frame d xs)"

text \<open>
  The reads of the loop: \<open>d\<close> is the deadline, which every message and every pong moves. A read beyond the
  deadline fails, and so does one of a message that is too large. At the end the client is silent.
\<close>

fun read_frames :: "int \<Rightarrow> (int \<times> heard) list \<Rightarrow> frame list" where
  "read_frames d [] = [ReadError True]"
| "read_frames d ((t, x) # xs) =
     (if d \<le> t then [ReadError True]
      else case x of
          Message len text \<Rightarrow>
            if maxWSMessageBytes < len then [ReadError False]
            else Frame t text # read_frames (t + wsIdleTimeout) xs
        | Pong \<Rightarrow> read_frames (t + wsIdleTimeout) xs)"

text \<open>
  A whole connection, from what the client sends: the first message under the deadline for authentication,
  set at \<open>t\<close>, and the others under the idle deadline, set at \<open>t1\<close> first. The message bucket starts at \<open>t2\<close>.
\<close>

fun after_first :: "(int \<times> heard) list \<Rightarrow> (int \<times> heard) list" where
  "after_first [] = []"
| "after_first ((t, Message len text) # xs) = xs"
| "after_first ((t, Pong) # xs) = after_first xs"

definition ws_connection ::
  "(string \<Rightarrow> SvcErr + AuthClaims) \<Rightarrow> bool \<Rightarrow> bool \<Rightarrow> rat \<Rightarrow> rat \<Rightarrow> Request \<Rightarrow> int \<Rightarrow> int \<Rightarrow> int \<Rightarrow>
   (int \<times> heard) list \<Rightarrow> connRegistry option \<Rightarrow> (ws_out list \<times> connRegistry option) prog" where
  "ws_connection validate trustProxy store perSec burst r t t1 t2 xs conns =
     ws_session validate trustProxy store perSec burst r (first_frame (t + wsAuthTimeout) xs) t2
       (read_frames (t1 + wsIdleTimeout) (after_first xs)) conns"

text \<open>The messages and their times.\<close>

fun messages :: "(int \<times> heard) list \<Rightarrow> (int \<times> json option) list" where
  "messages [] = []"
| "messages ((t, Message len text) # xs) = (t, text) # messages xs"
| "messages ((t, Pong) # xs) = messages xs"

definition sizes_ok :: "(int \<times> heard) list \<Rightarrow> bool" where
  "sizes_ok xs \<longleftrightarrow> (\<forall>t len text. (t, Message len text) \<in> set xs \<longrightarrow> len \<le> maxWSMessageBytes)"

lemma sizes_ok_Cons [simp]:
  "sizes_ok ((t, Message len text) # xs) \<longleftrightarrow> len \<le> maxWSMessageBytes \<and> sizes_ok xs"
  "sizes_ok ((t, Pong) # xs) \<longleftrightarrow> sizes_ok xs"
  by (auto simp: sizes_ok_def)

text \<open>The client is never silent for as long as the deadline, from \<open>s\<close> on.\<close>

fun lively :: "int \<Rightarrow> (int \<times> heard) list \<Rightarrow> bool" where
  "lively s [] = True"
| "lively s ((t, x) # xs) = (t < s + wsIdleTimeout \<and> lively t xs)"

lemma read_frames_lively:
  "lively s xs \<Longrightarrow> sizes_ok xs \<Longrightarrow>
    read_frames (s + wsIdleTimeout) xs = map (\<lambda>(t, text). Frame t text) (messages xs) @ [ReadError True]"
proof (induction xs arbitrary: s)
  case (Cons x xs)
  obtain t y where "x = (t, y)" by fastforce
  then show ?case using Cons by (cases y) auto
qed simp

lemma lively_gaps:
  assumes "sorted (map fst xs)" "\<forall>(t, x) \<in> set xs. s \<le> t"
    and "\<And>r. s \<le> r \<Longrightarrow> r + wsIdleTimeout \<le> u \<Longrightarrow> \<exists>(t, x) \<in> set xs. r < t \<and> t < r + wsIdleTimeout"
    and "\<forall>(t, x) \<in> set xs. t \<le> u"
  shows "lively s xs"
  using assms
proof (induction xs arbitrary: s)
  case (Cons a xs)
  obtain t x where a: "a = (t, x)" by fastforce
  have t: "s \<le> t" "t \<le> u" and later: "\<forall>(t', x) \<in> set xs. t \<le> t'" using Cons.prems(1,2,4) a by auto
  have "t < s + wsIdleTimeout"
  proof (rule ccontr)
    assume "\<not> t < s + wsIdleTimeout"
    then have "s + wsIdleTimeout \<le> u" using t by simp
    then obtain t' x' where "(t', x') \<in> set (a # xs)" "t' < s + wsIdleTimeout" using Cons.prems(3) [of s] by auto
    then show False using later a \<open>\<not> t < s + wsIdleTimeout\<close> by auto
  qed
  moreover have "lively t xs"
  proof (rule Cons.IH)
    fix r assume "t \<le> r" "r + wsIdleTimeout \<le> u"
    then show "\<exists>(t', x) \<in> set xs. r < t' \<and> t' < r + wsIdleTimeout" using Cons.prems(3) [of r] t a by auto
  qed (use Cons.prems(1,4) later in auto)
  ultimately show ?case by (simp add: a)
qed simp

text \<open>
  A client that answers pings: the write loop pings every thirty seconds from \<open>s\<close> on, and up to \<open>u\<close> a pong
  comes back before the next ping.
\<close>

definition answers_pings :: "int \<Rightarrow> int \<Rightarrow> (int \<times> heard) list \<Rightarrow> bool" where
  "answers_pings s u xs \<longleftrightarrow>
     (\<forall>k :: nat. let ping = s + (int k + 1) * wsPingPeriod in
        ping + wsPingPeriod \<le> u \<longrightarrow> (\<exists>t. (t, Pong) \<in> set xs \<and> ping \<le> t \<and> t < ping + wsPingPeriod))"

lemma answers_pings_gaps:
  assumes "answers_pings s u xs" "s \<le> r" "r + wsIdleTimeout \<le> u"
  shows "\<exists>(t, x) \<in> set xs. r < t \<and> t < r + wsIdleTimeout"
proof -
  define k where "k = nat ((r - s) div wsPingPeriod)"
  let ?ping = "s + (int k + 1) * wsPingPeriod"
  have p: "wsPingPeriod = 30000000000" "wsIdleTimeout = 60000000000" by (simp_all add: wsPingPeriod_def wsIdleTimeout_def)
  obtain m where m: "r = s + int k * 30000000000 + m" "0 \<le> m" "m < 30000000000"
  proof
    show "r = s + int k * 30000000000 + (r - s) mod 30000000000" using assms(2) by (simp add: k_def p pos_imp_zdiv_nonneg_iff)
  qed simp_all
  have "r < ?ping" "?ping \<le> r + 30000000000" using m by (simp_all add: p algebra_simps)
  moreover obtain t where "(t, Pong) \<in> set xs" "?ping \<le> t" "t < ?ping + wsPingPeriod"
    using assms(1,3) calculation unfolding answers_pings_def Let_def p by force
  ultimately show ?thesis using p by (intro bexI [of _ "(t, Pong)"]) simp_all
qed

lemma silence_is_noticed:
  "read_frames d (xs @ (t, x) # ys) = read_frames d xs"
  if "\<forall>(t', x) \<in> set xs. t' + wsIdleTimeout \<le> t" "d \<le> t"
  using that
proof (induction xs arbitrary: d)
  case (Cons a xs)
  obtain t' y where a: "a = (t', y)" by fastforce
  have "read_frames (t' + wsIdleTimeout) (xs @ (t, x) # ys) = read_frames (t' + wsIdleTimeout) xs"
    by (rule Cons.IH) (use Cons.prems a in auto)
  then show ?case by (cases y) (auto simp: a)
qed simp

section \<open>The connection\<close>

text \<open>
  What is written on the connection: an event of the channel, a ping, or a message of the session itself.
  The mutex \<^verbatim>\<open>wsWriteMu\<close> makes each write one frame.
\<close>

datatype sent = Text event | Ping | Own ws_out

text \<open>
  \<open>skRead\<close> and \<open>skWrite\<close> are whether the loops run (\<^verbatim>\<open>done\<close> is closed when the read loop has ended), \<open>usable\<close>
  whether the connection is open and no close frame was sent, \<open>chan\<close> what waits in the channel of the
  subscription, \<open>skFrom\<close> and \<open>pos\<close> where it began and how far it has got in what Redis published. \<open>got\<close>
  records all that entered the channel, \<open>missed\<close> counts the messages that the subscription lost.
\<close>

record socket =
  skGame :: string
  skFrom :: nat
  pos :: nat
  chan :: "event list"
  got :: "event list"
  missed :: nat
  skSub :: bool
  skRead :: bool
  skWrite :: bool
  usable :: bool
  wire :: "sent list"

definition new_socket :: "string \<Rightarrow> nat \<Rightarrow> socket" where
  "new_socket gid n = \<lparr>skGame = gid, skFrom = n, pos = n, chan = [], got = [], missed = 0, skSub = True,
     skRead = True, skWrite = True, usable = True, wire = []\<rparr>"

text \<open>
  \<^verbatim>\<open>Subscribe\<close> of the game service: nil when it has no store, else a subscription that sees what is published
  from now on.
\<close>

definition svc_Subscribe :: "bool \<Rightarrow> string \<Rightarrow> nat \<Rightarrow> socket option" where
  "svc_Subscribe store gid n = (if \<not> store then None else Some (new_socket gid n))"

definition is_close :: "sent \<Rightarrow> bool" where
  "is_close x \<longleftrightarrow> (case x of Own (SendClose n s) \<Rightarrow> True | _ \<Rightarrow> False)"

text \<open>
  One write. It fails when the connection is closed or a close frame was sent, and it may fail otherwise
  (\<open>ok\<close>).
\<close>

definition write_frame :: "bool \<Rightarrow> sent \<Rightarrow> socket \<Rightarrow> bool \<times> socket" where
  "write_frame ok x sk =
     (if ok \<and> usable sk then (True, sk\<lparr>wire := wire sk @ [x], usable := \<not> is_close x\<rparr>) else (False, sk))"

text \<open>What the session sends itself; the callers ignore the outcome or only log it.\<close>

definition sendWSError :: "bool \<Rightarrow> string \<Rightarrow> socket \<Rightarrow> bool \<times> socket" where
  "sendWSError ok errMsg sk = write_frame ok (Own (SendError errMsg)) sk"

definition closeWithCode :: "bool \<Rightarrow> int \<Rightarrow> string \<Rightarrow> socket \<Rightarrow> socket" where
  "closeWithCode ok n reason sk = snd (write_frame ok (Own (SendClose n reason)) sk)"

definition send_out :: "bool \<Rightarrow> ws_out \<Rightarrow> socket \<Rightarrow> socket" where
  "send_out ok x sk =
     (case x of SendError errMsg \<Rightarrow> snd (sendWSError ok errMsg sk)
      | SendClose n reason \<Rightarrow> closeWithCode ok n reason sk)"

lemma send_out_write: "send_out ok x sk = snd (write_frame ok (Own x) sk)"
  by (cases x) (simp_all add: send_out_def sendWSError_def closeWithCode_def)

text \<open>
  The steps, with what Redis has published so far. The client library takes the messages of the channel
  one after the other while it is subscribed; it may lose one (\<^verbatim>\<open>go-redis\<close> drops what finds no place in its channel, and
  what is published while it reconnects). The write loop chooses among the cases of its \<^verbatim>\<open>select\<close> that are
  ready, and ends when a write fails; the read loop sends what the session answers, ignoring failures,
  and its end closes \<^verbatim>\<open>done\<close>, then the subscription, then the connection.
\<close>

inductive sock_step :: "(string \<times> event) list \<Rightarrow> socket \<Rightarrow> socket \<Rightarrow> bool" for pub where
  take_event: "skSub sk \<Longrightarrow> pos sk < length pub \<Longrightarrow> pub ! pos sk = (events_channel (skGame sk), ev) \<Longrightarrow>
    sock_step pub sk (sk\<lparr>pos := Suc (pos sk), chan := chan sk @ [ev], got := got sk @ [ev]\<rparr>)"
| pass_by: "pos sk < length pub \<Longrightarrow> fst (pub ! pos sk) \<noteq> events_channel (skGame sk) \<or> \<not> skSub sk \<Longrightarrow>
    sock_step pub sk (sk\<lparr>pos := Suc (pos sk)\<rparr>)"
| lose: "skSub sk \<Longrightarrow> pos sk < length pub \<Longrightarrow> fst (pub ! pos sk) = events_channel (skGame sk) \<Longrightarrow>
    sock_step pub sk (sk\<lparr>pos := Suc (pos sk), missed := Suc (missed sk)\<rparr>)"
| forward: "skWrite sk \<Longrightarrow> chan sk = ev # rest \<Longrightarrow> write_frame ok (Text ev) sk = (r, sk') \<Longrightarrow>
    sock_step pub sk (sk'\<lparr>chan := rest, skWrite := r\<rparr>)"
| ping: "skWrite sk \<Longrightarrow> write_frame ok Ping sk = (r, sk') \<Longrightarrow> sock_step pub sk (sk'\<lparr>skWrite := r\<rparr>)"
| stop: "skWrite sk \<Longrightarrow> \<not> skRead sk \<or> (\<not> skSub sk \<and> chan sk = []) \<Longrightarrow> sock_step pub sk (sk\<lparr>skWrite := False\<rparr>)"
| answer: "skRead sk \<Longrightarrow> sock_step pub sk (send_out ok x sk)"
| read_end: "skRead sk \<Longrightarrow> sock_step pub sk (sk\<lparr>skRead := False\<rparr>)"
| unsubscribe: "\<not> skRead sk \<Longrightarrow> sock_step pub sk (sk\<lparr>skSub := False\<rparr>)"
| hang_up: "\<not> skRead sk \<Longrightarrow> \<not> skSub sk \<Longrightarrow> sock_step pub sk (sk\<lparr>usable := False\<rparr>)"

inductive_cases sock_stepE: "sock_step pub sk sk'"

text \<open>The events on the wire, and the events of a game's channel.\<close>

fun texts :: "sent list \<Rightarrow> event list" where
  "texts [] = []"
| "texts (Text ev # xs) = ev # texts xs"
| "texts (x # xs) = texts xs"

lemma texts_append [simp]: "texts (xs @ ys) = texts xs @ texts ys"
  by (induction xs rule: texts.induct) auto

definition channel_events :: "string \<Rightarrow> (string \<times> event) list \<Rightarrow> event list" where
  "channel_events gid pub = map snd (filter (\<lambda>(chn, ev). chn = events_channel gid) pub)"

lemma channel_events_append [simp]: "channel_events gid (xs @ ys) = channel_events gid xs @ channel_events gid ys"
  by (simp add: channel_events_def)

section \<open>What the client gets\<close>

text \<open>
  What got into the channel is, in order, of what was published since the subscription, and without a gap if the
  subscription lost nothing; the client has seen a beginning of it, and while the write loop runs, all but what waits. A close frame is the last frame.
\<close>

definition sock_inv :: "(string \<times> event) list \<Rightarrow> socket \<Rightarrow> bool" where
  "sock_inv pub sk \<longleftrightarrow>
     skFrom sk \<le> pos sk \<and> pos sk \<le> length pub \<and>
     subseq (got sk) (channel_events (skGame sk) (drop (skFrom sk) (take (pos sk) pub))) \<and>
     (missed sk = 0 \<longrightarrow> prefix (got sk) (channel_events (skGame sk) (drop (skFrom sk) (take (pos sk) pub))) \<and>
       (skSub sk \<longrightarrow> got sk = channel_events (skGame sk) (drop (skFrom sk) (take (pos sk) pub)))) \<and>
     prefix (texts (wire sk)) (got sk) \<and> (skWrite sk \<longrightarrow> texts (wire sk) @ chan sk = got sk) \<and>
     list_all (\<lambda>x. \<not> is_close x) (butlast (wire sk)) \<and>
     (usable sk \<longrightarrow> list_all (\<lambda>x. \<not> is_close x) (wire sk))"

lemma sock_inv_new: "n \<le> length pub \<Longrightarrow> sock_inv pub (new_socket gid n)"
  by (simp add: sock_inv_def new_socket_def channel_events_def)

lemma sock_inv_publish: "sock_inv pub sk \<Longrightarrow> sock_inv (pub @ xs) sk"
  by (simp add: sock_inv_def)

lemma take_one:
  assumes "m \<le> n" "n < length pub"
  shows "channel_events gid (drop m (take (Suc n) pub)) =
    channel_events gid (drop m (take n pub)) @ (if fst (pub ! n) = events_channel gid then [snd (pub ! n)] else [])"
proof -
  have "drop m (take (Suc n) pub) = drop m (take n pub) @ [pub ! n]"
    using assms by (simp add: take_Suc_conv_app_nth)
  then show ?thesis by (simp add: channel_events_def split: prod.split)
qed

lemma write_frame_wire:
  "write_frame ok x sk = (r, sk') \<Longrightarrow>
    sk' = (if r then sk\<lparr>wire := wire sk @ [x], usable := \<not> is_close x\<rparr> else sk) \<and> (r \<longrightarrow> usable sk)"
  by (auto simp: write_frame_def split: if_splits)

lemma sock_inv_write:
  assumes "sock_inv pub sk" "usable sk" "texts [x] = []"
  shows "sock_inv pub (sk\<lparr>wire := wire sk @ [x], usable := \<not> is_close x\<rparr>)"
  using assms by (simp add: sock_inv_def)

lemma sock_inv_step:
  assumes "sock_step pub sk sk'" "sock_inv pub sk"
  shows "sock_inv pub sk'"
  using assms(1)
proof cases
  case (take_event ev)
  then have t: "channel_events (skGame sk) (drop (skFrom sk) (take (Suc (pos sk)) pub)) =
      channel_events (skGame sk) (drop (skFrom sk) (take (pos sk) pub)) @ [ev]"
    using assms(2) by (simp add: sock_inv_def take_one)
  then show ?thesis using take_event assms(2) by (auto simp: sock_inv_def intro: prefix_order.trans)
next
  case pass_by
  have "prefix (channel_events (skGame sk) (drop (skFrom sk) (take (pos sk) pub)))
      (channel_events (skGame sk) (drop (skFrom sk) (take (Suc (pos sk)) pub)))"
    using pass_by assms(2) by (simp add: sock_inv_def take_one)
  then show ?thesis using pass_by assms(2)
    by (auto simp: sock_inv_def take_one intro: list_emb_prefix prefix_order.trans)
next
  case lose
  then show ?thesis using assms(2) by (auto simp: sock_inv_def take_one intro: list_emb_prefix)
next
  case (forward ev rest ok r sk2)
  note w = write_frame_wire [OF forward(4)]
  show ?thesis
  proof (cases r)
    case True
    have "texts (wire sk) @ ev # rest = got sk" using forward(2,3) assms(2) by (simp add: sock_inv_def)
    then have "prefix (texts (wire sk) @ [ev]) (got sk)" by (metis append_Cons append_Nil append_assoc prefixI)
    then show ?thesis using True w forward(1-3) assms(2) by (auto simp: sock_inv_def is_close_def)
  next
    case False
    then show ?thesis using w forward(1-3) assms(2) by (simp add: sock_inv_def)
  qed
next
  case (ping ok r sk2)
  note w = write_frame_wire [OF ping(3)]
  have "sock_inv pub sk2" using w sock_inv_write [OF assms(2), of Ping] assms(2) by auto
  then show ?thesis using ping(1,2) w by (auto simp: sock_inv_def)
next
  case (answer ok x)
  obtain r sk2 where "write_frame ok (Own x) sk = (r, sk2)" by fastforce
  then have w: "sk' = (if r then sk\<lparr>wire := wire sk @ [Own x], usable := \<not> is_close (Own x)\<rparr> else sk) \<and> (r \<longrightarrow> usable sk)"
    using write_frame_wire answer(1) by (fastforce simp: send_out_write)
  show ?thesis using w sock_inv_write [OF assms(2), of "Own x"] assms(2) by auto
qed (use assms(2) in \<open>auto simp: sock_inv_def\<close>)

section \<open>Who is dropped\<close>

text \<open>How many of the messages that arrive at these times the bucket lets through before it first refuses one.\<close>

definition within_rate :: "Bucket option \<Rightarrow> int list \<Rightarrow> nat" where
  "within_rate bucket ts = (case bucket of None \<Rightarrow> length ts | Some b \<Rightarrow> leading (fst (bucket_run ts b)))"

text \<open>The messages handled one after the other, and what is sent at the end.\<close>

fun handle_all :: "string \<Rightarrow> AuthClaims \<Rightarrow> json option list \<Rightarrow> ws_out list \<Rightarrow> ws_out list prog" where
  "handle_all gid claims [] final = Return final"
| "handle_all gid claims (x # xs) final =
     bindP (ws_handle gid claims x) (\<lambda>out. bindP (handle_all gid claims xs final) (\<lambda>outs. Return (out @ outs)))"

lemma ws_loop_messages:
  "ws_loop gid claims b (map (\<lambda>(t, text). Frame t text) ms @ [ReadError z]) =
    handle_all gid claims (map snd (take (within_rate b (map fst ms)) ms))
      (if within_rate b (map fst ms) < length ms then [SendClose 1008 ''rate limit exceeded''] else [])"
proof (induction ms arbitrary: b)
  case Nil
  then show ?case by (cases b) (simp_all add: within_rate_def)
next
  case (Cons m ms)
  obtain t x where m: "m = (t, x)" by fastforce
  show ?case
  proof (cases b)
    case None
    then show ?thesis using Cons.IH [of None] by (simp add: m within_rate_def)
  next
    case (Some k)
    obtain ok k' where "bucket_Allow t k = (ok, k')" by fastforce
    then show ?thesis using Some Cons.IH [of "Some k'"]
      by (cases ok) (simp_all add: m within_rate_def case_prod_beta)
  qed
qed

text \<open>Messages at least as far apart as the refill of one token takes.\<close>

fun spaced :: "rat \<Rightarrow> int list \<Rightarrow> bool" where
  "spaced perSec (t # u # ts) \<longleftrightarrow> 1 \<le> perSec * seconds (u - t) \<and> spaced perSec (u # ts)"
| "spaced perSec ts \<longleftrightarrow> True"

lemma leading_steady:
  assumes "1 \<le> b_capacity b" "0 < b_refill b" "b_tokens b \<le> b_capacity b" "b_last b \<le> t"
    and "b_capacity b \<le> b_tokens b + b_refill b * seconds (t - b_last b)" "spaced (b_refill b) (t # ts)"
  shows "leading (fst (bucket_run (t # ts) b)) = Suc (length ts)"
  using assms
proof (induction ts arbitrary: t b)
  case Nil
  then show ?case
    by (auto simp: bucket_Allow_def Let_def case_prod_beta mult.commute seconds_def)
next
  case (Cons u ts)
  let ?b = "b\<lparr>b_tokens := b_capacity b - 1, b_last := t\<rparr>"
  have z: "seconds 0 = 0" by (simp add: seconds_def)
  have a: "bucket_Allow t b = (True, ?b)"
  proof (cases "b_last b < t")
    case True
    then show ?thesis using Cons.prems(1,5) by (auto simp: bucket_Allow_def Let_def mult.commute)
  next
    case False
    then have l: "b_last b = t" using Cons.prems(4) by simp
    then have "b_tokens b = b_capacity b" using Cons.prems(3,5) z by simp
    then show ?thesis using l Cons.prems(1) z by (cases b) (simp add: bucket_Allow_def Let_def)
  qed
  have gap: "1 \<le> b_refill b * seconds (u - t)" using Cons.prems(6) by simp
  then have "0 < b_refill b * seconds (u - t)" by linarith
  then have "t \<le> u" using Cons.prems(2) by (simp add: zero_less_mult_iff)
  then have "leading (fst (bucket_run (u # ts) ?b)) = Suc (length ts)"
    using Cons.prems(1,2,6) gap by (intro Cons.IH) simp_all
  then show ?case by (simp add: a case_prod_beta)
qed

lemma leading_burst:
  assumes "0 \<le> b_refill b" "b_tokens b \<le> b_capacity b" "of_nat (length ts) \<le> b_tokens b"
  shows "leading (fst (bucket_run ts b)) = length ts"
  using assms
proof (induction ts arbitrary: b)
  case (Cons t ts)
  obtain ok b' where a: "bucket_Allow t b = (ok, b')" by fastforce
  have "0 \<le> seconds (t - b_last b) * b_refill b" if "b_last b < t"
    using that Cons.prems(1) by (intro mult_nonneg_nonneg) (simp_all add: less_imp_le)
  then have "ok" "0 \<le> b_refill b'" "b_tokens b' \<le> b_capacity b'" "of_nat (length ts) \<le> b_tokens b'"
    using a Cons.prems by (auto simp: bucket_Allow_def Let_def split: if_splits)
  then show ?case using a Cons.IH by (simp add: case_prod_beta)
qed simp

lemma within_rate_all:
  assumes "1 \<le> burst" "spaced perSec ts \<and> (\<forall>t \<in> set ts. t2 \<le> t) \<or> of_nat (length ts) \<le> burst"
  shows "within_rate (ws_bucket perSec burst t2) ts = length ts"
proof (cases "0 < perSec")
  case True
  let ?b = "NewBucket burst perSec t2"
  have b: "ws_bucket perSec burst t2 = Some ?b" using True assms(1) by (simp add: ws_bucket_def)
  from assms(2) have "leading (fst (bucket_run ts ?b)) = length ts"
  proof
    assume s: "spaced perSec ts \<and> (\<forall>t \<in> set ts. t2 \<le> t)"
    show ?thesis
    proof (cases ts)
      case (Cons t us)
      have "0 \<le> seconds (t - t2)" using s Cons by (simp add: seconds_def)
      then have "0 \<le> perSec * seconds (t - t2)" using True by simp
      then show ?thesis unfolding Cons
        by (simp only: length_Cons, intro leading_steady) (use s Cons True assms(1) in \<open>simp_all add: NewBucket_def\<close>)
    qed simp
  next
    assume "of_nat (length ts) \<le> burst"
    then show ?thesis using True by (intro leading_burst) (simp_all add: NewBucket_def)
  qed
  then show ?thesis by (simp add: b within_rate_def)
qed (simp add: ws_bucket_def within_rate_def)

text \<open>
  C35. Healthy sockets stay, silent and flooding ones go. From the moment \<open>s\<close> at which the session sets its idle
  deadline: a client that answers every ping before the next one and sends no message of more than 32 KiB keeps its connection
  until \<open>u\<close>, and the session reads and handles each of its messages in turn, as long as they stay within the message rate; a message beyond the rate is
  not handled and closes the socket with code 1008. Messages that are as far apart as the rate says, or
  no more of them than the burst, stay within it. And a client of which nothing is heard for sixty seconds is
  dropped: whatever it sends later is not read.
\<close>

theorem healthy_sockets_stay:
  fixes perSec burst :: rat and s u t2 late :: int
  assumes "sorted (map fst xs)" "\<forall>(t, x) \<in> set xs. s \<le> t \<and> t \<le> u" "s \<le> u"
    and "answers_pings s u xs" "sizes_ok xs" "u + wsIdleTimeout \<le> late"
  defines "ms \<equiv> messages xs"
  defines "n \<equiv> within_rate (ws_bucket perSec burst t2) (map fst ms)"
  shows "ws_loop gid claims (ws_bucket perSec burst t2) (read_frames (s + wsIdleTimeout) (xs @ (late, x) # ys)) =
      handle_all gid claims (map snd (take n ms))
        (if n < length ms then [SendClose 1008 ''rate limit exceeded''] else []) \<and>
    (1 \<le> burst \<longrightarrow> spaced perSec (map fst ms) \<and> (\<forall>(t, msg) \<in> set ms. t2 \<le> t) \<or> of_nat (length ms) \<le> burst \<longrightarrow>
      n = length ms)"
proof
  have "lively s xs"
    by (rule lively_gaps [where u = u]) (use assms(1,2) answers_pings_gaps [OF assms(4)] in auto)
  moreover have "read_frames (s + wsIdleTimeout) (xs @ (late, x) # ys) = read_frames (s + wsIdleTimeout) xs"
    by (rule silence_is_noticed) (use assms(2,3,6) in auto)
  ultimately show "ws_loop gid claims (ws_bucket perSec burst t2) (read_frames (s + wsIdleTimeout) (xs @ (late, x) # ys)) =
      handle_all gid claims (map snd (take n ms))
        (if n < length ms then [SendClose 1008 ''rate limit exceeded''] else [])"
    using read_frames_lively assms(5) ws_loop_messages [of gid claims "ws_bucket perSec burst t2" ms True]
    by (simp add: n_def ms_def)
  show "1 \<le> burst \<longrightarrow> spaced perSec (map fst ms) \<and> (\<forall>(t, msg) \<in> set ms. t2 \<le> t) \<or> of_nat (length ms) \<le> burst \<longrightarrow>
      n = length ms"
    using within_rate_all [of burst perSec "map fst ms" t2] by (auto simp: n_def case_prod_beta)
qed

text \<open>
  A client that sends nothing but pongs for two and a half minutes, and then one message, which is not JSON; after a minute's
  silence another one.
\<close>

lemma healthy_sockets_stay_witness:
  "ws_loop ''g'' \<lparr>UserID = ''b'', Username = ''bo''\<rparr> (ws_bucket 10 20 0) (read_frames wsIdleTimeout
    ([(59 * 10 ^ 9, Pong), (60 * 10 ^ 9, Pong), (110 * 10 ^ 9, Pong), (140 * 10 ^ 9, Message 9 None)] @
     (200 * 10 ^ 9, Message 9 None) # [])) = Return [SendError ''invalid message format'']"
proof -
  let ?xs = "[(59 * 10 ^ 9, Pong), (60 * 10 ^ 9, Pong), (110 * 10 ^ 9, Pong), (140 * 10 ^ 9, Message 9 None)]"
  have a: "answers_pings 0 (140 * 10 ^ 9) ?xs"
    unfolding answers_pings_def Let_def
  proof (intro allI impI)
    fix k :: nat
    assume "0 + (int k + 1) * wsPingPeriod + wsPingPeriod \<le> 140 * 10 ^ 9"
    then have "k = 0 \<or> k = 1 \<or> k = 2" by (simp add: wsPingPeriod_def) arith
    then show "\<exists>t. (t, Pong) \<in> set ?xs \<and> 0 + (int k + 1) * wsPingPeriod \<le> t \<and> t < 0 + (int k + 1) * wsPingPeriod + wsPingPeriod"
    proof (elim disjE)
      assume "k = 0" then show ?thesis by (intro exI [of _ "59 * 10 ^ 9"]) (simp add: wsPingPeriod_def)
    next
      assume "k = 1" then show ?thesis by (intro exI [of _ "60 * 10 ^ 9"]) (simp add: wsPingPeriod_def)
    next
      assume "k = 2" then show ?thesis by (intro exI [of _ "110 * 10 ^ 9"]) (simp add: wsPingPeriod_def)
    qed
  qed
  have s: "sizes_ok ?xs" by (auto simp: sizes_ok_def maxWSMessageBytes_def)
  have l: "140 * 10 ^ 9 + wsIdleTimeout \<le> 200 * 10 ^ 9" by (simp add: wsIdleTimeout_def)
  have "within_rate (ws_bucket 10 20 0) (map fst (messages ?xs)) = 1"
    using within_rate_all [of 20 10 "map fst (messages ?xs)" 0] by simp
  then show ?thesis
    using conjunct1 [OF healthy_sockets_stay [OF _ _ _ a s l, where perSec = 10 and burst = 20 and ?t2.0 = 0 and gid = "''g''"
        and claims = "\<lparr>UserID = ''b'', Username = ''bo''\<rparr>" and x = "Message 9 None" and ys = "[]"]]
    by (simp add: ws_handle_def ws_message_def)
qed

end
