(* ===== verification/Infra.thy ===== *)
theory Infra
  imports Http
begin

text \<open>
  internal/infra: what the clients compute from the environment and from the answer of Cognito. The
  connections themselves are made by libraries. Only the Cognito client is used by the server.
\<close>

section \<open>The display name (cognito_client.go)\<close>

text \<open>
  An attribute is a pair of pointers, and \<^verbatim>\<open>aws.ToString\<close> reads a nil pointer as the empty text. \<open>reply\<close>
  is the answer of \<^verbatim>\<open>AdminGetUser\<close>.
\<close>

type_synonym attribute = "string option \<times> string option"

definition ToString :: "string option \<Rightarrow> string" where
  "ToString p = (case p of None \<Rightarrow> '''' | Some s \<Rightarrow> s)"

fun preferred_loop :: "attribute list \<Rightarrow> string" where
  "preferred_loop [] = ''''"
| "preferred_loop ((name, val) # attrs) =
     (if ToString name = ''preferred_username'' then ToString val else preferred_loop attrs)"

definition PreferredUsername :: "(string \<Rightarrow> string + attribute list) \<Rightarrow> string \<Rightarrow> string + string" where
  "PreferredUsername reply sub =
     (case reply sub of Inl err \<Rightarrow> Inl err | Inr attrs \<Rightarrow> Inr (preferred_loop attrs))"

text \<open>The constructor: \<open>aws_config\<close> is the error of loading the AWS configuration of the region.\<close>

definition NewCognitoAttributesFetcher :: "(string \<Rightarrow> string option) \<Rightarrow> string \<Rightarrow> string \<Rightarrow> string + string" where
  "NewCognitoAttributesFetcher aws_config region poolID =
     (case aws_config region of Some e \<Rightarrow> Inl e | None \<Rightarrow> Inr poolID)"

text \<open>Authentication never fails because of the display name: a failed lookup is the same as no name.\<close>

lemma display_name_is_best_effort:
  assumes "\<And>s. s \<noteq> sub \<Longrightarrow> fetch' s = fetch s" "fetch sub = Inl e" "fetch' sub = Inr ''''"
  shows "ValidateToken keys parse fetch upsert db token = ValidateToken keys parse fetch' upsert db token"
proof -
  have "(case fetch s of Inl e \<Rightarrow> s | Inr n \<Rightarrow> if n = '''' then s else n) =
      (case fetch' s of Inl e \<Rightarrow> s | Inr n \<Rightarrow> if n = '''' then s else n)" for s
    using assms by (cases "s = sub") auto
  then show ?thesis unfolding ValidateToken_def by (simp only:)
qed

lemma first_preferred_name:
  "preferred_loop attrs =
    (case find (\<lambda>a. ToString (fst a) = ''preferred_username'') attrs of None \<Rightarrow> '''' | Some a \<Rightarrow> ToString (snd a))"
  by (induction attrs rule: preferred_loop.induct) auto

section \<open>Postgres (postgres_client.go)\<close>

definition or_default :: "string \<Rightarrow> string \<Rightarrow> string" where
  "or_default v d = (if v = '''' then d else v)"

text \<open>\<open>file\<close> is the content of a secret's file, if it can be read.\<close>

definition readSecret :: "(string \<Rightarrow> string option) \<Rightarrow> (string \<Rightarrow> string) \<Rightarrow> string \<Rightarrow> string \<Rightarrow> string" where
  "readSecret file getenv secretName envVarName =
     (case file (''/run/secrets/'' @ secretName) of Some data \<Rightarrow> TrimSpace data | None \<Rightarrow> getenv envVarName)"

text \<open>The connection string and the one that is logged.\<close>

definition NewPostgres :: "(string \<Rightarrow> string option) \<Rightarrow> (string \<Rightarrow> string) \<Rightarrow> string \<times> string" where
  "NewPostgres file getenv =
     (let host = or_default (getenv ''POSTGRES_HOST'') ''postgres'';
          port = or_default (getenv ''POSTGRES_PORT'') ''5432'';
          user = or_default (getenv ''POSTGRES_USER'') ''postgres'';
          password = readSecret file getenv ''postgres_password'' ''POSTGRES_PASSWORD'';
          dbName = or_default (getenv ''POSTGRES_DB'') ''postgres'';
          sslMode = or_default (getenv ''POSTGRES_SSLMODE'') ''disable''
      in (''host='' @ host @ '' port='' @ port @ '' user='' @ user @ '' password='' @ password @
            '' dbname='' @ dbName @ '' sslmode='' @ sslMode,
          ''host='' @ host @ '' port='' @ port @ '' user='' @ user @ '' dbname='' @ dbName @ '' sslmode='' @ sslMode))"

text \<open>The limits of the connection pool, in connections and seconds.\<close>

record PoolOptions =
  MaxOpenConns :: int
  MaxIdleConns :: int
  ConnMaxLifetime :: int

definition postgres_pool :: PoolOptions where
  "postgres_pool = \<lparr>MaxOpenConns = 25, MaxIdleConns = 25, ConnMaxLifetime = 5 * 60\<rparr>"

text \<open>What is logged does not depend on the password, wherever it comes from.\<close>

lemma password_is_not_logged:
  assumes "\<And>v. v \<noteq> ''POSTGRES_PASSWORD'' \<Longrightarrow> getenv' v = getenv v"
  shows "snd (NewPostgres file getenv) = snd (NewPostgres file' getenv')"
  using assms by (simp add: NewPostgres_def Let_def)

text \<open>
  The interface \<^verbatim>\<open>Database\<close>: a query with its arguments is a \<open>'q\<close>, a row a \<open>'row\<close>, the result of a statement the number
  of rows; the calls are parameters. \<open>db_close\<close> is
  the \<^verbatim>\<open>Close\<close> method, which the interface does not ask for and \<^verbatim>\<open>Postgres.Close\<close> looks for.
\<close>

record ('q, 'row) Database =
  ExecContext :: "'q \<Rightarrow> string + nat"
  QueryContext :: "'q \<Rightarrow> string + 'row list"
  QueryRowContext :: "'q \<Rightarrow> 'row"
  PingContext :: "string option"
  db_close :: "string option option"

definition Postgres_Close :: "('q, 'row) Database option \<Rightarrow> string option" where
  "Postgres_Close db =
     (case db of
        None \<Rightarrow> None
      | Some d \<Rightarrow> (case db_close d of Some err \<Rightarrow> err | None \<Rightarrow> None))"

definition Postgres_Ping :: "('q, 'row) Database \<Rightarrow> string option" where
  "Postgres_Ping db = PingContext db"

definition Postgres_Exec :: "('q, 'row) Database \<Rightarrow> 'q \<Rightarrow> string option" where
  "Postgres_Exec db query = (case ExecContext db query of Inl e \<Rightarrow> Some e | Inr _ \<Rightarrow> None)"

definition Postgres_QueryRow :: "('q, 'row) Database \<Rightarrow> 'q \<Rightarrow> 'row" where
  "Postgres_QueryRow db query = QueryRowContext db query"

text \<open>
  The adapter of \<^verbatim>\<open>sql.DB\<close> that \<^verbatim>\<open>NewPostgres\<close> uses: four methods that pass the call on, and no \<^verbatim>\<open>Close\<close>. So
  closing the client succeeds and leaves the connection open.
\<close>

definition realDatabase :: "('q, 'row) Database \<Rightarrow> ('q, 'row) Database" where
  "realDatabase conn = \<lparr>ExecContext = ExecContext conn, QueryContext = QueryContext conn,
     QueryRowContext = QueryRowContext conn, PingContext = PingContext conn, db_close = None\<rparr>"

lemma close_is_not_forwarded: "Postgres_Close (Some (realDatabase conn)) = None"
  by (simp add: Postgres_Close_def realDatabase_def)

section \<open>Redis (redis_client.go)\<close>

text \<open>\<^verbatim>\<open>strconv.Atoi\<close>: an optional sign and decimal digits, within 64 bits.\<close>

definition is_digit :: "char \<Rightarrow> bool" where
  "is_digit c \<longleftrightarrow> 48 \<le> (of_char c :: nat) \<and> (of_char c :: nat) \<le> 57"

definition decimal :: "string \<Rightarrow> int option" where
  "decimal s =
     (if s = '''' \<or> \<not> list_all is_digit s then None
      else Some (fold (\<lambda>c n. 10 * n + (int (of_char c) - 48)) s 0))"

definition Atoi :: "string \<Rightarrow> int option" where
  "Atoi s =
     (let n = (case s of [] \<Rightarrow> None
          | c # cs \<Rightarrow> if c = CHR ''-'' then map_option uminus (decimal cs)
              else if c = CHR ''+'' then decimal cs else decimal s)
      in case n of None \<Rightarrow> None | Some v \<Rightarrow> if int64 v then Some v else None)"

record RedisOptions =
  Addr :: string
  Password :: string
  DB :: int

definition NewRedis :: "(string \<Rightarrow> string) \<Rightarrow> RedisOptions" where
  "NewRedis getenv =
     (let dbStr = getenv ''REDIS_DB''
      in \<lparr>Addr = or_default (getenv ''REDIS_ADDR'') ''redis:6379'',
          Password = getenv ''REDIS_PASSWORD'',
          DB = (if dbStr \<noteq> '''' then (case Atoi dbStr of None \<Rightarrow> 0 | Some n \<Rightarrow> n) else 0)\<rparr>)"

text \<open>
  The interface \<^verbatim>\<open>ClientGetterSetter\<close> over the state \<open>'s\<close> of the store, and the wrapper that takes results and errors out of the
  commands of go-redis. A missing key is an error of \<^verbatim>\<open>Get\<close>. An expiration of 0 is none.
\<close>

record 's ClientGetterSetter =
  cmd_Ping :: "'s \<Rightarrow> string + string"
  cmd_Set :: "string \<Rightarrow> string \<Rightarrow> int \<Rightarrow> 's \<Rightarrow> (string + string) \<times> 's"
  cmd_Get :: "string \<Rightarrow> 's \<Rightarrow> string + string"

definition Redis_Ping :: "'s ClientGetterSetter \<Rightarrow> 's \<Rightarrow> string + string" where
  "Redis_Ping client s = cmd_Ping client s"

definition Redis_Set :: "'s ClientGetterSetter \<Rightarrow> string \<Rightarrow> string \<Rightarrow> int \<Rightarrow> 's \<Rightarrow> string option \<times> 's" where
  "Redis_Set client key val expiration s =
     (case cmd_Set client key val expiration s of
        (Inl err, s') \<Rightarrow> (Some err, s') | (Inr status, s') \<Rightarrow> (None, s'))"

definition Redis_Get :: "'s ClientGetterSetter \<Rightarrow> string \<Rightarrow> 's \<Rightarrow> string + string" where
  "Redis_Get client key s = cmd_Get client key s"

text \<open>A value that was set without an error is got back, if the client does what Redis documents for one key.\<close>

lemma set_then_get:
  assumes "\<And>key val expiration s status s'. cmd_Set client key val expiration s = (Inr status, s') \<Longrightarrow> cmd_Get client key s' = Inr val"
    and "Redis_Set client key val expiration s = (None, s')"
  shows "Redis_Get client key s' = Inr val"
  using assms by (auto simp: Redis_Set_def Redis_Get_def split: prod.splits sum.splits)

lemma Atoi_samples: "Atoi ''15'' = Some 15" "Atoi ''-3'' = Some (-3)" "Atoi ''1x'' = None" "Atoi '''' = None"
  "Atoi ''9223372036854775808'' = None"
  by code_simp+

end
