(* ===== verification/Deployment.thy ===== *)
theory Deployment
  imports Server Socket
begin

text \<open>
  The whole server at work: HTTP requests and WebSocket sessions of any number of clients, each running
  one command at a time against Redis and Postgres, with lost replies, expiring locks and clocks that
  move at will. What every client is shown comes from one history of the game.
\<close>

section \<open>Requests and sessions in flight\<close>

datatype outcome = Answered Response | Sent "ws_out list"

text \<open>
  A request enters with the program that the router gives it; a session enters after its upgrade, with
  all that its client will send. The rate limiter may be in any state.
\<close>

type_synonym live = "world \<times> outcome prog list"

text \<open>An error response of the WebSocket library carries no game.\<close>

definition plain_handshake :: "(bool \<Rightarrow> Request \<Rightarrow> Response option) \<Rightarrow> bool" where
  "plain_handshake h \<longleftrightarrow> (\<forall>ok r resp. h ok r = Some resp \<longrightarrow> content resp = NoContent)"

inductive live_step :: "live \<Rightarrow> live \<Rightarrow> bool" where
  http: "plain_handshake (srv_handshake srv) \<Longrightarrow>
    live_step (w, ps) (w, ps @ [bindP (fst (serve srv meth path r (s :: buckets))) (\<lambda>resp. Return (Answered resp))])"
| socket: "live_step (w, ps)
    (w, ps @ [bindP (ws_connection validate trustProxy store perSec burst r t t1 t2 xs conns)
      (\<lambda>x. Return (Sent (fst x)))])"
| act: "i < length ps \<Longrightarrow> ps ! i = Call c k \<Longrightarrow> exec ch c w = (r, w') \<Longrightarrow> live_step (w, ps) (w', ps[i := k r])"
| tick: "live_step (w, ps) (w\<lparr>clock := t\<rparr>, ps)"

inductive live_reach :: "nat \<Rightarrow> live \<Rightarrow> bool" where
  start: "empty_world w \<Longrightarrow> live_reach 0 (w, [])"
| step: "live_reach n s \<Longrightarrow> live_step s s' \<Longrightarrow> live_reach (Suc n) s'"

text \<open>The games that a response carries.\<close>

definition shown :: "Response \<Rightarrow> Game set" where
  "shown resp = (case content resp of OneGame (Some g) \<Rightarrow> {g} | GameList gs \<Rightarrow> set gs | _ \<Rightarrow> {})"

definition seen :: "string \<Rightarrow> outcome \<Rightarrow> bool \<Rightarrow> Game list \<Rightarrow> bool" where
  "seen gid x own H \<longleftrightarrow>
     (case x of Answered resp \<Rightarrow> (\<forall>g \<in> shown resp. gID g = gid \<longrightarrow> g \<in> set H) | Sent outs \<Rightarrow> True)"

lemma seen_grows: "seen gid x o' H \<Longrightarrow> grows gid own H H' \<Longrightarrow> seen gid x o'' H'"
  by (auto simp: seen_def dest: grows_set split: outcome.splits)

lemma shown_simps [simp]:
  "shown (ok_json (OneGame x)) = set_option x"
  "shown (ok_json (GameList gs)) = set gs" "shown (http_error n s) = {}" "shown (rate_limited n) = {}"
  "shown (writeAuthError err) = {}" "shown (join_error err) = {}" "shown (move_error err) = {}"
  by (simp_all add: shown_def ok_json_def http_error_def rate_limited_def writeAuthError_def join_error_def move_error_def
      split: option.split)

section \<open>Handlers keep the guarantee\<close>

text \<open>A handler shows only what is in the history.\<close>

definition honest :: "string \<Rightarrow> Response prog \<Rightarrow> bool" where
  "honest gid p \<longleftrightarrow> (\<forall>H. wp gid p (\<lambda>resp. seen gid (Answered resp)) False H)"

lemma honest_Return [simp]: "shown resp = {} \<Longrightarrow> honest gid (Return resp)"
  by (simp add: honest_def seen_def)

text \<open>The end of a request that answers with the result of the service.\<close>

lemma wp_answer:
  assumes "wp gid p (answered gid) False H"
    and "\<And>e. shown (bad e) = {}"
  shows "wp gid (bindP p (\<lambda>x. case x of Inl e \<Rightarrow> Return (bad e) | Inr g \<Rightarrow> Return (ok_json (OneGame (Some g)))))
    (\<lambda>resp. seen gid (Answered resp)) False H"
  by (rule wp_bindP, rule wp_mono [OF assms(1)])
     (auto simp: seen_def answered_def assms(2) dest: grows_set split: sum.split)

lemma honest_JoinGame: "honest gid (JoinGameHandler authSvc r)"
proof (cases "authenticate authSvc r")
  case (Inr claims)
  show ?thesis unfolding honest_def JoinGameHandler_def Inr sum.case
    using wp_handler [of "ReqJoin (PathID r) (UserID claims) (Username claims)" gid]
    by (intro allI wp_answer) (simp_all add: handler_def request_ok_def)
qed (simp add: JoinGameHandler_def)

lemma honest_Move: "honest gid (MoveHandler authSvc r)"
proof -
  have m: "wp gid (svc_ProcessMove g u mt pl v) (answered gid) False H" for g u mt pl v H
    using wp_handler [of "ReqMove g u mt pl v" gid H] by (simp add: handler_def request_ok_def)
  have p: "wp gid (bindP (svc_ProcessMove g u mt pl v) (\<lambda>x. case x of Inl e \<Rightarrow> Return (move_error e)
      | Inr g \<Rightarrow> Return (ok_json (OneGame (Some g))))) (\<lambda>resp. seen gid (Answered resp)) False H" for g u mt pl v H
    by (rule wp_answer [OF m]) simp
  show ?thesis
    by (auto simp: MoveHandler_def honest_def p seen_def [of gid "Answered x" for x] split: sum.split option.split)
qed

lemma honest_Create: "honest gid (CreateGameHandler authSvc uuid r)"
proof (cases "authenticate authSvc r")
  case (Inr claims)
  have cfg: "offered (requested_config r)"
    using requested_config_fields [of r] by (simp add: offered_def config_ok_def)
  have j: "wp gid (bindP (svc_JoinGame uuid (UserID claims) (Username claims)) (\<lambda>st. case st of
      Inl err \<Rightarrow> Return (http_error 500 ''failed to auto-join creator'')
    | Inr updatedState \<Rightarrow> Return (ok_json (OneGame (Some updatedState)))))
    (\<lambda>resp. seen gid (Answered resp)) False H" for H
    using wp_handler [of "ReqJoin uuid (UserID claims) (Username claims)" gid H]
    by (intro wp_answer) (simp_all add: handler_def request_ok_def)
  show ?thesis unfolding honest_def CreateGameHandler_def Inr sum.case
  proof (intro allI wp_bindP, rule wp_mono [OF wp_create [OF cfg]])
    fix x :: "SvcErr + Game" and own' H'
    assume "created gid x own' H'"
    then show "wp gid (case x of Inl err \<Rightarrow> Return (http_error 500 (err_text err))
        | Inr _ \<Rightarrow> bindP (svc_JoinGame uuid (UserID claims) (Username claims)) (\<lambda>st. case st of
            Inl err \<Rightarrow> Return (http_error 500 ''failed to auto-join creator'')
          | Inr updatedState \<Rightarrow> Return (ok_json (OneGame (Some updatedState)))))
      (\<lambda>resp. seen gid (Answered resp)) own' H'"
      using j by (cases x) (simp_all add: created_def seen_def)
  qed
qed (simp add: CreateGameHandler_def)

lemma honest_Get: "honest gid (GetGameHandler True r)"
  unfolding honest_def GetGameHandler_def svc_GetGame_def not_True_eq_False if_False
  by (intro allI wp_bindP wp_Load) (auto simp: seen_def intro: grows_set split: sum.split option.split)

definition in_history :: "string \<Rightarrow> Game list \<Rightarrow> Game list \<Rightarrow> bool" where
  "in_history gid gs H \<longleftrightarrow> (\<forall>g \<in> set gs. gID g = gid \<longrightarrow> g \<in> set H)"

lemma in_history_grows: "in_history gid gs H \<Longrightarrow> grows gid own H H' \<Longrightarrow> in_history gid gs H'"
  by (auto simp: in_history_def dest: grows_set)

lemma wp_list_loop:
  assumes "in_history gid games H"
  shows "wp gid (list_loop status ids games) (\<lambda>games own' H'. in_history gid games H') False H"
  using assms
proof (induction ids arbitrary: games H)
  case Nil
  then show ?case by (simp add: in_history_grows)
next
  case (Cons g2 ids)
  let ?rest = "\<lambda>x. case x of Inl err \<Rightarrow> list_loop status ids games | Inr None \<Rightarrow> list_loop status ids games
        | Inr (Some g) \<Rightarrow> list_loop status ids (if Status g = status then games @ [g] else games)"
  show ?case unfolding list_loop.simps
  proof (rule wp_bindP, rule wp_Load)
    fix x :: "SvcErr + Game option" and H1
    assume g: "grows gid False H H1" "\<forall>g. x = Inr (Some g) \<longrightarrow> gID g = g2 \<and> no_deck g \<and> (g2 = gid \<longrightarrow> g \<in> set H1)"
    have old: "in_history gid games H1" by (rule in_history_grows [OF Cons.prems g(1)])
    show "wp gid (?rest x) (\<lambda>games own' H'. in_history gid games H') False H1"
    proof (cases "\<exists>g. x = Inr (Some g)")
      case True
      then obtain g where x: "x = Inr (Some g)" by blast
      show ?thesis unfolding x sum.case option.case
        by (rule Cons.IH) (use old g(2) x in \<open>auto simp: in_history_def\<close>)
    next
      case False
      then have "?rest x = list_loop status ids games" by (auto split: sum.split option.split)
      then show ?thesis using Cons.IH [OF old] by simp
    qed
  qed
qed

lemma wp_list:
  "wp gid (svc_ListGamesByStatus True st) (\<lambda>x own' H'. \<forall>games. x = Inr games \<longrightarrow> in_history gid games H') False H"
  unfolding svc_ListGamesByStatus_def not_True_eq_False if_False
proof (rule wp_bindP, rule wp_quiet)
  show "every quiet (pg_ListGamesByStatus st)"
    by (auto simp: pg_ListGamesByStatus_def issue_def quiet_def split: reply.split)
  fix x :: "SvcErr + string list" and H1
  have "in_history gid [] H1" by (simp add: in_history_def)
  then show "wp gid (case x of Inl err \<Rightarrow> Return (Inl (Wrapped ''failed to list games from db'' err))
      | Inr ids \<Rightarrow> bindP (list_loop st ids []) (\<lambda>games. Return (Inr games)))
    (\<lambda>x own' H'. \<forall>games. x = Inr games \<longrightarrow> in_history gid games H') False H1"
  proof (cases x)
    case (Inr ids)
    have "wp gid (bindP (list_loop st ids []) (\<lambda>games. Return (Inr games)))
        (\<lambda>x own' H'. \<forall>games. x = Inr games \<longrightarrow> in_history gid games H') False H1"
      by (rule wp_bindP, rule wp_mono [OF wp_list_loop [OF \<open>in_history gid [] H1\<close>]]) (simp add: in_history_grows)
    then show ?thesis using Inr by simp
  qed simp
qed

lemma honest_List: "honest gid (ListGamesHandler True r)"
proof -
  have a: "wp gid (bindP (svc_ListGamesByStatus True st) (\<lambda>g. case g of
      Inl err \<Rightarrow> Return (if errors_is err ErrRedisStoreNotInitialized then http_error 503 (err_text err)
                         else http_error 500 (err_text err))
    | Inr games \<Rightarrow> Return (ok_json (GameList games)))) (\<lambda>resp. seen gid (Answered resp)) False H" for st H
  proof (rule wp_bindP, rule wp_mono [OF wp_list])
    fix x :: "SvcErr + Game list" and o' H'
    assume "\<forall>games. x = Inr games \<longrightarrow> in_history gid games H'"
    then show "wp gid (case x of
        Inl err \<Rightarrow> Return (if errors_is err ErrRedisStoreNotInitialized then http_error 503 (err_text err)
                           else http_error 500 (err_text err))
      | Inr games \<Rightarrow> Return (ok_json (GameList games))) (\<lambda>resp. seen gid (Answered resp)) o' H'"
    proof (cases x)
      case (Inr games)
      then have "in_history gid games H1" if "grows gid o' H' H1" for H1
        using \<open>\<forall>games. x = Inr games \<longrightarrow> in_history gid games H'\<close> in_history_grows [OF _ that] by blast
      then show ?thesis using Inr by (simp add: seen_def in_history_def)
    qed (simp add: seen_def)
  qed
  show ?thesis unfolding honest_def ListGamesHandler_def Let_def
    by (auto simp: a seen_def [of gid "Answered x" for x] split: option.split)
qed

section \<open>Moves never create a game\<close>

lemma no_new_game_answers:
  assumes "guard gid c False H" "answers gid c False H r own' H'" "no_new_game c"
  shows "\<not> own'"
proof (cases c)
  case (EvalSave k1 k2 d v x ttl)
  then obtain g where "k1 = state_key (gID g)" "d = marshal g" "no_deck g" using assms(1) by (auto simp: guard_def)
  then show ?thesis using assms(2) EvalSave by (auto simp: answers_def split: if_splits)
qed (use assms(2,3) in \<open>auto simp: answers_def no_new_game_def\<close>)

lemma wp_no_new_game:
  assumes "every no_new_game p" "wp gid p Q False H"
  shows "wp gid p (\<lambda>x own' H'. Q x own' H' \<and> \<not> own') False H"
  using assms
proof (induction p arbitrary: H)
  case (Call c k)
  show ?case unfolding wp.simps
  proof (intro allI impI conjI)
    fix H1 r own' H2
    assume g: "grows gid False H H1"
    show gu: "guard gid c False H1" using Call.prems(2) g by simp
    assume a: "answers gid c False H1 r own' H2" and o: "good gid own' H2"
    have "\<not> own'" using no_new_game_answers [OF gu a] Call.prems(1) by simp
    moreover have "wp gid (k r) Q own' H2" using Call.prems(2) g a o by simp
    ultimately show "wp gid (k r) (\<lambda>x own' H'. Q x own' H' \<and> \<not> own') own' H2" using Call.IH Call.prems(1) by simp
  qed
qed simp

section \<open>Sessions\<close>

lemma wp_ws_handle: "wp gid (ws_handle g2 claims body) (\<lambda>_ own _. \<not> own) False H"
proof -
  have m: "wp gid (bindP (svc_ProcessMove g2 u mt pl cv) f) (\<lambda>_ own _. \<not> own) False H"
    if ret: "\<And>x. \<exists>y. f x = Return y" for u mt pl cv H and f :: "SvcErr + Game \<Rightarrow> ws_out list prog"
  proof -
    have "wp gid (svc_ProcessMove g2 u mt pl cv) (answered gid) False H"
      using wp_handler [of "ReqMove g2 u mt pl cv" gid H] by (simp add: handler_def request_ok_def)
    note p = wp_no_new_game [OF no_new_game.every_update(2) this]
    have "wp gid (f x) (\<lambda>_ own _. \<not> own) False H'" for x H'
    proof -
      obtain y where "f x = Return y" using ret by blast
      then show ?thesis by simp
    qed
    then show ?thesis by (intro wp_bindP wp_mono [OF p]) auto
  qed
  have r: "\<exists>y. (case x of Inl err \<Rightarrow> Return [SendError (err_text err)] | Inr _ \<Rightarrow> Return []) = Return y" for x :: "SvcErr + Game"
    by (cases x) auto
  show ?thesis by (auto simp: ws_handle_def intro!: m r split: option.split sum.split)
qed

lemma wp_ws_loop: "wp gid (ws_loop g2 claims b frames) (\<lambda>_ own _. \<not> own) False H"
proof (induction frames arbitrary: b H)
  case (Cons f frames)
  show ?case
  proof (cases f)
    case (Frame t body)
    have "wp gid (bindP (ws_loop g2 claims b' frames) (\<lambda>outs. Return (out @ outs))) (\<lambda>_ own _. \<not> own) own' H'" if "\<not> own'" for b' out own' H'
      using that by (intro wp_bindP) (simp, rule wp_mono [OF Cons.IH], simp)
    then have "wp gid (bindP (ws_handle g2 claims body) (\<lambda>out. bindP (ws_loop g2 claims b' frames)
        (\<lambda>outs. Return (out @ outs)))) (\<lambda>_ own _. \<not> own) False H" for b' H
      by (intro wp_bindP, intro wp_mono [OF wp_ws_handle]) simp
    then show ?thesis using Frame by (auto simp: Let_def split: option.split prod.split)
  qed simp
qed simp

lemma wp_session_runs:
  "wp gid (ws_session validate tp subscribed perSec burst r first t0 frames conns) (\<lambda>_ _ _. True) False H"
proof -
  have l: "wp gid (bindP (ws_loop g2 claims b frames) f) (\<lambda>_ _ _. True) False H"
    if ret: "\<And>x. \<exists>y. f x = Return y" for g2 claims b and f :: "ws_out list \<Rightarrow> (ws_out list \<times> connRegistry option) prog"
  proof (rule wp_bindP, rule wp_mono [OF wp_ws_loop])
    fix x :: "ws_out list" and own' H'
    obtain y where "f x = Return y" using ret by blast
    then show "wp gid (f x) (\<lambda>_ _ _. True) own' H'" by simp
  qed
  show ?thesis by (cases subscribed) (auto simp: ws_session_def intro!: l split: sum.split)
qed

lemma wp_ws_session:
  "wp gid (bindP (ws_session validate tp subscribed perSec burst r first t0 frames conns) (\<lambda>x. Return (Sent (fst x))))
    (seen gid) False H"
  by (intro wp_bindP, rule wp_mono [OF wp_session_runs]) (simp add: seen_def)

section \<open>The server\<close>

lemma honest_session:
  "shown resp = {} \<Longrightarrow> honest gid (bindP (ws_connection validate tp store perSec burst r t t1 t2 xs conns) (\<lambda>_. Return resp))"
  unfolding honest_def ws_connection_def
  by (intro allI wp_bindP, rule wp_mono [OF wp_session_runs]) (simp add: seen_def)

lemma honest_WSHandler: "plain_handshake (srv_handshake srv) \<Longrightarrow> honest gid (WSHandler srv r)"
  unfolding WSHandler_def Let_def
  by (auto simp: plain_handshake_def shown_def intro!: honest_Return honest_session split: option.split)

lemma honest_Health: "honest gid (HealthzHandler r)"
  unfolding HealthzHandler_def by (rule honest_Return) (simp add: shown_def)

lemma honest_run_route:
  assumes "plain_handshake (srv_handshake srv)"
  shows "honest gid (fst (run_route srv rt r s))"
  using honest_WSHandler [OF assms]
  by (cases rt)
     (auto simp: run_route_def handler_func_def RequireAuth_def RateLimitByUser_def honest_Health
       honest_Create honest_JoinGame honest_Move honest_Get honest_List split: sum.split option.split prod.split)

lemma honest_serve:
  assumes "plain_handshake (srv_handshake srv)"
  shows "honest gid (fst (serve srv meth path r s))"
  using honest_run_route [OF assms]
  by (simp add: serve_def BodyLimitMiddleware_def mux_def split: option.split)


section \<open>Every client sees the same history\<close>

lemma live_reach_inv:
  assumes "live_reach n s" "n < 2 ^ 63"
  shows "\<exists>H owner. sys_inv gid (seen gid) s H owner \<and> length H \<le> n"
  using assms
proof (induction rule: live_reach.induct)
  case (start w)
  then show ?case using sys_inv_start by fastforce
next
  case (step n s s')
  then obtain H owner where inv: "sys_inv gid (seen gid) s H owner" and l: "length H \<le> n" by auto
  have hist: "Suc (length H) < 2 ^ 63" using l step.prems by simp
  from step.hyps(2) show ?case
  proof (cases rule: live_step.cases)
    case (http srv w ps meth path r m)
    have "wp gid (fst (serve srv meth path r m)) (\<lambda>resp. seen gid (Answered resp)) False H"
      using honest_serve [OF http(3), of gid meth path r m] by (simp add: honest_def)
    then have "wp gid (bindP (fst (serve srv meth path r m)) (\<lambda>resp. Return (Answered resp))) (seen gid) False H"
      by (intro wp_bindP, elim wp_mono) (simp add: seen_grows)
    then have "sys_inv gid (seen gid) s' H owner" using inv sys_inv_arrive http(1,2) by blast
    then show ?thesis using l le_SucI by blast
  next
    case (socket w ps)
    then have "sys_inv gid (seen gid) s' H owner" using inv sys_inv_arrive wp_ws_session unfolding ws_connection_def by blast
    then show ?thesis using l le_SucI by blast
  next
    case (act i ps c k ch w r w')
    show ?thesis using sys_inv_act [OF _ hist act(3,4,5), of gid "seen gid" owner] inv act(1,2) l by fastforce
  next
    case (tick w ps t)
    then have "sys_inv gid (seen gid) s' H owner" using inv sys_inv_tick by blast
    then show ?thesis using l le_SucI by blast
  qed
qed

text \<open>
  The server with its open sockets: each subscribes to the channel of a game at some moment and then takes
  what is published there. What its session answers is in the programs above.
\<close>

type_synonym hub = "live \<times> socket list"

inductive hub_step :: "hub \<Rightarrow> hub \<Rightarrow> bool" where
  live: "live_step s s' \<Longrightarrow> hub_step (s, sks) (s', sks)"
| subscribe: "hub_step ((w, ps), sks) ((w, ps), sks @ [new_socket gid (length (published w))])"
| socket: "i < length sks \<Longrightarrow> sock_step (published w) (sks ! i) sk \<Longrightarrow>
    hub_step ((w, ps), sks) ((w, ps), sks[i := sk])"

inductive hub_reach :: "nat \<Rightarrow> hub \<Rightarrow> bool" where
  start: "empty_world w \<Longrightarrow> hub_reach 0 ((w, []), [])"
| step: "hub_reach n s \<Longrightarrow> hub_step s s' \<Longrightarrow> hub_reach (Suc n) s'"

lemma live_published: "live_step (w, ps) (w', ps') \<Longrightarrow> prefix (published w) (published w')"
  by (erule live_step.cases)
     (auto simp: exec_def effect_def Let_def split: net.splits cmd.splits prod.splits if_splits)

lemma hub_reach_inv:
  assumes "hub_reach n s"
  shows "(\<exists>m \<le> n. live_reach m (fst s)) \<and> (\<forall>sk \<in> set (snd s). sock_inv (published (fst (fst s))) sk)"
  using assms
proof (induction rule: hub_reach.induct)
  case (start w)
  then show ?case using live_reach.start by fastforce
next
  case (step n s s')
  from step.hyps(2) show ?case
  proof cases
    case (live l l' sks)
    obtain w ps w' ps' where l: "l = (w, ps)" "l' = (w', ps')" by fastforce
    obtain m where "m \<le> n" "live_reach m l" using step.IH live by auto
    then have "\<exists>m \<le> Suc n. live_reach m l'" using live_reach.step live(3) by (meson Suc_le_mono)
    moreover obtain xs where "published w' = published w @ xs"
      using live_published [of w ps w' ps'] live(3) l by (auto simp: prefix_def)
    ultimately show ?thesis using step.IH live l by (auto simp: sock_inv_publish)
  next
    case (subscribe w ps sks gid)
    then show ?thesis using step.IH by (auto simp: sock_inv_new intro: le_SucI)
  next
    case (socket i sks w sk ps)
    have "sock_inv (published w) sk" using sock_inv_step [OF socket(4)] step.IH socket(1,3) by auto
    then show ?thesis using step.IH socket(1,2)
      by (auto dest!: set_update_subset_insert [THEN subsetD] intro: le_SucI)
  qed
qed

text \<open>
  C34. Sockets show events in order. Whatever the server and its sockets do: what a client has received on its socket is a
  beginning of what the socket took from its channel, in order and each event once, and while the write loop runs only what
  still waits in the channel is missing. What it took are, in order and each at most once, events that were published
  for its game since it subscribed. If the subscription has lost none, they are without a gap, and, up to
  the place that an open subscription has reached, they are all of them. After a close frame nothing is sent.
\<close>

theorem sockets_forward_in_order:
  assumes "hub_reach n ((w, ps), sks)" "sk \<in> set sks"
  shows "prefix (texts (wire sk)) (got sk) \<and>
    subseq (got sk) (channel_events (skGame sk) (drop (skFrom sk) (published w))) \<and>
    (skWrite sk \<longrightarrow> texts (wire sk) @ chan sk = got sk) \<and>
    (missed sk = 0 \<longrightarrow> prefix (got sk) (channel_events (skGame sk) (drop (skFrom sk) (published w))) \<and>
      (skSub sk \<longrightarrow> got sk = channel_events (skGame sk) (drop (skFrom sk) (take (pos sk) (published w))))) \<and>
    (\<forall>x \<in> set (butlast (wire sk)). \<not> is_close x)"
proof -
  have inv: "sock_inv (published w) sk" using hub_reach_inv [OF assms(1)] assms(2) by simp
  obtain late where "published w = take (pos sk) (published w) @ late" by (metis append_take_drop_id)
  then have "channel_events (skGame sk) (drop (skFrom sk) (published w)) =
      channel_events (skGame sk) (drop (skFrom sk) (take (pos sk) (published w))) @ channel_events (skGame sk) late"
    using inv by (metis channel_events_append drop_append drop_eq_Nil sock_inv_def min.absorb2 length_take diff_is_0_eq drop0)
  then show ?thesis using inv by (auto simp: sock_inv_def list_all_iff intro: list_emb_prefix)
qed

lemma texts_published:
  assumes "sock_inv pub sk" "ev \<in> set (texts (wire sk))"
  shows "(events_channel (skGame sk), ev) \<in> set pub"
proof -
  have "ev \<in> set (got sk)" using assms by (auto simp: sock_inv_def dest: set_mono_prefix)
  then have "ev \<in> set (channel_events (skGame sk) (drop (skFrom sk) (take (pos sk) pub)))"
    using assms(1) by (auto simp: sock_inv_def elim: list_emb_set)
  then show ?thesis by (auto simp: channel_events_def dest!: in_set_dropD in_set_takeD)
qed

text \<open>
  C5. Every client sees the same game. However requests and sessions of all clients interleave, and whatever replies are lost, locks
  expire and clocks do: the states of a game that are stored, every state that any HTTP response has
  shown to anyone, and every event that any socket has delivered, with the move and the player it names,
  come from one history, in which each state comes from the one before by exactly one
  join, return or accepted move of the rules; and while no finished table is widened, all of them satisfy
  the round invariant.
\<close>

theorem clients_see_one_history:
  assumes "hub_reach n ((w, ps), sks)" "n < 2 ^ 63"
  shows "\<exists>H. game_history gid H \<and> (\<forall>g. stored gid w = Some g \<longrightarrow> H \<noteq> [] \<and> g = last H) \<and>
    (\<forall>resp g. Return (Answered resp) \<in> set ps \<longrightarrow> g \<in> shown resp \<longrightarrow> gID g = gid \<longrightarrow> g \<in> set H) \<and>
    (\<forall>sk ev. sk \<in> set sks \<longrightarrow> skGame sk = gid \<longrightarrow> ev \<in> set (texts (wire sk)) \<longrightarrow> event_from ev H) \<and>
    ((\<forall>k \<in> set H. not_widened k) \<longrightarrow> (\<forall>g \<in> set H. round_inv False g))"
proof -
  obtain m where m: "m \<le> n" "live_reach m (w, ps)" and sk: "\<forall>sk \<in> set sks. sock_inv (published w) sk"
    using hub_reach_inv [OF assms(1)] by auto
  have "m < 2 ^ 63" using m(1) assms(2) by simp
  then obtain H owner where inv: "sys_inv gid (seen gid) (w, ps) H owner" and l: "length H < 2 ^ 63"
    using live_reach_inv [OF m(2)] by (meson le_less_trans)
  have "g \<in> set H" if "Return (Answered resp) \<in> set ps" "g \<in> shown resp" "gID g = gid" for resp g
    using sys_inv_answer [OF inv l that(1)] that(2,3) by (auto simp: seen_def)
  moreover have "event_from ev H" if "sk \<in> set sks" "skGame sk = gid" "ev \<in> set (texts (wire sk))" for sk ev
    using sys_inv_event [OF inv] texts_published sk that by blast
  moreover have "round_inv False g" if "\<forall>k \<in> set H. not_widened k" "g \<in> set H" for g
    using history_inv [OF sys_inv_stored(1) [OF inv] that(1)] that(2) by (metis in_set_conv_nth)
  ultimately show ?thesis using sys_inv_stored [OF inv] by blast
qed

section \<open>What the lobby lists\<close>

context creating begin

lemma every_ws_loop: "every P (ws_loop gid claims b frames)"
proof (induction frames arbitrary: b)
  case (Cons f frames)
  have h: "every P (ws_handle gid claims body)" for body
    by (auto simp: ws_handle_def intro!: every_bindP every_update split: option.split sum.split)
  show ?case
    by (cases f) (auto simp: Let_def intro!: every_bindP h Cons.IH split: option.split prod.split)
qed simp

lemma every_session: "every P (ws_session validate tp subscribed perSec burst r first t0 frames conns)"
  by (auto simp: ws_session_def intro!: every_bindP every_ws_loop split: sum.split)

lemma every_http: "every P (fst (serve srv meth path r s))"
proof -
  have ws: "every P (WSHandler srv r)" for r
    by (auto simp: WSHandler_def Let_def ws_connection_def intro!: every_bindP every_session split: option.split)
  have h: "every P (CreateGameHandler a uuid r)" "every P (JoinGameHandler a r)" "every P (MoveHandler a r)"
    "every P (GetGameHandler st r)" "every P (ListGamesHandler st r)" for a uuid r st
    unfolding CreateGameHandler_def JoinGameHandler_def MoveHandler_def GetGameHandler_def ListGamesHandler_def Let_def
    by (auto intro!: every_bindP every_create every_update every_queries split: sum.split option.split)
  have "every P (fst (run_route srv rt r s))" for rt r
    by (cases rt)
       (auto simp: run_route_def handler_func_def RequireAuth_def RateLimitByUser_def HealthzHandler_def ws h
         split: sum.split option.split prod.split)
  then show ?thesis by (simp add: serve_def BodyLimitMiddleware_def mux_def split: option.split)
qed

end

text \<open>Every row of the table \<^verbatim>\<open>games\<close> is of a waiting game: nothing updates a row.\<close>

definition rows_waiting :: "live \<Rightarrow> bool" where
  "rows_waiting s \<longleftrightarrow> (case s of (w, ps) \<Rightarrow>
     (\<forall>row \<in> set (gameRows w). grStatus row = PhaseWaiting) \<and> (\<forall>p \<in> set ps. every waiting_rows p))"

lemma rows_waiting_exec:
  "\<forall>row \<in> set (gameRows w). grStatus row = PhaseWaiting \<Longrightarrow> waiting_rows c \<Longrightarrow> exec ch c w = (r, w') \<Longrightarrow>
    \<forall>row \<in> set (gameRows w'). grStatus row = PhaseWaiting"
  by (cases c) (auto simp: exec_def effect_def waiting_rows_def Let_def split: net.splits prod.splits if_splits)

lemma live_rows_waiting: "live_reach n s \<Longrightarrow> rows_waiting s"
proof (induction rule: live_reach.induct)
  case (start w)
  then show ?case by (simp add: rows_waiting_def empty_world_def)
next
  case (step n s s')
  from step.hyps(2) step.IH show ?case
  proof (cases rule: live_step.cases)
    case (act i ps c k ch w r w')
    have "ps ! i \<in> set ps" using act(3) by simp
    then have "every waiting_rows (Call c k)" using step.IH act(1,4) by (auto simp: rows_waiting_def)
    moreover have "\<forall>row \<in> set (gameRows w'). grStatus row = PhaseWaiting"
      by (rule rows_waiting_exec [OF _ _ act(5)]) (use step.IH act(1) calculation in \<open>auto simp: rows_waiting_def\<close>)
    ultimately show ?thesis using step.IH act(1,2)
      by (auto simp: rows_waiting_def dest!: set_update_subset_insert [THEN subsetD])
  qed (auto simp: rows_waiting_def ws_connection_def intro!: every_bindP waiting_rows.every_http waiting_rows.every_session)
qed

text \<open>
  C38. The lobby only knows waiting games. Whatever has happened before, a list of the games of any other phase is empty, however many
  games are in that phase: the row of a game keeps the status with which it was created, and no
  request updates it.
\<close>

theorem other_phases_are_never_listed:
  assumes "live_reach n (w, ps)" "phase_of_string (QueryStatus r) = Some st" "st \<noteq> PhaseWaiting"
    and "ch_net ch = Delivered"
  shows "run ch (ListGamesHandler True r) w = (ok_json (GameList []), w)"
proof -
  have "filter (\<lambda>row. grStatus row = st) (gameRows w) = []"
    using live_rows_waiting [OF assms(1)] assms(3) by (auto simp: rows_waiting_def filter_empty_conv)
  moreover have "QueryStatus r \<noteq> []" using assms(2) by (auto simp: phase_of_string_def)
  ultimately show ?thesis using assms(2,4)
    by (simp add: ListGamesHandler_def Let_def svc_ListGamesByStatus_def pg_ListGamesByStatus_def exec_def effect_def run_bindP)
qed

text \<open>\<^verbatim>\<open>UpdateGameStatus\<close> would mend it, were it called: with at most fifty games the list shows every updated one.\<close>

lemma updated_games_are_listed:
  assumes "gid \<in> grID ` set (gameRows w)" "length (gameRows w) \<le> 50"
  shows "\<exists>ids. effect ch (SelectGames st) (w\<lparr>gameRows := pg_UpdateGameStatus gid st v (gameRows w)\<rparr>) =
    (Ids ids, w\<lparr>gameRows := pg_UpdateGameStatus gid st v (gameRows w)\<rparr>) \<and> gid \<in> set ids"
proof -
  let ?rows = "pg_UpdateGameStatus gid st v (gameRows w)"
  let ?sel = "filter (\<lambda>row. grStatus row = st) ?rows"
  obtain row where r: "row \<in> set (gameRows w)" "grID row = gid" using assms(1) by auto
  have "row\<lparr>grStatus := st, grVersion := v\<rparr> \<in> set ?rows"
    unfolding pg_UpdateGameStatus_def set_map by (rule image_eqI [OF _ r(1)]) (simp add: r(2))
  then have "row\<lparr>grStatus := st, grVersion := v\<rparr> \<in> set ?sel" by simp
  then have "gid \<in> grID ` set ?sel" by (rule image_eqI [rotated]) (simp add: r(2))
  moreover have "length ?rows \<le> 50" using assms(2) by (simp add: pg_UpdateGameStatus_def)
  then have "length ?sel \<le> 50" using length_filter_le order_trans by blast
  ultimately show ?thesis by (simp add: effect_def)
qed

lemma other_phases_are_never_listed_witness:
  "run demo_choice (ListGamesHandler True (demo_request\<lparr>QueryStatus := ''playing''\<rparr>)) demo_world =
    (ok_json (GameList []), demo_world)"
proof (rule other_phases_are_never_listed [where st = PhasePlaying])
  show "live_reach 0 (demo_world, [])" by (rule live_reach.start) (simp add: empty_world_def demo_world_def)
qed (simp_all add: phase_of_string_def demo_choice_def)

section \<open>A sample run\<close>

lemma create_handler_commands: "commands (CreateGameHandler authSvc uuid r) 17"
proof -
  have c: "commands (bindP (svc_CreateGame uuid cfg) f) (3 + 14)" if "\<And>x. commands (f x) 14"
    for cfg and f :: "SvcErr + Game \<Rightarrow> Response prog"
    by (rule commands_bindP [OF create_commands that])
  have j: "commands (bindP (svc_JoinGame uuid u v) f) (14 + 0)" if "\<And>x. commands (f x) 0"
    for u v and f :: "SvcErr + Game \<Rightarrow> Response prog"
    by (rule commands_bindP [OF request_commands(2) that])
  show ?thesis using c j by (auto simp: CreateGameHandler_def split: sum.split)
qed

text \<open>One client watches a game, another one creates it.\<close>

lemma hub_one_socket:
  "hub_reach n ((w, ps), [sk]) \<Longrightarrow> sock_step (published w) sk sk' \<Longrightarrow> hub_reach (Suc n) ((w, ps), [sk'])"
  using hub_reach.step [OF _ hub_step.socket [of 0 "[sk]" w sk' ps]] by simp

lemma demo_hub:
  "\<exists>n w g sk. hub_reach n ((w, [Return (Answered (ok_json (OneGame (Some g))))]), [sk]) \<and> n \<le> 21 \<and>
     stored ''g'' w = Some g \<and> Version g = 2 \<and> gID g = ''g'' \<and> Players g ! 0 = Some (newPlayer ''b'' ''b'' 0) \<and> Status g = PhaseWaiting \<and>
     skGame sk = ''g'' \<and> skWrite sk \<and> chan sk = [] \<and> wire sk = [Text (PlayerJoined (Some (newPlayer ''b'' ''b'' 0)) (Version g))]"
proof -
  let ?claims = "\<lparr>UserID = ''b'', Username = ''b''\<rparr> :: AuthClaims"
  let ?r = "bearer_b\<lparr>ContextClaims := Some ?claims\<rparr>"
  let ?sk = "new_socket ''g'' 0"
  have ok: "plain_handshake (srv_handshake demo_server)" by (simp add: plain_handshake_def demo_server_def)
  have p: "fst (serve demo_server ''POST'' [''games''] bearer_b m) =
      CreateGameHandler (srv_auth demo_server) ''g'' ?r" for m
    using bearer_b by (simp add: serve_def BodyLimitMiddleware_def mux_def path_routes_def run_route_def
        RequireAuth_def RateLimitByUser_def handler_func_def)
      (simp add: demo_server_def handler_func_def)
  let ?p = "bindP (CreateGameHandler (srv_auth demo_server) ''g'' ?r) (\<lambda>resp. Return (Answered resp))"
  have s0: "hub_reach 0 ((demo_world, []), [])" by (rule hub_reach.start) (simp add: empty_world_def demo_world_def)
  have s1: "hub_reach 1 ((demo_world, []), [?sk])"
    using hub_reach.step [OF s0 hub_step.subscribe [of demo_world "[]" "[]" "''g''"]] by (simp add: demo_world_def)
  have s2: "hub_reach 2 ((demo_world, [?p]), [?sk])"
    using hub_reach.step [OF s1 hub_step.live, OF live_step.http [OF ok, of _ _ "''POST''" "[''games'']" bearer_b]]
    by (simp add: p numeral_2_eq_2)
  have auth: "authenticate (srv_auth demo_server) ?r = Inr ?claims" by (simp add: authenticate_def)
  have u: "unused ''g'' demo_world" by (simp add: unused_def demo_world_def)
  have ch: "ch_net demo_choice = Delivered" by (simp add: demo_choice_def)
  obtain g w' where run: "run demo_choice (CreateGameHandler (srv_auth demo_server) ''g'' ?r) demo_world =
      (ok_json (OneGame (Some g)), w')" and g: "gID g = ''g''" "Players g ! 0 = Some (newPlayer ''b'' ''b'' 0)" "Status g = PhaseWaiting" "Version g = 2"
      "stored ''g'' w' = Some g"
    and pub: "published w' = published demo_world @ [(events_channel ''g'', PlayerJoined (Players g ! 0) (Version g))]"
    using create_handler_run [OF ch auth u] by force
  let ?ev = "PlayerJoined (Players g ! 0) (Version g)" and ?ps = "[Return (Answered (ok_json (OneGame (Some g))))]"
  have rp: "run demo_choice ?p demo_world = (Answered (ok_json (OneGame (Some g))), w')"
    using run by (simp add: run_bindP)
  have cp: "commands ?p 17" using commands_bindP [OF create_handler_commands, of "\<lambda>resp. Return (Answered resp)" 0] by simp
  have "\<exists>m \<le> 2 + 17. hub_reach m ((w', [?p][0 := Return (Answered (ok_json (OneGame (Some g))))]), [?sk])"
    by (rule run_steps [where R = "\<lambda>n s. hub_reach n (s, [?sk])" and k = 17, OF _ s2])
      (use rp cp in \<open>auto intro: hub_reach.step hub_step.live live_step.act\<close>)
  then obtain m where m: "m \<le> 19" "hub_reach m ((w', ?ps), [?sk])" by auto
  have p1: "published w' = [(events_channel ''g'', ?ev)]" using pub by (simp add: demo_world_def)
  let ?sk1 = "?sk\<lparr>pos := 1, chan := [?ev], got := [?ev]\<rparr>"
  let ?sk2 = "?sk1\<lparr>wire := [Text ?ev], chan := []\<rparr>"
  have "sock_step (published w') ?sk ?sk1"
    using sock_step.take_event [of ?sk "published w'" ?ev] by (simp add: p1 new_socket_def)
  then have m1: "hub_reach (Suc m) ((w', ?ps), [?sk1])" by (rule hub_one_socket [OF m(2)])
  have "sock_step (published w') ?sk1 ?sk2"
    using sock_step.forward [of ?sk1 ?ev "[]" True True "?sk1\<lparr>wire := [Text ?ev]\<rparr>" "published w'"]
    by (simp add: write_frame_def new_socket_def is_close_def)
  then have "hub_reach (Suc (Suc m)) ((w', ?ps), [?sk2])" by (rule hub_one_socket [OF m1])
  then show ?thesis using m(1) g
    by (intro exI [of _ "Suc (Suc m)"] exI [of _ w'] exI [of _ g] exI [of _ ?sk2]) (simp add: new_socket_def)
qed

lemma clients_see_one_history_witness:
  "\<exists>H g. game_history ''g'' H \<and> g \<in> set H \<and> Players g ! 0 = Some (newPlayer ''b'' ''b'' 0) \<and>
     event_from (PlayerJoined (Some (newPlayer ''b'' ''b'' 0)) (Version g)) H"
proof -
  obtain n w g sk where h: "hub_reach n ((w, [Return (Answered (ok_json (OneGame (Some g))))]), [sk])" "n \<le> 21"
    and g: "gID g = ''g''" "Players g ! 0 = Some (newPlayer ''b'' ''b'' 0)" and sk: "skGame sk = ''g''"
      "wire sk = [Text (PlayerJoined (Some (newPlayer ''b'' ''b'' 0)) (Version g))]"
    using demo_hub by blast
  have "n < 2 ^ 63" using h(2) by simp
  from clients_see_one_history [OF h(1) this, of "''g''"] g sk show ?thesis by auto
qed

lemma sockets_forward_in_order_witness:
  "\<exists>(sk :: socket) v. texts (wire sk) = [PlayerJoined (Some (newPlayer ''b'' ''b'' 0)) v] \<and> got sk = texts (wire sk) \<and> chan sk = []"
proof -
  obtain n w g sk where h: "hub_reach n ((w, [Return (Answered (ok_json (OneGame (Some g))))]), [sk])"
    and sk: "skWrite sk" "wire sk = [Text (PlayerJoined (Some (newPlayer ''b'' ''b'' 0)) (Version g))]"
    and c: "chan sk = []"
    using demo_hub by blast
  have "got sk = texts (wire sk)" using sockets_forward_in_order [OF h, of sk] sk(1) c by simp
  then show ?thesis using sk(2) c by (intro exI [of _ sk] exI [of _ "Version g"]) simp
qed

end
