(* ===== verification/Startup.thy ===== *)
theory Startup
  imports Deployment
begin

text \<open>
  The handler that main.go builds from the environment: the options of internal/api (options.go), the
  constructor (handler.go), what is logged at the start and for each request, and that no environment
  switches a safeguard off.
\<close>

section \<open>The handler and its options\<close>

text \<open>
  \<open>'l\<close> is the limiter. The game service is the same everywhere and is left out. A float is a rational number.
\<close>

record 'l Handler =
  hAuth :: "(string \<Rightarrow> SvcErr + AuthClaims) option"
  hLimiter :: "'l option"
  hOrigins :: "string list"
  hPerSec :: rat
  hBurst :: rat
  hConns :: "connRegistry option"
  hTrustProxy :: bool

definition WithRateLimiter :: "'l \<Rightarrow> 'l Handler \<Rightarrow> 'l Handler" where
  "WithRateLimiter l h = h\<lparr>hLimiter := Some l\<rparr>"

definition WithOrigins :: "string list \<Rightarrow> 'l Handler \<Rightarrow> 'l Handler" where
  "WithOrigins origins h = h\<lparr>hOrigins := WithAllowedOrigins origins\<rparr>"

definition WithWSMessageRate :: "rat \<Rightarrow> rat \<Rightarrow> 'l Handler \<Rightarrow> 'l Handler" where
  "WithWSMessageRate perSec burst h = h\<lparr>hPerSec := perSec, hBurst := burst\<rparr>"

definition WithConnLimits :: "int \<Rightarrow> int \<Rightarrow> 'l Handler \<Rightarrow> 'l Handler" where
  "WithConnLimits maxUser maxIP h = h\<lparr>hConns := Some (newConnRegistry maxUser maxIP)\<rparr>"

definition WithTrustedProxy :: "bool \<Rightarrow> 'l Handler \<Rightarrow> 'l Handler" where
  "WithTrustedProxy trust h = h\<lparr>hTrustProxy := trust\<rparr>"

text \<open>The zero value of the struct, then the options in order.\<close>

definition NewHandler ::
  "(string \<Rightarrow> SvcErr + AuthClaims) option \<Rightarrow> ('l Handler \<Rightarrow> 'l Handler) list \<Rightarrow> 'l Handler" where
  "NewHandler authSvc opts =
     fold (\<lambda>opt h. opt h) opts
       \<lparr>hAuth = authSvc, hLimiter = None, hOrigins = [], hPerSec = 0, hBurst = 0, hConns = None, hTrustProxy = False\<rparr>"

definition AllowedOrigins :: "'l Handler \<Rightarrow> string list" where
  "AllowedOrigins h = hOrigins h"

text \<open>The call of main.go.\<close>

definition main_handler :: "(string \<Rightarrow> SvcErr + AuthClaims) \<Rightarrow> 'l \<Rightarrow> Settings \<Rightarrow> 'l Handler" where
  "main_handler authSvc limiter st =
     NewHandler (Some authSvc)
       [WithRateLimiter limiter, WithOrigins (sOrigins st), WithWSMessageRate wsMessagesPerSec wsMessageBurst,
        WithConnLimits connsPerUser connsPerIP, WithTrustedProxy (sTrustProxy st)]"

text \<open>Options that set different fields commute; of two lists of origins the later one counts.\<close>

lemma options_commute:
  "WithRateLimiter l (WithOrigins o1 h) = WithOrigins o1 (WithRateLimiter l h)"
  "WithConnLimits m n (WithWSMessageRate p b h) = WithWSMessageRate p b (WithConnLimits m n h)"
  "WithTrustedProxy t (WithConnLimits m n h) = WithConnLimits m n (WithTrustedProxy t h)"
  "WithOrigins o2 (WithOrigins o1 h) = WithOrigins o2 h"
  by (simp_all add: WithRateLimiter_def WithOrigins_def WithConnLimits_def WithWSMessageRate_def WithTrustedProxy_def)

lemma main_handler_fields:
  "hAuth (main_handler v l st) = Some v" "hLimiter (main_handler v l st) = Some l"
  "hOrigins (main_handler v l st) = WithAllowedOrigins (sOrigins st)"
  "hPerSec (main_handler v l st) = 10" "hBurst (main_handler v l st) = 20"
  "hConns (main_handler v l st) = Some (newConnRegistry 3 20)" "hTrustProxy (main_handler v l st) = sTrustProxy st"
  by (simp_all add: main_handler_def NewHandler_def WithRateLimiter_def WithOrigins_def WithConnLimits_def
      WithWSMessageRate_def WithTrustedProxy_def wsMessagesPerSec_def wsMessageBurst_def connsPerUser_def connsPerIP_def)

section \<open>The server around the handler\<close>

text \<open>
  The \<^verbatim>\<open>http.Server\<close>: times in seconds, 0 is no limit. Read and write timeouts would end a hijacked connection.
\<close>

record http_server =
  hsAddr :: string
  ReadTimeout :: nat
  WriteTimeout :: nat
  ReadHeaderTimeout :: nat
  IdleTimeout :: nat
  MaxHeaderBytes :: nat

definition main_http_server :: "Settings \<Rightarrow> http_server" where
  "main_http_server st = \<lparr>hsAddr = '':'' @ sPort st, ReadTimeout = 0, WriteTimeout = 0, ReadHeaderTimeout = 10,
     IdleTimeout = 120, MaxHeaderBytes = 2 ^ 16\<rparr>"

text \<open>
  The server of a handler at time \<open>t\<close> (the limiter reads the clock, and \<open>fault\<close> is what happens to its exchange with Redis), with
  the library's URL parser and handshake, the client of an upgraded connection and the next fresh ID.
\<close>

type_synonym 's timed_limiter = "int \<Rightarrow> fault \<Rightarrow> string \<Rightarrow> Rule \<Rightarrow> 's \<Rightarrow> Decision \<times> 's"

definition handler_server ::
  "'s timed_limiter Handler \<Rightarrow> (string \<Rightarrow> string option) \<Rightarrow> (bool \<Rightarrow> Request \<Rightarrow> Response option) \<Rightarrow> client \<Rightarrow>
   int \<Rightarrow> fault \<Rightarrow> string \<Rightarrow> 's server" where
  "handler_server h url_host handshake cl t fault uuid =
     \<lparr>srv_auth = hAuth h, srv_limit = map_option (\<lambda>l. l t fault) (hLimiter h), srv_origins = hOrigins h,
      srv_trust = hTrustProxy h, srv_perSec = hPerSec h, srv_burst = hBurst h,
      srv_url_host = url_host, srv_handshake = handshake, srv_uuid = uuid, srv_client = cl\<rparr>"

text \<open>
  All sessions of a handler and its one registry: a client arrives with the request that was upgraded and its first message, and
  some session that has begun ends. How the sessions interleave is left open; \<^verbatim>\<open>ws_open\<close> and \<^verbatim>\<open>ws_close\<close> are the two
  parts of a session that touch the registry.
\<close>

record visitor =
  vsUser :: string
  vsIP :: string
  vsOpen :: bool
  vsPlace :: "conn_handle option"

datatype visit = Arrive Request frame | Leave nat

definition visit_step ::
  "'l Handler \<Rightarrow> (string \<Rightarrow> SvcErr + AuthClaims) \<Rightarrow> visit \<Rightarrow> connRegistry option \<times> visitor list \<Rightarrow>
   connRegistry option \<times> visitor list" where
  "visit_step h validate v s =
     (case (v, s) of
        (Arrive r first, conns, vs) \<Rightarrow>
          (case ws_open validate (hTrustProxy h) r first conns of
             Inl out \<Rightarrow> (conns, vs)
           | Inr (claims, place, conns') \<Rightarrow>
               (conns', vs @ [\<lparr>vsUser = UserID claims, vsIP = ClientIP r (hTrustProxy h), vsOpen = True, vsPlace = place\<rparr>]))
      | (Leave i, conns, vs) \<Rightarrow>
          if i < length vs \<and> vsOpen (vs ! i)
          then (let (place, conns') = ws_close (vsPlace (vs ! i)) conns
                in (conns', vs[i := (vs ! i)\<lparr>vsOpen := False, vsPlace := place\<rparr>]))
          else (conns, vs))"

definition visits :: "'l Handler \<Rightarrow> (string \<Rightarrow> SvcErr + AuthClaims) \<Rightarrow> visit list \<Rightarrow> connRegistry option \<times> visitor list" where
  "visits h validate xs = fold (visit_step h validate) xs (hConns h, [])"

definition open_of :: "string \<Rightarrow> visitor list \<Rightarrow> int" where
  "open_of u vs = int (length (filter (\<lambda>v. vsUser v = u \<and> vsOpen v) vs))"

definition open_from :: "string \<Rightarrow> visitor list \<Rightarrow> int" where
  "open_from ip vs = int (length (filter (\<lambda>v. vsIP v = ip \<and> vsOpen v) vs))"

section \<open>What is logged\<close>

text \<open>The line about the resolved configuration, and whether the warning in front of it is written.\<close>

primrec join_commas :: "string \<Rightarrow> string list \<Rightarrow> string" where
  "join_commas s [] = s"
| "join_commas s (x # xs) = join_commas (s @ '','' @ x) xs"

record startup_log =
  slWarning :: bool
  slOrigins :: string
  slTrustProxy :: bool
  slConns :: "int \<times> int"
  slMessages :: "rat \<times> rat"

definition startup_lines :: "(string \<Rightarrow> string) \<Rightarrow> 'l Handler \<Rightarrow> bool \<Rightarrow> startup_log" where
  "startup_lines getenv h trustProxy =
     (let effectiveOrigins = AllowedOrigins h in
      \<lparr>slWarning = (getenv ''ALLOWED_ORIGINS'' \<noteq> '''' \<and> effectiveOrigins = []),
       slOrigins = (case effectiveOrigins of [] \<Rightarrow> ''same-host fallback (ALLOWED_ORIGINS empty or unset)''
                    | x # xs \<Rightarrow> join_commas x xs),
       slTrustProxy = trustProxy, slConns = (connsPerUser, connsPerIP), slMessages = (wsMessagesPerSec, wsMessageBurst)\<rparr>)"

text \<open>The line of a request, after the handler has written its response.\<close>

datatype log_level = LevelInfo | LevelWarn | LevelError

record access_line =
  alLevel :: log_level
  alMethod :: string
  alURL :: string
  alRemote :: string
  alCode :: int
  alLine :: log_line

definition LoggingMiddleware :: "bool \<Rightarrow> string \<Rightarrow> string \<Rightarrow> Request \<Rightarrow> LoggingResponseWriter \<Rightarrow> access_line" where
  "LoggingMiddleware trustProxy meth url r lrw =
     (let remote = ClientIP r trustProxy; (statusCode, msg) = logged lrw in
      \<lparr>alLevel = (case msg of ServerError \<Rightarrow> LevelError | ClientError \<Rightarrow> LevelWarn | _ \<Rightarrow> LevelInfo),
       alMethod = meth, alURL = url, alRemote = remote, alCode = statusCode, alLine = msg\<rparr>)"

text \<open>The wrapped writer can be hijacked if the writer inside can; \<open>hijacker\<close> is its method, if it has one.\<close>

definition lrw_Hijack :: "(string + 'conn) option \<Rightarrow> string + 'conn" where
  "lrw_Hijack hijacker = (case hijacker of None \<Rightarrow> Inl ''hijack not supported'' | Some h \<Rightarrow> h)"

text \<open>A request is logged as an error of the server exactly when the client saw a status of 500 or more.\<close>

lemma errors_are_logged:
  assumes "\<forall>n. Some n \<in> set ops \<longrightarrow> n \<noteq> 0"
  shows "alLevel (LoggingMiddleware trust meth url r (written ops)) = LevelError \<longleftrightarrow>
    (\<exists>n ns. forwarded (written ops) = n # ns \<and> 500 \<le> n)"
proof -
  have c: "fst (logged (written ops)) = (case forwarded (written ops) of [] \<Rightarrow> 200 | n # _ \<Rightarrow> n)"
    by (rule logged_is_sent(2) [OF assms])
  have l: "snd (logged (written ops)) = ServerError \<longleftrightarrow> 500 \<le> fst (logged (written ops))"
    by (simp add: logged_def Let_def)
  show ?thesis unfolding LoggingMiddleware_def Let_def
    using c l by (cases "logged (written ops)"; cases "snd (logged (written ops))") (auto split: list.splits)
qed

section \<open>No environment switches a safeguard off\<close>

lemma server_start_settings:
  assumes "server_start getenv parse_level sql_open ping aws_config register refresh = Inr st"
  shows "sOrigins st = env_origins getenv" "sTrustProxy st = (getenv ''TRUST_PROXY_HEADERS'' = ''true'')"
    "caClientID (sAuth st) = getenv ''COGNITO_CLIENT_ID'' \<and> caPool (sAuth st) = getenv ''COGNITO_POOL_ID''"
    "\<exists>i < 30. NewStore (sql_open i) (ping i) (sPgConn st) = None"
proof -
  obtain conn where c: "sPgConn st = conn" "fst (connect_loop (\<lambda>i. NewStore (sql_open i) (ping i) conn) 0 30 None) = None"
    using assms by (auto simp: server_start_def newCognitoAuth_def NewCognitoAttributesFetcher_def Let_def
        split: option.splits sum.splits if_splits)
  have "30 = Suc 29" by simp
  then show "\<exists>i < 30. NewStore (sql_open i) (ping i) (sPgConn st) = None"
    using c connect_loop_connects [of "\<lambda>i. NewStore (sql_open i) (ping i) conn" 0 29 None] by (metis add_0 le_imp_less_Suc)
  show "sOrigins st = env_origins getenv" "sTrustProxy st = (getenv ''TRUST_PROXY_HEADERS'' = ''true'')"
    "caClientID (sAuth st) = getenv ''COGNITO_CLIENT_ID'' \<and> caPool (sAuth st) = getenv ''COGNITO_POOL_ID''"
    using assms by (auto simp: server_start_def newCognitoAuth_def NewCognitoAttributesFetcher_def Let_def
        split: option.splits sum.splits if_splits)
qed

text \<open>Requests for \<^verbatim>\<open>POST /games\<close> through the handler itself, each at its time.\<close>

fun handler_creations ::
  "buckets timed_limiter Handler \<Rightarrow> (string \<Rightarrow> string option) \<Rightarrow> (bool \<Rightarrow> Request \<Rightarrow> Response option) \<Rightarrow> client \<Rightarrow>
   arrival list \<Rightarrow> buckets \<Rightarrow> Response prog list" where
  "handler_creations h url hs cl [] m = []"
| "handler_creations h url hs cl ((t, fault, uuid, r) # as) m =
     (let (p, m') = serve (handler_server h url hs cl t fault uuid) ''POST'' [''games''] r m
      in p # handler_creations h url hs cl as m')"

text \<open>The user's requests that reach the game service, and those for which Redis failed the limiter.\<close>

definition from_user :: "'l Handler \<Rightarrow> string \<Rightarrow> arrival \<Rightarrow> bool" where
  "from_user h u a \<longleftrightarrow> (case a of (t, fault, uuid, r) \<Rightarrow>
     case authenticate (hAuth h) r of Inl _ \<Rightarrow> False | Inr claims \<Rightarrow> UserID claims = u)"

definition reach_service :: "'l Handler \<Rightarrow> string \<Rightarrow> (arrival \<times> Response prog) list \<Rightarrow> nat" where
  "reach_service h u xs = length (filter (\<lambda>(a, p). from_user h u a \<and> \<not> commands p 0) xs)"

definition redis_failed :: "'l Handler \<Rightarrow> string \<Rightarrow> arrival list \<Rightarrow> nat" where
  "redis_failed h u as = length (filter (\<lambda>a. from_user h u a \<and> fst (snd a) \<noteq> None) as)"

lemma handler_creations_limited:
  assumes "hLimiter h = Some (\<lambda>t fault. limiter_Allow True fault t t)"
  shows "handler_creations h url hs cl as m = creations (handler_server h url hs cl 0 None []) as m"
proof (induction as arbitrary: m)
  case (Cons a as)
  obtain t f uuid r where a: "a = (t, f, uuid, r)" by (cases a) auto
  have "handler_server h url hs cl t f uuid =
      (handler_server h url hs cl 0 None [])\<lparr>srv_limit := Some (limiter_Allow True f t t), srv_uuid := uuid\<rparr>"
    by (simp add: handler_server_def assms)
  then show ?case using Cons.IH by (simp add: a creation_def case_prod_beta)
qed simp

lemma session_commands:
  assumes "\<And>claims. commands (ws_loop (PathID r) claims (ws_bucket perSec burst t0) frames) n"
  shows "commands (ws_session validate trust store perSec burst r first t0 frames conns) n"
proof -
  have b: "commands (bindP (ws_loop (PathID r) claims (ws_bucket perSec burst t0) frames) (\<lambda>out. Return (f out))) n"
    for claims and f :: "ws_out list \<Rightarrow> ws_out list \<times> connRegistry option"
    using commands_bindP [OF assms, of "\<lambda>out. Return (f out)" 0] by simp
  show ?thesis by (cases store) (auto simp: ws_session_def b split: sum.split)
qed

lemma read_times: "set (frame_times (read_frames d xs)) \<subseteq> fst ` set xs"
  by (induction d xs rule: read_frames.induct) (auto split: heard.splits if_splits)

lemma after_first_subset: "set (after_first xs) \<subseteq> set xs"
  by (induction xs rule: after_first.induct) auto

lemma session_load:
  assumes "0 < srv_perSec srv" "0 < srv_burst srv" "\<forall>x \<in> set (cl_sends (srv_client srv)). fst x \<le> u"
    and "cl_bucket (srv_client srv) \<le> u"
  shows "\<exists>n. commands (WSHandler srv r) (14 * n) \<and>
    of_nat n \<le> srv_burst srv + srv_perSec srv * seconds (u - cl_bucket (srv_client srv))"
proof -
  let ?c = "srv_client srv"
  let ?frames = "read_frames (cl_idle ?c + wsIdleTimeout) (after_first (cl_sends ?c))"
  have "\<forall>t \<in> set (frame_times ?frames). t \<le> u" using assms(3) read_times after_first_subset by fastforce
  then obtain n where n: "\<And>claims. commands (ws_loop (PathID r) claims (ws_bucket (srv_perSec srv) (srv_burst srv) (cl_bucket ?c)) ?frames) (14 * n)"
    "of_nat n \<le> srv_burst srv + srv_perSec srv * seconds (u - cl_bucket ?c)"
    using ws_load_bound_all [OF assms(1,2) _ assms(4)] by blast
  have "commands (bindP (ws_connection validate tp st (srv_perSec srv) (srv_burst srv) r (cl_begin ?c) (cl_idle ?c)
      (cl_bucket ?c) (cl_sends ?c) conns) (\<lambda>_. Return resp)) (14 * n)" for validate tp st conns resp
    using commands_bindP [OF session_commands [OF n(1)], of "\<lambda>_. Return resp" 0] by (simp add: ws_connection_def)
  then show ?thesis by (intro exI [of _ n]) (auto simp: WSHandler_def Let_def n(2) split: option.split)
qed

text \<open>The sessions of a handler with a registry are the handles that the registry counts.\<close>

definition visitor_of :: "conn_handle \<Rightarrow> visitor" where
  "visitor_of x = \<lparr>vsUser = ch_user x, vsIP = ch_ip x, vsOpen = (\<not> ch_done x), vsPlace = Some x\<rparr>"

definition counted :: "int \<Rightarrow> int \<Rightarrow> connRegistry option \<times> visitor list \<Rightarrow> bool" where
  "counted m n s \<longleftrightarrow> (\<exists>c xs. s = (Some c, map visitor_of xs) \<and> registry_ok (c, xs) \<and> maxPerUser c = m \<and> maxPerIP c = n)"

lemma counted_step:
  assumes "counted m n s"
  shows "counted m n (visit_step h validate v s)"
proof -
  obtain c xs where s: "s = (Some c, map visitor_of xs)" and ok: "registry_ok (c, xs)" "maxPerUser c = m" "maxPerIP c = n"
    using assms by (auto simp: counted_def)
  show ?thesis
  proof (cases v)
    case (Arrive r first)
    show ?thesis
    proof (cases "ws_open validate (hTrustProxy h) r first (Some c)")
      case (Inl out)
      then show ?thesis using assms s Arrive by (simp add: visit_step_def)
    next
      case (Inr x)
      obtain claims place conns' where x: "x = (claims, place, conns')" by (cases x) auto
      let ?h = "\<lparr>ch_user = UserID claims, ch_ip = ClientIP r (hTrustProxy h), ch_done = False\<rparr>"
      obtain c' where a: "acquire (UserID claims) (ClientIP r (hTrustProxy h)) c = Inr c'" "place = Some ?h" "conns' = Some c'"
        using Inr x by (auto simp: ws_open_def Let_def split: sum.splits)
      have "visit_step h validate v s = (Some c', map visitor_of (xs @ [?h]))"
        using Inr x a(2,3) s Arrive by (simp add: visit_step_def visitor_of_def)
      moreover have "maxPerUser c' = m" "maxPerIP c' = n" using a(1) ok by (auto simp: acquire_def split: if_splits)
      ultimately show ?thesis using acquire_ok [OF ok(1) a(1)] unfolding counted_def by blast
    qed
  next
    case (Leave i)
    show ?thesis
    proof (cases "i < length xs \<and> \<not> ch_done (xs ! i)")
      case False
      then show ?thesis using assms s Leave by (auto simp: visit_step_def visitor_of_def)
    next
      case True
      obtain x c' where r: "release (xs ! i) c = (x, c')" by fastforce
      then have x: "x = (xs ! i)\<lparr>ch_done := True\<rparr>" "maxPerUser c' = m" "maxPerIP c' = n"
        using True ok by (auto simp: release_def)
      have "visit_step h validate v s = (Some c', map visitor_of (xs[i := x]))"
        using True r s Leave x(1) by (simp add: visit_step_def ws_close_def visitor_of_def map_update)
      then show ?thesis using release_ok [OF ok(1) _ r] True x unfolding counted_def by blast
    qed
  qed
qed

lemma visits_counted:
  assumes "hConns h = Some (newConnRegistry m n)" "0 < m" "0 < n" "visits h validate vs = (conns, ss)"
  shows "open_of u ss \<le> m \<and> open_from ip ss \<le> n"
proof -
  have "registry_ok (newConnRegistry m n, [])"
    by (simp add: registry_ok_def newConnRegistry_def live_user_def live_ip_def counts_def)
  then have "counted m n (hConns h, [])" using assms(1) by (force simp: counted_def newConnRegistry_def)
  then have "counted m n (fold (visit_step h validate) vs (hConns h, []))"
    by (rule fold_invariant [where Q = "\<lambda>_. True", rotated]) (simp_all add: counted_step)
  then obtain c xs where "ss = map visitor_of xs" "registry_ok (c, xs)" "maxPerUser c = m" "maxPerIP c = n"
    using assms(4) by (auto simp: counted_def visits_def)
  then show ?thesis using assms(2,3)
    by (simp add: registry_ok_def live_user_def live_ip_def open_of_def open_from_def filter_map o_def visitor_of_def)
qed


text \<open>A server on the defaults, with the two variables that it requires.\<close>

definition demo_getenv :: "string \<Rightarrow> string" where
  "demo_getenv v = (if v = ''COGNITO_POOL_ID'' then ''pool'' else if v = ''COGNITO_CLIENT_ID'' then ''app'' else '''')"

lemma demo_start:
  "\<exists>st. server_start demo_getenv Some (\<lambda>_ _. None) (\<lambda>i _. if i < 2 then Some ''down'' else None) (\<lambda>_. None) (\<lambda>_. None)
     (\<lambda>_. None) = Inr st \<and> sPort st = ''8080'' \<and>
     caJwksURL (sAuth st) = ''https://cognito-idp.us-east-1.amazonaws.com/pool/.well-known/jwks.json''"
proof -
  have "fst (connect_loop (\<lambda>i. NewStore (\<lambda>_. None) (\<lambda>_. if i < 2 then Some ''down'' else None) c) 0 (Suc 29) None) = None" for c
    unfolding connect_loop_connects by (intro exI [of _ 2]) (simp add: NewStore_def)
  then show ?thesis
    by (simp add: server_start_def demo_getenv_def or_default_def NewCognitoAttributesFetcher_def newCognitoAuth_def Let_def)
qed


end
