(* ===== verification/Codec.thy ===== *)
theory Codec
  imports Handlers Infra
begin

text \<open>
  The JSON of a game: what \<^verbatim>\<open>json.Marshal\<close> writes for the structs of internal/game/game.go under their
  tags, and what \<^verbatim>\<open>json.Unmarshal\<close> reads back. \<^verbatim>\<open>SaveGame\<close> stores it, \<^verbatim>\<open>LoadGame\<close> reads it, responses and events
  carry it. The locale \<open>codec\<close> is the contract of one type; slices, pointers, arrays and maps of a type
  that has it follow inside the locale. The order of the members of an object plays no role; a nil slice
  and an empty one, written as \<^verbatim>\<open>null\<close> and \<^verbatim>\<open>[]\<close>, read back as the same list.
\<close>

section \<open>Types with a codec\<close>

locale codec =
  fixes enc :: "'a \<Rightarrow> json" and dec :: "json \<Rightarrow> 'a \<Rightarrow> 'a option" and zero :: 'a and proper :: "'a \<Rightarrow> bool"
  assumes roundtrip: "proper x \<Longrightarrow> dec (enc x) zero = Some x"
    and not_null: "enc x \<noteq> JNull"

text \<open>A pointer: \<^verbatim>\<open>nil\<close> is \<^verbatim>\<open>null\<close>.\<close>

definition enc_ptr :: "('a \<Rightarrow> json) \<Rightarrow> 'a option \<Rightarrow> json" where
  "enc_ptr enc p = (case p of None \<Rightarrow> JNull | Some x \<Rightarrow> enc x)"

definition dec_ptr :: "(json \<Rightarrow> 'a \<Rightarrow> 'a option) \<Rightarrow> 'a \<Rightarrow> json \<Rightarrow> 'a option \<Rightarrow> 'a option option" where
  "dec_ptr dec zero j p =
     (if j = JNull then Some None
      else map_option Some (dec j (case p of None \<Rightarrow> zero | Some x \<Rightarrow> x)))"

text \<open>An array: further elements are ignored, missing ones become zero.\<close>

fun dec_elems :: "(json \<Rightarrow> 'a \<Rightarrow> 'a option) \<Rightarrow> 'a \<Rightarrow> json list \<Rightarrow> 'a list \<Rightarrow> 'a list option" where
  "dec_elems dec zero js [] = Some []"
| "dec_elems dec zero [] (x # xs) = Some (replicate (Suc (length xs)) zero)"
| "dec_elems dec zero (j # js) (x # xs) =
     (case dec j x of None \<Rightarrow> None
      | Some y \<Rightarrow> map_option (\<lambda>ys. y # ys) (dec_elems dec zero js xs))"

definition dec_array :: "(json \<Rightarrow> 'a \<Rightarrow> 'a option) \<Rightarrow> 'a \<Rightarrow> json \<Rightarrow> 'a list \<Rightarrow> 'a list option" where
  "dec_array dec zero j xs =
     (case j of JArr js \<Rightarrow> dec_elems dec zero js xs | JNull \<Rightarrow> Some xs | _ \<Rightarrow> None)"

text \<open>A map: the keys are texts, or integers written in decimal. Entries are stored one after the other.\<close>

definition enc_map :: "('k \<Rightarrow> string) \<Rightarrow> ('a \<Rightarrow> json) \<Rightarrow> ('k, 'a) gomap \<Rightarrow> json" where
  "enc_map text enc m = JObj (map (\<lambda>(k, x). (text k, enc x)) m)"

fun dec_entries ::
  "(string \<Rightarrow> 'k option) \<Rightarrow> (json \<Rightarrow> 'a \<Rightarrow> 'a option) \<Rightarrow> 'a \<Rightarrow> (string \<times> json) list \<Rightarrow> ('k, 'a) gomap \<Rightarrow> ('k, 'a) gomap option" where
  "dec_entries key dec zero [] m = Some m"
| "dec_entries key dec zero ((s, j) # kvs) m =
     (case key s of None \<Rightarrow> None
      | Some k \<Rightarrow> (case dec j zero of None \<Rightarrow> None | Some x \<Rightarrow> dec_entries key dec zero kvs (gm_set k x m)))"

definition dec_map ::
  "(string \<Rightarrow> 'k option) \<Rightarrow> (json \<Rightarrow> 'a \<Rightarrow> 'a option) \<Rightarrow> 'a \<Rightarrow> json \<Rightarrow> ('k, 'a) gomap \<Rightarrow> ('k, 'a) gomap option" where
  "dec_map key dec zero j m =
     (case j of JObj kvs \<Rightarrow> dec_entries key dec zero kvs m | JNull \<Rightarrow> Some [] | _ \<Rightarrow> None)"

context codec begin

lemma slice: "list_all proper xs \<Longrightarrow> dec_slice dec zero (JArr (map enc xs)) = Some xs"
proof -
  assume "list_all proper xs"
  then have "dec_list dec zero (map enc xs) = Some xs" by (induction xs) (auto simp: roundtrip)
  then show ?thesis by (simp add: dec_slice_def)
qed

lemma pointer: "pred_option proper p \<Longrightarrow> dec_ptr dec zero (enc_ptr enc p) None = Some p"
  by (cases p) (auto simp: dec_ptr_def enc_ptr_def not_null roundtrip)

lemma pointers:
  "list_all (pred_option proper) ps \<Longrightarrow>
    dec_array (dec_ptr dec zero) None (JArr (map (enc_ptr enc) ps)) (replicate (length ps) None) = Some ps"
proof -
  assume "list_all (pred_option proper) ps"
  then have "dec_elems (dec_ptr dec zero) None (map (enc_ptr enc) ps) (replicate (length ps) None) = Some ps"
    by (induction ps) (auto simp: pointer)
  then show ?thesis by (simp add: dec_array_def)
qed

lemma table:
  assumes "\<forall>(k, x) \<in> set m. key (text k) = Some k \<and> proper x" "distinct (map fst m)"
  shows "dec_map key dec zero (enc_map text enc m) [] = Some m"
proof -
  have "dec_entries key dec zero (map (\<lambda>(k, x). (text k, enc x)) m) m0 = Some (m0 @ m)"
    if "fst ` set m \<inter> fst ` set m0 = {}" for m0
    using assms that
  proof (induction m arbitrary: m0)
    case (Cons e m)
    obtain k x where e: "e = (k, x)" by fastforce
    have n: "gm_set k x m0 = m0 @ [(k, x)]" using Cons.prems(3) e by (intro gm_set_new) auto
    have "dec_entries key dec zero (map (\<lambda>(k, x). (text k, enc x)) m) (m0 @ [(k, x)]) = Some ((m0 @ [(k, x)]) @ m)"
      by (rule Cons.IH) (use Cons.prems e in force)+
    then show ?case using Cons.prems(1) e n by (simp add: roundtrip)
  qed simp
  then show ?thesis by (simp add: dec_map_def enc_map_def)
qed

end

section \<open>Numbers, texts, flags\<close>

definition dec_num :: "json \<Rightarrow> int \<Rightarrow> int option" where "dec_num = dec_int (\<lambda>n _. n)"

definition dec_flag :: "json \<Rightarrow> bool \<Rightarrow> bool option" where "dec_flag = dec_bool (\<lambda>b _. b)"

definition dec_text :: "(string \<Rightarrow> 'a) \<Rightarrow> json \<Rightarrow> 'a \<Rightarrow> 'a option" where "dec_text f = dec_string (\<lambda>s _. f s)"

interpretation num: codec JNum dec_num 0 int64
  by unfold_locales (simp_all add: dec_num_def dec_int_def)

interpretation flag: codec JBool dec_flag False "\<lambda>_. True"
  by unfold_locales (simp_all add: dec_flag_def dec_bool_def)

text \<open>An integer key in decimal (\<^verbatim>\<open>strconv.FormatInt\<close>), read with \<^verbatim>\<open>strconv.ParseInt\<close>.\<close>

definition int_text :: "int \<Rightarrow> string" where
  "int_text n = (if n < 0 then CHR ''-'' # itoa (nat (- n)) else itoa (nat n))"

lemma itoa_digits: "list_all is_digit (itoa n)" "itoa n \<noteq> []"
proof (induction n rule: itoa.induct)
  case (1 n)
  have d: "is_digit (char_of (48 + k))" if "k < 10" for k :: nat
    using that by (simp add: is_digit_def of_char_of)
  show "list_all is_digit (itoa n)" by (subst itoa.simps) (use d [of n] d [of "n mod 10"] 1 in auto)
  show "itoa n \<noteq> []" by (subst itoa.simps) simp
qed

lemma digits_fold:
  assumes "list_all is_digit s"
  shows "fold (\<lambda>c n. 10 * n + (int (of_char c) - 48)) s (int a) = int (foldl (\<lambda>a c. 10 * a + (of_char c - 48)) a s)"
  using assms
proof (induction s arbitrary: a)
  case (Cons c s)
  let ?a = "10 * a + (of_char c - 48)" and ?f = "\<lambda>c n. 10 * n + (int (of_char c) - 48)"
  have "?f c (int a) = int ?a" using Cons.prems by (simp add: is_digit_def of_nat_diff)
  then have "fold ?f (c # s) (int a) = fold ?f s (int ?a)" by (simp only: fold_simps)
  also have "\<dots> = int (foldl (\<lambda>a c. 10 * a + (of_char c - 48)) ?a s)" by (rule Cons.IH) (use Cons.prems in simp)
  finally show ?case by simp
qed simp

lemma decimal_itoa: "decimal (itoa n) = Some (int n)"
proof -
  have "fold (\<lambda>c n. 10 * n + (int (of_char c) - 48)) (itoa n) (int 0) = int (digits_value (itoa n))"
    unfolding digits_value_def by (rule digits_fold [OF itoa_digits(1)])
  then show ?thesis using itoa_digits [of n] by (simp add: decimal_def digits_value_itoa)
qed

lemma Atoi_int_text: "int64 n \<Longrightarrow> Atoi (int_text n) = Some n"
proof -
  assume n: "int64 n"
  show ?thesis
  proof (cases "n < 0")
    case True
    then show ?thesis using n by (simp add: int_text_def Atoi_def decimal_itoa)
  next
    case False
    obtain c cs where c: "itoa (nat n) = c # cs" using itoa_digits(2) by (meson list.exhaust)
    then have "is_digit c" using itoa_digits(1) [of "nat n"] by simp
    then have "c \<noteq> CHR ''-''" "c \<noteq> CHR ''+''" by (auto simp: is_digit_def)
    then show ?thesis using n False c decimal_itoa [of "nat n"] by (simp add: int_text_def Atoi_def)
  qed
qed

section \<open>The structs (config.go, game.go)\<close>

text \<open>A member of an object goes through the decoder of its type into its field.\<close>

definition member_field ::
  "(('b \<Rightarrow> 'b) \<Rightarrow> 'a \<Rightarrow> 'a) \<Rightarrow> ('a \<Rightarrow> 'b) \<Rightarrow> (json \<Rightarrow> 'b \<Rightarrow> 'b option) \<Rightarrow> json \<Rightarrow> 'a \<Rightarrow> 'a option" where
  "member_field upd get dec j a = map_option (\<lambda>x. upd (\<lambda>_. x) a) (dec j (get a))"

lemma member_field_Some [simp]: "dec j (get a) = Some x \<Longrightarrow> member_field upd get dec j a = Some (upd (\<lambda>_. x) a)"
  by (simp add: member_field_def)

text \<open>A slice tagged \<^verbatim>\<open>omitempty\<close>.\<close>

definition omit_empty :: "string \<Rightarrow> ('a \<Rightarrow> json) \<Rightarrow> 'a list \<Rightarrow> (string \<times> json) list" where
  "omit_empty name enc xs = (if xs = [] then [] else [(name, JArr (map enc xs))])"

text \<open>Fields in place: the decoder of a slice does not depend on the slice before.\<close>

abbreviation dec_cards :: "json \<Rightarrow> Card list \<Rightarrow> Card list option" where
  "dec_cards j \<equiv> (\<lambda>_. dec_slice dec_card zeroCard j)"

interpretation card: codec enc_card dec_card zeroCard card_proper
  by unfold_locales (simp_all add: dec_enc_card)

text \<open>Every card of a deck can be written.\<close>

lemma deck_proper: "c \<in> set (NewDeckFor n) \<Longrightarrow> card_proper c \<and> \<not> no_rank c"
  unfolding in_deck
  by (cases "Suit c"; cases "Rank c")
     (auto simp: card_proper_def suit_proper_def suit_of_string_def rank_of_string_def no_rank_def)

definition dec_bid :: "json \<Rightarrow> Bid \<Rightarrow> Bid option" where "dec_bid = dec_struct bid_fields"

definition bid_proper :: "Bid \<Rightarrow> bool" where "bid_proper b \<longleftrightarrow> int64 (bPoints b) \<and> suit_proper (bSuit b)"

interpretation bid: codec enc_bid dec_bid zeroBid bid_proper
proof unfold_locales
  show "bid_proper x \<Longrightarrow> dec_bid (enc_bid x) zeroBid = Some x" for x
    by (cases x) (simp add: dec_bid_def dec_struct_def bid_fields_def enc_bid_def dec_string_def dec_int_def dec_bool_def
        zeroBid_def bid_proper_def suit_proper_def)
qed (simp add: enc_bid_def)

lemma lower_player [simp]:
  "ascii_lower ''id'' = ''id''" "ascii_lower ''name'' = ''name''" "ascii_lower ''seat'' = ''seat''"
  "ascii_lower ''hand'' = ''hand''" "ascii_lower ''is_connected'' = ''is_connected''"
  "ascii_lower ''cards'' = ''cards''" "ascii_lower ''lead_suit'' = ''lead_suit''" "ascii_lower ''winner'' = ''winner''"
  "ascii_lower ''joker_called'' = ''joker_called''" "ascii_lower ''allow_joker_partner'' = ''allow_joker_partner''"
  "ascii_lower ''fail_dist'' = ''fail_dist''"
  by code_simp+

definition enc_player :: "Player \<Rightarrow> json" where
  "enc_player p = JObj
     ([(''id'', JStr (pID p)), (''name'', JStr (pName p)), (''seat'', JNum (Seat p))] @
      omit_empty ''hand'' enc_card (Hand p) @ omit_empty ''points'' enc_card (Points p) @
      [(''is_connected'', JBool (IsConnected p))])"

definition player_fields :: "(string \<times> (json \<Rightarrow> Player \<Rightarrow> Player option)) list" where
  "player_fields =
     [(''id'', member_field pID_update pID (dec_text id)), (''name'', member_field pName_update pName (dec_text id)),
      (''seat'', member_field Seat_update Seat dec_num), (''hand'', member_field Hand_update Hand dec_cards),
      (''points'', member_field Points_update Points dec_cards),
      (''is_connected'', member_field IsConnected_update IsConnected dec_flag)]"

definition zeroPlayer :: Player where
  "zeroPlayer = \<lparr>pID = '''', pName = '''', Seat = 0, Hand = [], Points = [], IsConnected = False\<rparr>"

definition dec_player :: "json \<Rightarrow> Player \<Rightarrow> Player option" where "dec_player = dec_struct player_fields"

definition player_proper :: "Player \<Rightarrow> bool" where
  "player_proper p \<longleftrightarrow> int64 (Seat p) \<and> list_all card_proper (Hand p) \<and> list_all card_proper (Points p)"

lemma dec_num_JNum [simp]: "int64 n \<Longrightarrow> dec_num (JNum n) a = Some n"
  by (simp add: dec_num_def dec_int_def)

lemma dec_flag_JBool [simp]: "dec_flag (JBool b) a = Some b"
  by (simp add: dec_flag_def dec_bool_def)

lemma dec_text_JStr [simp]: "dec_text f (JStr s) a = Some (f s)"
  by (simp add: dec_text_def dec_string_def)

interpretation player: codec enc_player dec_player zeroPlayer player_proper
proof unfold_locales
  show "player_proper p \<Longrightarrow> dec_player (enc_player p) zeroPlayer = Some p" for p
    by (cases p; cases "Hand p = []"; cases "Points p = []")
       (simp_all add: dec_player_def dec_struct_def player_fields_def enc_player_def omit_empty_def player_proper_def
          card.slice zeroPlayer_def)
qed (simp add: enc_player_def)

definition enc_played :: "PlayedCard \<Rightarrow> json" where
  "enc_played c = JObj [(''player_id'', JStr (pcPlayerID c)), (''seat'', JNum (pcSeat c)), (''card'', enc_card (pcCard c))]"

definition played_fields :: "(string \<times> (json \<Rightarrow> PlayedCard \<Rightarrow> PlayedCard option)) list" where
  "played_fields =
     [(''player_id'', member_field pcPlayerID_update pcPlayerID (dec_text id)), (''seat'', member_field pcSeat_update pcSeat dec_num),
      (''card'', member_field pcCard_update pcCard dec_card)]"

definition zeroPlayed :: PlayedCard where "zeroPlayed = \<lparr>pcPlayerID = '''', pcSeat = 0, pcCard = zeroCard\<rparr>"

definition dec_played :: "json \<Rightarrow> PlayedCard \<Rightarrow> PlayedCard option" where "dec_played = dec_struct played_fields"

definition played_proper :: "PlayedCard \<Rightarrow> bool" where
  "played_proper c \<longleftrightarrow> int64 (pcSeat c) \<and> card_proper (pcCard c)"

interpretation played: codec enc_played dec_played zeroPlayed played_proper
proof unfold_locales
  show "played_proper c \<Longrightarrow> dec_played (enc_played c) zeroPlayed = Some c" for c
    by (cases c) (simp add: dec_played_def dec_struct_def played_fields_def enc_played_def played_proper_def dec_enc_card
        zeroPlayed_def)
qed (simp add: enc_played_def)

definition enc_trick :: "Trick \<Rightarrow> json" where
  "enc_trick t = JObj [(''cards'', JArr (map enc_played (tCards t))), (''lead_suit'', JStr (suit_string (LeadSuit t))),
     (''winner'', JNum (Winner t)), (''joker_called'', JBool (JokerCalled t))]"

definition trick_fields :: "(string \<times> (json \<Rightarrow> Trick \<Rightarrow> Trick option)) list" where
  "trick_fields =
     [(''cards'', member_field tCards_update tCards (\<lambda>j _. dec_slice dec_played zeroPlayed j)),
      (''lead_suit'', member_field LeadSuit_update LeadSuit (dec_text suit_of_string)),
      (''winner'', member_field Winner_update Winner dec_num),
      (''joker_called'', member_field JokerCalled_update JokerCalled dec_flag)]"

definition zeroTrick :: Trick where
  "zeroTrick = \<lparr>tCards = [], LeadSuit = EmptySuit, Winner = 0, JokerCalled = False\<rparr>"

definition dec_trick :: "json \<Rightarrow> Trick \<Rightarrow> Trick option" where "dec_trick = dec_struct trick_fields"

definition trick_proper :: "Trick \<Rightarrow> bool" where
  "trick_proper t \<longleftrightarrow> list_all played_proper (tCards t) \<and> suit_proper (LeadSuit t) \<and> int64 (Winner t)"

interpretation trick: codec enc_trick dec_trick zeroTrick trick_proper
proof unfold_locales
  show "trick_proper t \<Longrightarrow> dec_trick (enc_trick t) zeroTrick = Some t" for t
    by (cases t) (simp add: dec_trick_def dec_struct_def trick_fields_def enc_trick_def trick_proper_def played.slice
        suit_proper_def zeroTrick_def)
qed (simp add: enc_trick_def)

definition fail_dist_string :: "FailDist \<Rightarrow> string" where
  "fail_dist_string d = (case d of FailEqualSplit \<Rightarrow> ''equal_split'' | FailDeclarerAlone \<Rightarrow> ''declarer_alone''
     | FailTwoOneSplit \<Rightarrow> ''two_one_split'' | OtherFailDist s \<Rightarrow> s)"

definition fail_dist_read :: "string \<Rightarrow> FailDist" where
  "fail_dist_read s = (case fail_dist_of_string s of None \<Rightarrow> OtherFailDist s | Some d \<Rightarrow> d)"

definition enc_config :: "GameConfig \<Rightarrow> json" where
  "enc_config c = JObj [(''num_players'', JNum (NumPlayers c)), (''allow_joker_partner'', JBool (AllowJokerPartner c)),
     (''fail_dist'', JStr (fail_dist_string (FailDistribution c)))]"

definition game_config_fields :: "(string \<times> (json \<Rightarrow> GameConfig \<Rightarrow> GameConfig option)) list" where
  "game_config_fields =
     [(''num_players'', member_field NumPlayers_update NumPlayers dec_num),
      (''allow_joker_partner'', member_field AllowJokerPartner_update AllowJokerPartner dec_flag),
      (''fail_dist'', member_field FailDistribution_update FailDistribution (dec_text fail_dist_read))]"

definition zeroConfig :: GameConfig where
  "zeroConfig = \<lparr>NumPlayers = 0, AllowJokerPartner = False, FailDistribution = OtherFailDist ''''\<rparr>"

definition dec_config :: "json \<Rightarrow> GameConfig \<Rightarrow> GameConfig option" where "dec_config = dec_struct game_config_fields"

definition config_proper :: "GameConfig \<Rightarrow> bool" where
  "config_proper c \<longleftrightarrow> int64 (NumPlayers c) \<and> fail_dist_read (fail_dist_string (FailDistribution c)) = FailDistribution c"

interpretation config: codec enc_config dec_config zeroConfig config_proper
proof unfold_locales
  show "config_proper c \<Longrightarrow> dec_config (enc_config c) zeroConfig = Some c" for c
    by (cases c) (simp add: dec_config_def dec_struct_def game_config_fields_def enc_config_def config_proper_def zeroConfig_def)
qed (simp add: enc_config_def)

text \<open>Score tables by player ID, votes and passes by seat.\<close>

definition enc_scores :: "(string, int) gomap \<Rightarrow> json" where "enc_scores = enc_map id JNum"

definition dec_scores :: "json \<Rightarrow> (string, int) gomap \<Rightarrow> (string, int) gomap option" where
  "dec_scores = dec_map Some dec_num 0"

definition scores_proper :: "(string, int) gomap \<Rightarrow> bool" where
  "scores_proper m \<longleftrightarrow> distinct (map fst m) \<and> (\<forall>(k, n) \<in> set m. int64 n)"

interpretation scores: codec enc_scores dec_scores "[]" scores_proper
proof unfold_locales
  show "scores_proper m \<Longrightarrow> dec_scores (enc_scores m) [] = Some m" for m
    unfolding dec_scores_def enc_scores_def by (rule num.table) (auto simp: scores_proper_def)
qed (simp add: enc_scores_def enc_map_def)

definition enc_seats :: "(int, bool) gomap \<Rightarrow> json" where "enc_seats = enc_map int_text JBool"

definition dec_seats :: "json \<Rightarrow> (int, bool) gomap \<Rightarrow> (int, bool) gomap option" where
  "dec_seats = dec_map Atoi dec_flag False"

definition seats_proper :: "(int, bool) gomap \<Rightarrow> bool" where
  "seats_proper m \<longleftrightarrow> distinct (map fst m) \<and> (\<forall>(k, v) \<in> set m. int64 k)"

interpretation seats: codec enc_seats dec_seats "[]" seats_proper
proof unfold_locales
  show "seats_proper m \<Longrightarrow> dec_seats (enc_seats m) [] = Some m" for m
    unfolding dec_seats_def enc_seats_def by (rule flag.table) (auto simp: seats_proper_def Atoi_int_text)
qed (simp add: enc_seats_def enc_map_def)

section \<open>The game (game.go, redis.go)\<close>

text \<open>
  The text of an instant (\<^verbatim>\<open>time.Time\<close> as RFC 3339) and its parser are parameters. The model has no phase
  beside the six constants, so a document with another one is not read. \<^verbatim>\<open>Deck\<close> is tagged \<^verbatim>\<open>json:"-"\<close>.
\<close>

definition phase_text :: "Phase \<Rightarrow> string" where
  "phase_text p = (case p of PhaseWaiting \<Rightarrow> ''waiting'' | PhaseBidding \<Rightarrow> ''bidding'' | PhaseExchanging \<Rightarrow> ''exchanging''
     | PhaseCalling \<Rightarrow> ''calling'' | PhasePlaying \<Rightarrow> ''playing'' | PhaseFinished \<Rightarrow> ''finished'')"

definition dec_phase :: "json \<Rightarrow> Phase \<Rightarrow> Phase option" where
  "dec_phase j p = (case j of JStr s \<Rightarrow> phase_of_string s | JNull \<Rightarrow> Some p | _ \<Rightarrow> None)"

definition dec_time :: "(string \<Rightarrow> int option) \<Rightarrow> json \<Rightarrow> int \<Rightarrow> int option" where
  "dec_time parse j t = (case j of JStr s \<Rightarrow> parse s | JNull \<Rightarrow> Some t | _ \<Rightarrow> None)"

definition dec_version :: "json \<Rightarrow> 64 word \<Rightarrow> 64 word option" where "dec_version = dec_int (\<lambda>n _. of_int n)"

definition enc_game :: "(int \<Rightarrow> string) \<Rightarrow> Game \<Rightarrow> json" where
  "enc_game time_text g = JObj
     ([(''id'', JStr (gID g)), (''status'', JStr (phase_text (Status g))), (''config'', enc_config (Config g)),
       (''players'', JArr (map (enc_ptr enc_player) (Players g)))] @
      omit_empty ''kitty'' enc_card (Kitty g) @
      [(''current_turn'', JNum (CurrentTurn g)), (''dealer'', JNum (Dealer g)), (''bids'', JArr (map enc_bid (Bids g))),
       (''current_bid'', enc_ptr enc_bid (CurrentBid g)), (''declarer'', JNum (Declarer g)),
       (''passed_players'', enc_seats (PassedPlayers g)), (''contract'', enc_ptr enc_bid (Contract g)),
       (''partner_card'', enc_ptr enc_card (PartnerCard g)), (''partner_seat'', JNum (PartnerSeat g)),
       (''is_no_friend'', JBool (IsNoFriend g)), (''trump'', JStr (suit_string (Trump g))),
       (''tricks'', JArr (map enc_trick (Tricks g))), (''scores'', enc_scores (Scores g)),
       (''total_scores'', enc_scores (TotalScores g)), (''score_history'', JArr (map enc_scores (ScoreHistory g))),
       (''play_again_votes'', enc_seats (PlayAgainVotes g)), (''version'', JNum (sint (Version g))),
       (''created_at'', JStr (time_text (CreatedAt g))), (''updated_at'', JStr (time_text (UpdatedAt g)))])"

definition game_fields :: "(string \<Rightarrow> int option) \<Rightarrow> (string \<times> (json \<Rightarrow> Game \<Rightarrow> Game option)) list" where
  "game_fields parse =
     [(''id'', member_field gID_update gID (dec_text id)), (''status'', member_field Status_update Status dec_phase),
      (''config'', member_field Config_update Config dec_config),
      (''players'', member_field Players_update Players (dec_array (dec_ptr dec_player zeroPlayer) None)),
      (''kitty'', member_field Kitty_update Kitty dec_cards),
      (''current_turn'', member_field CurrentTurn_update CurrentTurn dec_num), (''dealer'', member_field Dealer_update Dealer dec_num),
      (''bids'', member_field Bids_update Bids (\<lambda>j _. dec_slice dec_bid zeroBid j)),
      (''current_bid'', member_field CurrentBid_update CurrentBid (dec_ptr dec_bid zeroBid)),
      (''declarer'', member_field Declarer_update Declarer dec_num),
      (''passed_players'', member_field PassedPlayers_update PassedPlayers dec_seats),
      (''contract'', member_field Contract_update Contract (dec_ptr dec_bid zeroBid)),
      (''partner_card'', member_field PartnerCard_update PartnerCard (dec_ptr dec_card zeroCard)),
      (''partner_seat'', member_field PartnerSeat_update PartnerSeat dec_num),
      (''is_no_friend'', member_field IsNoFriend_update IsNoFriend dec_flag),
      (''trump'', member_field Trump_update Trump (dec_text suit_of_string)),
      (''tricks'', member_field Tricks_update Tricks (\<lambda>j _. dec_slice dec_trick zeroTrick j)),
      (''scores'', member_field Scores_update Scores dec_scores), (''total_scores'', member_field TotalScores_update TotalScores dec_scores),
      (''score_history'', member_field ScoreHistory_update ScoreHistory (\<lambda>j _. dec_slice dec_scores [] j)),
      (''play_again_votes'', member_field PlayAgainVotes_update PlayAgainVotes dec_seats),
      (''version'', member_field Version_update Version dec_version),
      (''created_at'', member_field CreatedAt_update CreatedAt (dec_time parse)),
      (''updated_at'', member_field UpdatedAt_update UpdatedAt (dec_time parse))]"

definition zeroGame :: Game where
  "zeroGame = \<lparr>gID = '''', Status = PhaseWaiting, Config = zeroConfig, Players = replicate 5 None, Kitty = [], Deck = [],
     CurrentTurn = 0, Dealer = 0, Bids = [], CurrentBid = None, Declarer = 0, PassedPlayers = [], Contract = None,
     PartnerCard = None, PartnerSeat = 0, IsNoFriend = False, Trump = EmptySuit, Tricks = [], Scores = [],
     TotalScores = [], ScoreHistory = [], PlayAgainVotes = [], Version = 0, CreatedAt = 0, UpdatedAt = 0\<rparr>"

definition dec_game :: "(string \<Rightarrow> int option) \<Rightarrow> json \<Rightarrow> Game option" where
  "dec_game parse j = dec_struct (game_fields parse) j zeroGame"

text \<open>
  The games that JSON holds: numbers of 64 bits, texts that are what they look like, maps with one entry
  per key, and instants that their text gives back.
\<close>

definition codable :: "(int \<Rightarrow> string) \<Rightarrow> (string \<Rightarrow> int option) \<Rightarrow> Game \<Rightarrow> bool" where
  "codable time_text parse g \<longleftrightarrow>
     config_proper (Config g) \<and> length (Players g) = 5 \<and> list_all (pred_option player_proper) (Players g) \<and>
     list_all card_proper (Kitty g) \<and> int64 (CurrentTurn g) \<and> int64 (Dealer g) \<and> list_all bid_proper (Bids g) \<and>
     pred_option bid_proper (CurrentBid g) \<and> int64 (Declarer g) \<and> seats_proper (PassedPlayers g) \<and>
     pred_option bid_proper (Contract g) \<and> pred_option card_proper (PartnerCard g) \<and> int64 (PartnerSeat g) \<and>
     suit_proper (Trump g) \<and> list_all trick_proper (Tricks g) \<and> scores_proper (Scores g) \<and>
     scores_proper (TotalScores g) \<and> list_all scores_proper (ScoreHistory g) \<and> seats_proper (PlayAgainVotes g) \<and>
     parse (time_text (CreatedAt g)) = Some (CreatedAt g) \<and> parse (time_text (UpdatedAt g)) = Some (UpdatedAt g)"

lemma lower_game [simp]:
  "ascii_lower ''status'' = ''status''" "ascii_lower ''config'' = ''config''" "ascii_lower ''players'' = ''players''"
  "ascii_lower ''kitty'' = ''kitty''" "ascii_lower ''current_turn'' = ''current_turn''" "ascii_lower ''dealer'' = ''dealer''"
  "ascii_lower ''bids'' = ''bids''" "ascii_lower ''current_bid'' = ''current_bid''" "ascii_lower ''declarer'' = ''declarer''"
  "ascii_lower ''passed_players'' = ''passed_players''" "ascii_lower ''contract'' = ''contract''"
  "ascii_lower ''partner_card'' = ''partner_card''" "ascii_lower ''partner_seat'' = ''partner_seat''"
  "ascii_lower ''is_no_friend'' = ''is_no_friend''" "ascii_lower ''trump'' = ''trump''" "ascii_lower ''tricks'' = ''tricks''"
  "ascii_lower ''scores'' = ''scores''" "ascii_lower ''total_scores'' = ''total_scores''"
  "ascii_lower ''score_history'' = ''score_history''" "ascii_lower ''play_again_votes'' = ''play_again_votes''"
  "ascii_lower ''version'' = ''version''" "ascii_lower ''created_at'' = ''created_at''" "ascii_lower ''updated_at'' = ''updated_at''"
  by code_simp+

lemma dec_phase_text [simp]: "dec_phase (JStr (phase_text p)) q = Some p"
  by (cases p) (simp_all add: dec_phase_def phase_text_def phase_of_string_def)

lemma dec_version_sint [simp]: "dec_version (JNum (sint v)) x = Some v"
  using sint_ge [of v] sint_lt [of v] by (simp add: dec_version_def dec_int_def int64_def)

lemma dec_members_append:
  "dec_members tbl (xs @ ys) a = (case dec_members tbl xs a of None \<Rightarrow> None | Some b \<Rightarrow> dec_members tbl ys b)"
  by (induction xs arbitrary: a) (auto split: option.split)

lemma dec_omit_empty:
  assumes "map_of tbl (ascii_lower name) = Some (member_field upd get (\<lambda>j _. dec_slice dec zero j))"
    and "dec_slice dec zero (JArr (map enc xs)) = Some xs" "xs = [] \<Longrightarrow> upd (\<lambda>_. []) a = a"
  shows "dec_members tbl (omit_empty name enc xs) a = Some (upd (\<lambda>_. xs) a)"
  using assms by (simp add: omit_empty_def)

lemma game_lookup:
  "map_of (game_fields parse) ''id'' = Some (member_field gID_update gID (dec_text id))"
  "map_of (game_fields parse) ''status'' = Some (member_field Status_update Status dec_phase)"
  "map_of (game_fields parse) ''config'' = Some (member_field Config_update Config dec_config)"
  "map_of (game_fields parse) ''players'' = Some (member_field Players_update Players (dec_array (dec_ptr dec_player zeroPlayer) None))"
  "map_of (game_fields parse) ''kitty'' = Some (member_field Kitty_update Kitty dec_cards)"
  "map_of (game_fields parse) ''current_turn'' = Some (member_field CurrentTurn_update CurrentTurn dec_num)"
  "map_of (game_fields parse) ''dealer'' = Some (member_field Dealer_update Dealer dec_num)"
  "map_of (game_fields parse) ''bids'' = Some (member_field Bids_update Bids (\<lambda>j _. dec_slice dec_bid zeroBid j))"
  "map_of (game_fields parse) ''current_bid'' = Some (member_field CurrentBid_update CurrentBid (dec_ptr dec_bid zeroBid))"
  "map_of (game_fields parse) ''declarer'' = Some (member_field Declarer_update Declarer dec_num)"
  "map_of (game_fields parse) ''passed_players'' = Some (member_field PassedPlayers_update PassedPlayers dec_seats)"
  "map_of (game_fields parse) ''contract'' = Some (member_field Contract_update Contract (dec_ptr dec_bid zeroBid))"
  "map_of (game_fields parse) ''partner_card'' = Some (member_field PartnerCard_update PartnerCard (dec_ptr dec_card zeroCard))"
  "map_of (game_fields parse) ''partner_seat'' = Some (member_field PartnerSeat_update PartnerSeat dec_num)"
  "map_of (game_fields parse) ''is_no_friend'' = Some (member_field IsNoFriend_update IsNoFriend dec_flag)"
  "map_of (game_fields parse) ''trump'' = Some (member_field Trump_update Trump (dec_text suit_of_string))"
  "map_of (game_fields parse) ''tricks'' = Some (member_field Tricks_update Tricks (\<lambda>j _. dec_slice dec_trick zeroTrick j))"
  "map_of (game_fields parse) ''scores'' = Some (member_field Scores_update Scores dec_scores)"
  "map_of (game_fields parse) ''total_scores'' = Some (member_field TotalScores_update TotalScores dec_scores)"
  "map_of (game_fields parse) ''score_history'' = Some (member_field ScoreHistory_update ScoreHistory (\<lambda>j _. dec_slice dec_scores [] j))"
  "map_of (game_fields parse) ''play_again_votes'' = Some (member_field PlayAgainVotes_update PlayAgainVotes dec_seats)"
  "map_of (game_fields parse) ''version'' = Some (member_field Version_update Version dec_version)"
  "map_of (game_fields parse) ''created_at'' = Some (member_field CreatedAt_update CreatedAt (dec_time parse))"
  "map_of (game_fields parse) ''updated_at'' = Some (member_field UpdatedAt_update UpdatedAt (dec_time parse))"
  by (simp_all add: game_fields_def)

lemma dec_enc_game:
  assumes "codable time_text parse g"
  shows "dec_game parse (enc_game time_text g) = Some (g\<lparr>Deck := []\<rparr>)"
proof -
  note p = assms [unfolded codable_def]
  have ps: "dec_array (dec_ptr dec_player zeroPlayer) None (JArr (map (enc_ptr enc_player) (Players g))) (replicate 5 None) =
      Some (Players g)"
    using player.pointers [of "Players g"] p by simp
  have k: "dec_members (game_fields parse) (omit_empty ''kitty'' enc_card (Kitty g)) a = Some (Kitty_update (\<lambda>_. Kitty g) a)"
    if "Kitty a = []" for a
  proof (rule dec_omit_empty)
    show "dec_slice dec_card zeroCard (JArr (map enc_card (Kitty g))) = Some (Kitty g)"
      by (rule card.slice) (use p in simp)
  qed (use that in \<open>simp_all add: game_lookup\<close>)
  have t: "dec_time parse (JStr (time_text (CreatedAt g))) a = Some (CreatedAt g)"
    "dec_time parse (JStr (time_text (UpdatedAt g))) a = Some (UpdatedAt g)" for a
    using p by (simp_all add: dec_time_def)
  have tr: "suit_of_string (suit_string (Trump g)) = Trump g" using p by (simp add: suit_proper_def)
  note parts = ps k t p tr card.slice bid.slice trick.slice scores.slice bid.pointer card.pointer config.roundtrip
    scores.roundtrip seats.roundtrip
  show ?thesis
    unfolding dec_game_def enc_game_def dec_struct_def json.case dec_members_append
    by (simp add: game_lookup zeroGame_def parts)
qed

section \<open>Events (game_service.go)\<close>

text \<open>The texts published on a game's channel, and what a client reads from them.\<close>

definition move_text :: "MoveType \<Rightarrow> string" where
  "move_text mt = (case mt of MoveBid \<Rightarrow> ''bid'' | MovePass \<Rightarrow> ''pass'' | MoveDiscard \<Rightarrow> ''discard''
     | MoveCallPartner \<Rightarrow> ''call_partner'' | MovePlayCard \<Rightarrow> ''play_card'' | MovePlayAgain \<Rightarrow> ''play_again''
     | MoveChangeConfig \<Rightarrow> ''change_config'' | OtherMove s \<Rightarrow> s)"

definition enc_event :: "(int \<Rightarrow> string) \<Rightarrow> event \<Rightarrow> json" where
  "enc_event time_text ev =
     (case ev of
        PlayerJoined p v \<Rightarrow> JObj [(''player'', enc_ptr enc_player p), (''type'', JStr ''player_joined''), (''version'', JNum (sint v))]
      | MoveMade mt uid pl v g \<Rightarrow> JObj [(''game_state'', enc_game time_text g), (''move_type'', JStr (move_text mt)),
          (''payload'', enc_payload pl), (''player_id'', JStr uid), (''type'', JStr ''move''), (''version'', JNum (sint v))])"

text \<open>The error frame of a socket.\<close>

record OutgoingWSError =
  oeType :: string
  oeError :: string

definition enc_ws_error :: "OutgoingWSError \<Rightarrow> json" where
  "enc_ws_error e = JObj [(''type'', JStr (oeType e)), (''error'', JStr (oeError e))]"

definition error_frame :: "string \<Rightarrow> json" where
  "error_frame errMsg = enc_ws_error \<lparr>oeType = ''ERROR'', oeError = errMsg\<rparr>"

definition frame_type :: "json \<Rightarrow> json option" where
  "frame_type j = (case j of JObj kvs \<Rightarrow> map_of kvs ''type'' | _ \<Rightarrow> None)"

text \<open>A client tells the three kinds of frames apart by their type.\<close>

lemma frame_types:
  "frame_type (error_frame errMsg) = Some (JStr ''ERROR'')"
  "frame_type (enc_event time_text (PlayerJoined p v)) = Some (JStr ''player_joined'')"
  "frame_type (enc_event time_text (MoveMade mt uid pl v g)) = Some (JStr ''move'')"
  by (simp_all add: frame_type_def error_frame_def enc_ws_error_def enc_event_def)

definition client_game :: "(string \<Rightarrow> int option) \<Rightarrow> json \<Rightarrow> Game option" where
  "client_game parse j =
     (case j of JObj kvs \<Rightarrow> (case map_of kvs ''game_state'' of None \<Rightarrow> None | Some s \<Rightarrow> dec_game parse s) | _ \<Rightarrow> None)"

end
