(* ===== verification/Ledger.thy ===== *)
theory Ledger
  imports TableLife
begin

text \<open>
  The books of a table over its rounds: the score of each round, its place in the history, and the totals.
\<close>

section \<open>The seats and their scores\<close>

lemma seated_from_iff: "(i, p) \<in> set (seated_from j ps) \<longleftrightarrow> (\<exists>k < length ps. i = j + int k \<and> ps ! k = Some p)"
  by (induction j ps rule: seated_from.induct) (auto simp: Ex_less_Suc2)

lemma seated_iff: "(i, p) \<in> set (seated g) \<longleftrightarrow> player_at g i = Inr p"
proof
  assume "(i, p) \<in> set (seated g)"
  then show "player_at g i = Inr p" by (auto simp: seated_def seated_from_iff player_at_def)
next
  assume "player_at g i = Inr p"
  then have "0 \<le> i \<and> i < int (length (Players g)) \<and> Players g ! nat i = Some p" by (simp add: player_at_Inr)
  then show "(i, p) \<in> set (seated g)" unfolding seated_def seated_from_iff by (intro exI [of _ "nat i"]) auto
qed

lemma taken_filled: "taken g s \<longleftrightarrow> filled g s"
  by (auto simp: taken_def filled_def image_iff Bex_def seated_iff)

lemma seated_names:
  assumes "seats_ok g"
  shows "distinct (map (\<lambda>x. pID (snd x)) (seated g))"
proof -
  have "x = y" if x: "x \<in> set (seated g)" "y \<in> set (seated g)" "pID (snd x) = pID (snd y)" for x y
  proof -
    obtain i p j q where xy: "x = (i, p)" "y = (j, q)" by (cases x; cases y) auto
    then have "player_at g i = Inr p" "player_at g j = Inr q" using x by (simp_all add: seated_iff)
    moreover from this have "i = j" using assms x(3) xy by (simp add: seats_ok_def)
    ultimately show ?thesis using xy by simp
  qed
  moreover have "distinct (seated g)" using seated_distinct distinct_map by blast
  ultimately show ?thesis by (auto simp: distinct_map inj_on_def)
qed

text \<open>The booked scores are the seat scores under the names of the players.\<close>

lemma fold_names:
  "distinct (map name xs) \<Longrightarrow> set (map name xs) \<inter> fst ` set m = {} \<Longrightarrow>
    fold (\<lambda>x m. gm_set (name x) (val x) m) xs m = m @ map (\<lambda>x. (name x, val x)) xs"
proof (induction xs arbitrary: m)
  case (Cons x xs)
  have "gm_set (name x) (val x) m = m @ [(name x, val x)]" using Cons.prems(2) by (intro gm_set_new) auto
  moreover have "fold (\<lambda>x m. gm_set (name x) (val x) m) xs (m @ [(name x, val x)]) =
      (m @ [(name x, val x)]) @ map (\<lambda>x. (name x, val x)) xs"
    by (rule Cons.IH) (use Cons.prems in auto)
  ultimately show ?case by simp
qed simp

lemma seat_scores:
  assumes "Contract g = Some b" "x \<in> set (seated g)"
  shows "gm_get (CalculateFinalScore g) (fst x) 0 = seatScore g b (fst x)"
proof -
  obtain i p where x: "x = (i, p)" by fastforce
  have "map_of (map (\<lambda>(s, p). (s, seatScore g b s)) (seated g)) i = Some (seatScore g b i)"
    by (rule map_of_is_SomeI) (use assms(2) x seated_distinct [of g] in \<open>force simp: case_prod_beta o_def\<close>)+
  then show ?thesis using assms(1) x by (simp add: gm_get_def CalculateFinalScore_def)
qed

lemma round_scores:
  fixes g :: Game
  assumes "seats_ok g" "Contract g = Some b"
  defines "k \<equiv> g\<lparr>Status := PhaseFinished\<rparr>"
  shows "Scores (finish_round g) = map (\<lambda>x. (pID (snd x), seatScore k b (fst x))) (seated k)"
    "distinct (map fst (Scores (finish_round g)))"
    "sum_list (map snd (Scores (finish_round g))) = sum_list (map snd (CalculateFinalScore k))"
proof -
  have s: "seats_ok k" using assms(1) seats_ok_cong [of k g] by (simp add: k_def)
  have c: "Contract k = Some b" using assms(2) by (simp add: k_def)
  have d: "distinct (map (\<lambda>x. pID (snd x)) (seated k))" by (rule seated_names [OF s])
  have "Scores (finish_round g) =
      fold (\<lambda>x m. gm_set (pID (snd x)) (gm_get (CalculateFinalScore k) (fst x) 0) m) (seated k) []"
    by (simp add: finish_round_def Let_def k_def case_prod_unfold)
  also have "\<dots> = map (\<lambda>x. (pID (snd x), gm_get (CalculateFinalScore k) (fst x) 0)) (seated k)"
    using fold_names [OF d, of "[]"] by simp
  also have "\<dots> = map (\<lambda>x. (pID (snd x), seatScore k b (fst x))) (seated k)"
    by (rule map_cong) (simp_all add: seat_scores [OF c])
  finally show sc: "Scores (finish_round g) = map (\<lambda>x. (pID (snd x), seatScore k b (fst x))) (seated k)" .
  show "distinct (map fst (Scores (finish_round g)))" using d by (simp add: sc o_def)
  show "sum_list (map snd (Scores (finish_round g))) = sum_list (map snd (CalculateFinalScore k))"
    using c by (simp add: sc CalculateFinalScore_def o_def case_prod_beta)
qed

section \<open>A round is zero-sum\<close>

text \<open>No fifth player stayed at a table that went down to four seats.\<close>

definition no_stale_seat :: "Game \<Rightarrow> bool" where
  "no_stale_seat g \<longleftrightarrow> (NumPlayers (Config g) = 4 \<longrightarrow> \<not> filled g 4)"

lemma four_seats:
  assumes "table_ok g" "NumPlayers (Config g) = 4" "\<not> filled g 4"
  shows "fst ` set (seated g) = {0..<4}"
proof -
  have n: "numSeats g = 4" using assms(2) by (simp add: numSeats_def)
  have "filled g i \<longleftrightarrow> 0 \<le> i \<and> i < 4" for i
  proof
    assume f: "filled g i"
    then have "0 \<le> i" "i < 5" using filled_range [OF table_seats [OF assms(1)]] by auto
    moreover have "i \<noteq> 4" using f assms(3) by blast
    ultimately show "0 \<le> i \<and> i < 4" by simp
  qed (use assms(1) n in \<open>simp add: table_ok_def\<close>)
  then have "s \<in> fst ` set (seated g) \<longleftrightarrow> s \<in> {0..<4}" for s using taken_filled [of g s] by (simp add: taken_def)
  then show ?thesis by blast
qed

lemma two_opponents:
  assumes "fst ` set (seated g) = {0..<4}" "taken g (Declarer g)" "taken g (friendSeat g)" "partnerPresent g"
  shows "oppCount g = 2"
proof -
  let ?ks = "map fst (seated g)"
  have ks: "distinct ?ks" "set ?ks = {0..<4}" using seated_distinct assms(1) by auto
  let ?opp = "filter (\<lambda>k. \<not> (k = Declarer g \<or> partnerPresent g \<and> k = friendSeat g)) ?ks"
  have "oppCount g = int (card (set ?opp))"
    unfolding oppCount_keys by (subst distinct_card) (use ks(1) in simp_all)
  also have "set ?opp = {k \<in> {0..<4}. \<not> (k = Declarer g \<or> k = friendSeat g)}"
    unfolding set_filter ks(2) using assms(4) by simp
  also have "{k \<in> {0..<4}. \<not> (k = Declarer g \<or> k = friendSeat g)} = {0..<4} - {Declarer g, friendSeat g}" by auto
  also have "card \<dots> = 2"
    using assms(1-4) by (subst card_Diff_subset) (auto simp: taken_def partnerPresent_def)
  finally show ?thesis by simp
qed

lemma round_zero_sum:
  assumes "table_ok g" "contract_ok g" "friend_seated g" "no_stale_seat g"
  shows "sum_list (map snd (Scores (finish_round g))) = 0"
proof -
  let ?k = "g\<lparr>Status := PhaseFinished\<rparr>"
  obtain b where b: "Contract g = Some b" and d: "0 \<le> Declarer g" "Declarer g < numSeats g"
    using assms(2) by (auto simp: contract_ok_def)
  have tab: "table_ok ?k" using assms(1) table_ok_cong [of ?k g] by simp
  have f: "filled ?k i = filled g i" for i by (rule filled_cong) simp
  have fs: "friendSeat ?k = friendSeat g" by (simp add: friendSeat_def cong: option.case_cong)
  have td: "taken ?k (Declarer ?k)" using assms(1) d by (simp add: taken_filled f table_ok_def)
  have tf: "taken ?k (friendSeat ?k)" if "partnerPresent ?k"
    using that assms(3) by (simp add: taken_filled f fs friend_seated_def partnerPresent_def)
  have "sum_list (map snd (CalculateFinalScore ?k)) = 0"
  proof (rule final_score_zero_sum [where b = b])
    assume "specialSplit ?k b"
    then have sp: "partnerPresent ?k" "NumPlayers (Config ?k) = 4" by (auto simp: specialSplit_def)
    then have "\<not> filled ?k 4" using assms(4) by (simp add: no_stale_seat_def f)
    from two_opponents [OF four_seats [OF tab sp(2) this] td tf [OF sp(1)] sp(1)] show "oppCount ?k = 2" .
  qed (use b td tf in simp_all)
  then show ?thesis using round_scores(3) [OF table_seats [OF assms(1)] b] by simp
qed

section \<open>A round is bounded\<close>

lemma team_points: "seats_ok g \<Longrightarrow> 0 \<le> teamPoints g \<and> teamPoints g \<le> int (size (all_points g))"
proof -
  assume s: "seats_ok g"
  let ?f = "\<lambda>x. if onTeam g (fst x) then int (length (Points (snd x))) else 0"
  have d: "inj_on fst (set (seated g))" using seated_distinct by (simp add: distinct_map)
  have ds: "distinct (seated g)" using seated_distinct distinct_map by blast
  have t: "teamPoints g = (\<Sum>x \<in> set (seated g). ?f x)"
    using ds by (simp add: teamPoints_def case_prod_unfold sum_list_distinct_conv_sum_set)
  have "\<dots> \<le> (\<Sum>x \<in> set (seated g). int (length (points_of g (fst x))))"
  proof (rule sum_mono)
    fix x assume "x \<in> set (seated g)"
    then have "player_at g (fst x) = Inr (snd x)" using seated_iff [of "fst x" "snd x" g] by simp
    then show "?f x \<le> int (length (points_of g (fst x)))" by (simp add: points_of_def)
  qed
  also have "\<dots> = (\<Sum>i \<in> fst ` set (seated g). int (length (points_of g i)))" by (simp add: sum.reindex [OF d])
  also have "\<dots> \<le> (\<Sum>i \<in> {0..<5}. int (length (points_of g i)))"
  proof (rule sum_mono2)
    show "fst ` set (seated g) \<subseteq> {0..<5}"
    proof
      fix i assume "i \<in> fst ` set (seated g)"
      then have "filled g i" by (simp add: taken_filled [symmetric] taken_def)
      then show "i \<in> {0..<5}" using filled_range [OF s] by simp
    qed
  qed simp_all
  also have "\<dots> = int (size (all_points g))" by (simp add: all_points_def size_multiset_sum)
  finally have "teamPoints g \<le> int (size (all_points g))" unfolding t .
  moreover have "0 \<le> teamPoints g" unfolding t by (rule sum_nonneg) simp
  ultimately show ?thesis by simp
qed

lemma round_bounded:
  assumes "table_ok g" "contract_ok g" "size (all_points g) \<le> 20"
  shows "\<forall>(pid, n) \<in> set (Scores (finish_round g)). \<bar>n\<bar> \<le> 640"
proof -
  let ?k = "g\<lparr>Status := PhaseFinished\<rparr>"
  obtain b where b: "Contract g = Some b" "bid_ok g b" and d: "0 \<le> Declarer g" "Declarer g < numSeats g"
    using assms(2) by (auto simp: contract_ok_def)
  have s: "seats_ok g" by (rule table_seats [OF assms(1)])
  have sk: "seats_ok ?k" using s seats_ok_cong [of ?k g] by simp
  have f: "filled ?k i = filled g i" for i by (rule filled_cong) simp
  have "taken ?k (Declarer ?k)" using assms(1) d by (simp add: taken_filled f table_ok_def)
  moreover have "all_points ?k = all_points g" by (rule all_points_cong) simp
  moreover have "minBidPoints ?k \<le> bPoints b \<and> bPoints b \<le> 10" using b(2) minBidPoints_cong [of ?k g] by (simp add: bid_ok_def)
  moreover have "length (Players ?k) = 5" using s by (simp add: seats_ok_def)
  ultimately have "\<forall>(seat, score) \<in> set (CalculateFinalScore ?k). \<bar>score\<bar> \<le> 640"
    using team_points [OF sk] assms(3) b(1) by (intro final_score_bounded [where b = b]) auto
  moreover have "CalculateFinalScore ?k = map (\<lambda>(s, p). (s, seatScore ?k b s)) (seated ?k)"
    using b(1) by (simp add: CalculateFinalScore_def)
  ultimately show ?thesis using round_scores(1) [OF s b(1)] by auto
qed

section \<open>The totals\<close>

lemma add_scores_get:
  "distinct (map fst scores) \<Longrightarrow> gm_get (add_scores totals scores) pid 0 = gm_get totals pid 0 + gm_get scores pid 0"
proof (induction scores arbitrary: totals)
  case Nil
  then show ?case by (simp add: add_scores_def gm_get_def)
next
  case (Cons x scores)
  obtain q n where x: "x = (q, n)" by fastforce
  let ?t = "gm_set q (gm_get totals q 0 + n) totals"
  have "gm_get (add_scores totals (x # scores)) pid 0 = gm_get (add_scores ?t scores) pid 0"
    by (simp add: add_scores_def x)
  also have "\<dots> = gm_get ?t pid 0 + gm_get scores pid 0" by (rule Cons.IH) (use Cons.prems in simp)
  also have "\<dots> = gm_get totals pid 0 + gm_get (x # scores) pid 0"
  proof (cases "pid = q")
    case True
    then have "map_of scores pid = None" using Cons.prems x by (auto simp: map_of_eq_None_iff)
    then show ?thesis using True by (simp add: gm_get_def x update_conv')
  next
    case False
    then show ?thesis by (simp add: gm_get_def x update_conv')
  qed
  finally show ?case .
qed

text \<open>The total of every player is the sum of his scores in the history.\<close>

definition totals_ok :: "Game \<Rightarrow> bool" where
  "totals_ok g \<longleftrightarrow> (\<forall>pid. gm_get (TotalScores g) pid 0 = sum_list (map (\<lambda>m. gm_get m pid 0) (ScoreHistory g)))"

lemma totals_ok_books: "books g' = books g \<Longrightarrow> totals_ok g' = totals_ok g"
  by (simp add: totals_ok_def books_def)

lemma totals_ok_round:
  assumes "totals_ok g" "table_ok g" "contract_ok g"
  shows "totals_ok (finish_round g)"
proof -
  obtain b where b: "Contract g = Some b" using assms(3) by (auto simp: contract_ok_def)
  have "TotalScores (finish_round g) = add_scores (TotalScores g) (Scores (finish_round g))"
    "ScoreHistory (finish_round g) = ScoreHistory g @ [Scores (finish_round g)]"
    by (simp_all add: finish_round_def Let_def)
  then show ?thesis using assms(1) round_scores(2) [OF table_seats [OF assms(2)] b]
    by (simp add: totals_ok_def add_scores_get)
qed

lemma totals_ok_booked: "booked g g' \<Longrightarrow> totals_ok g \<Longrightarrow> totals_ok g'"
  unfolding booked_def using totals_ok_books totals_ok_round by metis

lemma join_books:
  "join_table e g uid name = Rejoined g' \<or> join_table e g uid name = Seated s g' \<Longrightarrow> books g' = books g"
  by (auto simp: join_table_def Let_def books_def split: option.splits if_splits)

lemma reachable_totals: "reachable h cfg False n g \<Longrightarrow> totals_ok g"
proof (induction rule: reachable_legal_induct)
  case (new e gid)
  then show ?case by (simp add: totals_ok_def NewWithConfig_def Let_def gm_get_def)
next
  case (step n g g')
  have inv: "round_inv h g" by (rule reachable_inv [OF step.hyps(1)])
  from step.hyps(2) show ?case
  proof cases
    case (join e uid name s)
    then show ?thesis using join_books totals_ok_books step.IH by metis
  next
    case (rejoin e uid name)
    then show ?thesis using join_books totals_ok_books step.IH by metis
  next
    case (move uid mt pl e)
    then have "booked g g'" using accepted_move [OF inv move(1,2), of e] by (auto simp: moves_to_def)
    then show ?thesis using totals_ok_booked step.IH by blast
  qed
qed

lemma filled_roster: "roster k = roster g \<Longrightarrow> filled k i = filled g i"
proof -
  assume r: "roster k = roster g"
  have "filled g i \<longleftrightarrow> 0 \<le> i \<and> i < int (length (roster g)) \<and> roster g ! nat i \<noteq> None" for g
    by (auto simp: filled_def player_at_Inr roster_def nat_less_iff)
  then show ?thesis by (simp add: r)
qed

text \<open>
  C4. The books balance. At every table at which nobody was seated outside the waiting room (C19), over any number of rounds,
  the total of each player is the sum of what the history of rounds gives him, and the card that ends a round appends the scores of that round to the history;
  none of them exceeds 640 in absolute value, and they add up to zero unless a fifth player stayed at a table that had gone down to four seats.
\<close>

theorem books_balance:
  assumes "reachable h cfg False n g"
  shows "(\<forall>pid. gm_get (TotalScores g) pid 0 = sum_list (map (\<lambda>m. gm_get m pid 0) (ScoreHistory g))) \<and>
    (\<forall>e uid mt pl g'. ValidateMove g uid mt pl = None \<longrightarrow> (h \<longrightarrow> careful mt pl) \<longrightarrow> ApplyMove e g uid mt pl = Inr g' \<longrightarrow>
      Status g = PhasePlaying \<longrightarrow> Status g' = PhaseFinished \<longrightarrow>
      ScoreHistory g' = ScoreHistory g @ [Scores g'] \<and> (\<forall>(pid, n) \<in> set (Scores g'). \<bar>n\<bar> \<le> 640) \<and>
      (no_stale_seat g \<longrightarrow> sum_list (map snd (Scores g')) = 0))"
proof (intro conjI allI impI)
  show "gm_get (TotalScores g) pid 0 = sum_list (map (\<lambda>m. gm_get m pid 0) (ScoreHistory g))" for pid
    using reachable_totals [OF assms] by (simp add: totals_ok_def)
  fix e uid mt pl g'
  assume v: "ValidateMove g uid mt pl = None" "h \<longrightarrow> careful mt pl" and a: "ApplyMove e g uid mt pl = Inr g'"
    and ph: "Status g = PhasePlaying" "Status g' = PhaseFinished"
  have "round_inv h g" using reachable_inv [OF assms] by simp
  from accepted_move [OF this v, of e] a have "booked g g'" by (auto simp: moves_to_def)
  then obtain k where k: "table_ok k" "contract_ok k" "friend_seated k" "roster k = roster g" "Config k = Config g"
    "size (all_points k) \<le> 20" "books k = books g" "books g' = books (finish_round k)" "Scores g' = Scores (finish_round k)"
    using ph by (auto simp: booked_def)
  have "no_stale_seat k" if "no_stale_seat g" using that filled_roster [OF k(4)] k(5) by (simp add: no_stale_seat_def)
  then show "no_stale_seat g \<Longrightarrow> sum_list (map snd (Scores g')) = 0" using round_zero_sum [OF k(1-3)] k(9) by simp
  show "\<forall>(pid, n) \<in> set (Scores g'). \<bar>n\<bar> \<le> 640" using round_bounded [OF k(1,2,6)] k(9) by simp
  show "ScoreHistory g' = ScoreHistory g @ [Scores g']"
    using k(7-9) by (simp add: books_def finish_round_def Let_def)
qed

section \<open>Every deal can be played to its end\<close>

lemma bid_possible:
  assumes "bidding_inv g" "CurrentBid g = None"
  shows "\<exists>uid. ValidateMove g uid MoveBid (PBid \<lparr>bPlayerID = [], bPoints = 5, bSuit = Spades, IsNoTrump = False\<rparr>) = None"
proof -
  have t: "0 \<le> CurrentTurn g" "CurrentTurn g < numSeats g" and s: "seats_ok g" and ph: "Status g = PhaseBidding"
    using bidding_turn [OF assms(1)] assms(1) by (auto simp: bidding_inv_def)
  have tab: "table_ok g" using assms(1) by (simp add: bidding_inv_def deal_inv_def)
  obtain p where p: "player_at g (CurrentTurn g) = Inr p" by (rule table_filled [OF tab t])
  let ?b = "\<lparr>bPlayerID = [], bPoints = 5, bSuit = Spades, IsNoTrump = False\<rparr>"
  have "ValidateMove g (pID p) MoveBid (PBid ?b) = None"
    using ph p assms(2) GetPlayer_player_at [OF s p]
    by (simp add: ValidateMove_def validateBid_def check_id_def minBidPoints_def)
  then show ?thesis by blast
qed

lemma progress_possible:
  assumes "round_inv h g" "Status g \<noteq> PhaseWaiting"
  shows "\<exists>uid mt pl. ValidateMove g uid mt pl = None \<and> careful mt pl \<and> \<not> thrown_in g mt"
proof (cases "Status g = PhaseBidding \<and> CurrentBid g = None")
  case True
  then have "bidding_inv g" "CurrentBid g = None" using assms(1) by (simp_all add: round_inv_def)
  from bid_possible [OF this] obtain uid b where "ValidateMove g uid MoveBid (PBid b) = None" by blast
  then show ?thesis by (intro exI [of _ uid] exI [of _ MoveBid] exI [of _ "PBid b"]) (simp add: careful_def thrown_in_def)
next
  case False
  then show ?thesis using someone_can_move [OF assms] by (auto simp: thrown_in_def)
qed

definition in_deal :: "Game \<Rightarrow> bool" where
  "in_deal g \<longleftrightarrow> Status g \<notin> {PhaseWaiting, PhaseFinished}"

lemma booked_in_deal:
  assumes "booked g g'" "Status g \<noteq> PhaseFinished"
  shows "Status g' \<noteq> PhaseFinished \<and> books g' = books g \<or>
    Status g' = PhaseFinished \<and> ScoreHistory g' = ScoreHistory g @ [Scores g']"
proof (cases "Status g' = PhaseFinished")
  case True
  then obtain k where "books k = books g" "books g' = books (finish_round k)" "Scores g' = Scores (finish_round k)"
    using assms by (auto simp: booked_def)
  then show ?thesis using True by (simp add: books_def finish_round_def Let_def)
qed (use assms in \<open>auto simp: booked_def\<close>)

lemma accepted_in_deal:
  fixes e :: Env
  assumes "reachable h cfg False n g" "in_deal g" "ValidateMove g uid mt pl = None" "careful mt pl" "\<not> thrown_in g mt"
  obtains g' where "reachable h cfg False (Suc n) g'" "moves_left g' < moves_left g" "Status g' \<noteq> PhaseWaiting"
    "ApplyMove e g uid mt pl = Inr g'" "booked g g'" "table_kept g g'"
proof -
  have inv: "round_inv h g" using reachable_inv [OF assms(1)] by simp
  have ph: "Status g \<noteq> PhaseWaiting" "Status g \<noteq> PhaseFinished" using assms(2) by (auto simp: in_deal_def)
  have "moves_to e g uid mt pl h" by (rule accepted_move [OF inv assms(3)]) (simp add: assms(4))
  then obtain g' where a: "ApplyMove e g uid mt pl = Inr g'" and b: "booked g g'" and k: "table_kept g g'"
    by (auto simp: moves_to_def)
  show thesis
  proof (rule that [OF _ _ _ a b k])
    show "reachable h cfg False (Suc n) g'" by (rule reachable_step [OF assms(1) table_step.move [OF assms(3) _ a]]) (simp add: assms(4))
    show "moves_left g' < moves_left g" by (rule deal_move_left [OF inv assms(3) a assms(5) ph(2)])
    show "Status g' \<noteq> PhaseWaiting" using k ph(1) by (auto simp: table_kept_def phase_step_def)
  qed
qed

lemma deal_step_full:
  fixes e :: Env
  assumes "reachable h cfg False n g" "in_deal g"
  obtains g' uid mt pl where "reachable h cfg False (Suc n) g'" "moves_left g' < moves_left g" "Status g' \<noteq> PhaseWaiting"
    "ValidateMove g uid mt pl = None" "careful mt pl" "ApplyMove e g uid mt pl = Inr g'"
    "booked g g'" "table_kept g g'"
proof -
  have "Status g \<noteq> PhaseWaiting" "round_inv h g" using assms reachable_inv by (auto simp: in_deal_def)
  then obtain uid mt pl where v: "ValidateMove g uid mt pl = None" "careful mt pl" "\<not> thrown_in g mt"
    using progress_possible by blast
  from that [OF _ _ _ v(1,2)] show thesis by (rule accepted_in_deal [OF assms v, of e])
qed

lemma deal_step:
  assumes "reachable h cfg False n g" "in_deal g"
  obtains g' where "reachable h cfg False (Suc n) g'" "moves_left g' < moves_left g" "Status g' \<noteq> PhaseWaiting"
    "Status g' \<noteq> PhaseFinished \<and> books g' = books g \<or>
     Status g' = PhaseFinished \<and> ScoreHistory g' = ScoreHistory g @ [Scores g']"
  by (rule deal_step_full [OF assms, of undefined], rule that, assumption+)
     (use booked_in_deal assms(2) in \<open>auto simp: in_deal_def\<close>)

lemma deal_finishes:
  assumes "reachable h cfg False n g" "Status g \<notin> {PhaseWaiting, PhaseFinished}"
  shows "\<exists>m g'. n < m \<and> m \<le> n + moves_left g \<and> reachable h cfg False m g' \<and> Status g' = PhaseFinished \<and>
    ScoreHistory g' = ScoreHistory g @ [Scores g']"
  using assms
proof (induction "moves_left g" arbitrary: n g rule: less_induct)
  case less
  obtain k where k: "reachable h cfg False (Suc n) k" "moves_left k < moves_left g" "Status k \<noteq> PhaseWaiting"
    "Status k \<noteq> PhaseFinished \<and> books k = books g \<or>
     Status k = PhaseFinished \<and> ScoreHistory k = ScoreHistory g @ [Scores k]"
    by (rule deal_step [OF less.prems(1)]) (use less.prems(2) in \<open>simp_all add: in_deal_def\<close>)
  show ?case
  proof (cases "Status k = PhaseFinished")
    case True
    then show ?thesis using k by (intro exI [of _ "Suc n"] exI [of _ k]) auto
  next
    case False
    then obtain m g' where m: "Suc n < m" "m \<le> Suc n + moves_left k" "reachable h cfg False m g'" "Status g' = PhaseFinished"
      "ScoreHistory g' = ScoreHistory k @ [Scores g']"
      using less.hyps [OF k(2,1)] k(3) by auto
    moreover have "ScoreHistory k = ScoreHistory g" using k(4) False by (simp add: books_def)
    ultimately show ?thesis using k(2) by (intro exI [of _ m] exI [of _ g']) simp
  qed
qed



text \<open>The last card of a round from a reachable table.\<close>

lemma last_card:
  assumes "reachable h cfg False n g" "in_deal g"
  shows "\<exists>m k e uid mt pl g'. reachable h cfg False m k \<and> Config k = Config g \<and> ValidateMove k uid mt pl = None \<and>
    (h \<longrightarrow> careful mt pl) \<and> ApplyMove e k uid mt pl = Inr g' \<and> Status k = PhasePlaying \<and> Status g' = PhaseFinished"
  using assms
proof (induction "moves_left g" arbitrary: n g rule: less_induct)
  case less
  obtain k uid mt pl where k: "reachable h cfg False (Suc n) k" "moves_left k < moves_left g" "Status k \<noteq> PhaseWaiting"
    "ValidateMove g uid mt pl = None" "careful mt pl" "ApplyMove undefined g uid mt pl = Inr k"
    "booked g k" "table_kept g k" by (rule deal_step_full [OF less.prems, of undefined])
  have ng: "Status g \<noteq> PhaseFinished" using less.prems(2) by (simp add: in_deal_def)
  show ?case
  proof (cases "Status k = PhaseFinished")
    case True
    then have "Status g = PhasePlaying"
      using k(8) ng by (cases "Status g") (auto simp: table_kept_def phase_step_def)
    then show ?thesis using True k less.prems(1) by blast
  next
    case False
    moreover have "Config k = Config g" using k(7) ng by (simp add: booked_def)
    ultimately show ?thesis using less.hyps [OF k(2,1)] k(3) by (simp add: in_deal_def)
  qed
qed

theorem books_balance_witness:
  "\<exists>n g. reachable True DefaultConfig False n g \<and> Status g = PhaseFinished \<and> ScoreHistory g \<noteq> [] \<and>
    sum_list (map snd (Scores g)) = 0 \<and>
    (\<forall>pid. gm_get (TotalScores g) pid 0 = sum_list (map (\<lambda>m. gm_get m pid 0) (ScoreHistory g)))"
proof -
  obtain g where g: "reachable True DefaultConfig False 5 g" "Status g = PhaseBidding" "Config g = DefaultConfig"
    by (rule demo_reachable)
  then have "in_deal g" by (simp add: in_deal_def)
  from last_card [OF g(1) this] obtain m k e uid mt pl g' where k: "reachable True DefaultConfig False m k"
    "Config k = Config g" "ValidateMove k uid mt pl = None" "careful mt pl" "ApplyMove e k uid mt pl = Inr g'"
    "Status k = PhasePlaying" "Status g' = PhaseFinished" by blast
  have "no_stale_seat k" using k(2) g(3) by (simp add: no_stale_seat_def DefaultConfig_def)
  then have s: "ScoreHistory g' = ScoreHistory k @ [Scores g']" "sum_list (map snd (Scores g')) = 0"
    using books_balance [OF k(1)] k(3-7) by blast+
  have r: "reachable True DefaultConfig False (Suc m) g'"
    by (rule reachable_step [OF k(1) table_step.move [OF k(3) _ k(5)]]) (simp add: k(4))
  then have "\<forall>pid. gm_get (TotalScores g') pid 0 = sum_list (map (\<lambda>m. gm_get m pid 0) (ScoreHistory g'))"
    using books_balance [OF r] by simp
  then show ?thesis using r s k(7) by (intro exI [of _ "Suc m"] exI [of _ g']) simp
qed

end
