(* ===== verification/Playthrough.thy ===== *)
theory Playthrough
  imports Server Codec Ledger
begin

text \<open>
  A whole round over HTTP: users with tokens create a table, fill it and play a deal to its scores, every
  request through the router, the token check, the decoding of its body, the service and the stores.
\<close>

section \<open>The moves that are always possible have payloads that can be sent\<close>

lemma progress_on_wire:
  assumes "round_inv h g" "in_deal g"
  obtains uid mt pl where "ValidateMove g uid mt pl = None" "careful mt pl" "\<not> thrown_in g mt" "payload_for mt pl"
proof (cases "Status g")
  case PhaseBidding
  then have b: "bidding_inv g" using assms(1) by (simp add: round_inv_def)
  show thesis
  proof (cases "CurrentBid g")
    case None
    from bid_possible [OF b None] obtain uid where
      v: "ValidateMove g uid MoveBid (PBid \<lparr>bPlayerID = [], bPoints = 5, bSuit = Spades, IsNoTrump = False\<rparr>) = None" by blast
    show thesis
      by (rule that [OF v]) (simp_all add: careful_def thrown_in_def exact_int_def suit_proper_def suit_of_string_def)
  next
    case (Some bd)
    from pass_possible [OF b] obtain uid where v: "ValidateMove g uid MovePass PNil = None" by blast
    then show thesis by (intro that [OF v]) (simp_all add: careful_def thrown_in_def Some)
  qed
next
  case PhaseExchanging
  then obtain uid cards where v: "ValidateMove g uid MoveDiscard (PCards cards) = None" "distinct cards"
    "set cards \<subseteq> set (NewDeckFor (numSeats g))"
    using discard_possible [of g] assms(1) unfolding round_inv_def by auto
  show thesis by (rule that [OF v(1)]) (use v deck_proper PhaseExchanging in \<open>auto simp: careful_def thrown_in_def\<close>)
next
  case PhaseCalling
  then obtain uid where v: "ValidateMove g uid MoveCallPartner (PCallPartner \<lparr>cpCard = None, NoFriend = True\<rparr>) = None"
    using call_possible assms(1) by (auto simp: round_inv_def)
  show thesis by (rule that [OF v]) (simp_all add: careful_def thrown_in_def)
next
  case PhasePlaying
  then obtain p :: Player and m where v: "ValidateMove g (pID p) MovePlayCard (PPlayCard m) = None"
    "pmCard m \<in> set (NewDeckFor (numSeats g))" "CalledSuit m \<in> {Spades, EmptySuit}"
    using play_possible [of h g] assms(1) by (auto simp: round_inv_def)
  show thesis
    by (rule that [OF v(1)])
       (use v deck_proper in \<open>auto simp: careful_def thrown_in_def suit_proper_def suit_of_string_def\<close>)
qed (use assms(2) in \<open>auto simp: in_deal_def\<close>)

section \<open>The requests of a client\<close>

text \<open>A POST with a bearer token and a JSON body within the limit.\<close>

definition post :: "string \<Rightarrow> json \<Rightarrow> Request" where
  "post token body = \<lparr>Header = (\<lambda>h. if h = ''Authorization'' then ''Bearer '' @ token else []), RemoteAddr = [],
     Host = [], PathID = [], QueryStatus = [], HasBody = True, Body = Some body, BodyBytes = 1000, ContentLength = 1000, ContextClaims = None\<rparr>"

lemma post_small [simp]: "limit_body (post token body) = post token body" "\<not> MaxBodyBytes < ContentLength (post token body)"
  by (simp_all add: limit_body_small post_def MaxBodyBytes_def)

definition plain_token :: "string \<Rightarrow> bool" where
  "plain_token token \<longleftrightarrow> token \<noteq> [] \<and> (\<forall>c \<in> set token. \<not> is_space c)"

text \<open>Every user of \<open>U\<close> has a token that the server accepts as his.\<close>

definition knows :: "'s server \<Rightarrow> (string \<Rightarrow> string) \<Rightarrow> string set \<Rightarrow> bool" where
  "knows srv token U \<longleftrightarrow> (\<exists>validate. srv_auth srv = Some validate \<and>
     (\<forall>uid \<in> U. plain_token (token uid) \<and> (\<exists>name. validate (token uid) = Inr \<lparr>UserID = uid, Username = name\<rparr>)))"

lemma fields_plain: "\<forall>c \<in> set s. \<not> is_space c \<Longrightarrow> cur @ s \<noteq> [] \<Longrightarrow> fields_from cur s = [cur @ s]"
  by (induction cur s rule: fields_from.induct) auto

lemma fields_bearer: "plain_token token \<Longrightarrow> Fields (''Bearer '' @ token) = [''Bearer'', token]"
proof -
  assume "plain_token token"
  then have "fields_from [] token = [token]" using fields_plain [of token "[]"] by (simp add: plain_token_def)
  then show ?thesis by (simp add: Fields_def is_space_def)
qed

lemma authenticate_post:
  assumes "knows srv token U" "uid \<in> U"
  shows "\<exists>name. authenticate (srv_auth srv) ((post (token uid) body)\<lparr>PathID := i\<rparr>) = Inr \<lparr>UserID = uid, Username = name\<rparr> \<and>
    authenticate (srv_auth srv) (post (token uid) body) = Inr \<lparr>UserID = uid, Username = name\<rparr>"
proof -
  have "plain_token (token uid)" using assms by (auto simp: knows_def)
  then have "Fields (''Bearer '' @ token uid) = [''Bearer'', token uid]" "token uid \<noteq> []"
    by (rule fields_bearer) (use \<open>plain_token (token uid)\<close> in \<open>simp add: plain_token_def\<close>)
  then show ?thesis using assms by (auto simp: knows_def authenticate_def post_def Let_def)
qed

text \<open>The requests one after the other, request \<open>k\<close> under the choices \<open>ch k\<close> of clock, draws and lock token.\<close>

fun served :: "'s server \<Rightarrow> (nat \<Rightarrow> choice) \<Rightarrow> nat \<Rightarrow> 's \<Rightarrow> (string list \<times> Request) list \<Rightarrow> world \<Rightarrow> Response list \<times> world" where
  "served srv ch k s [] w = ([], w)"
| "served srv ch k s ((path, r) # rs) w =
     (let (p, s') = serve srv ''POST'' path r s; (resp, w') = run (ch k) p w;
          (resps, w2) = served srv ch (Suc k) s' rs w'
      in (resp # resps, w2))"

section \<open>One request at a table that nobody else uses\<close>

text \<open>The game as it is stored, with its lock free, in a state that the rules reach and with the players \<open>U\<close> only.\<close>

definition members :: "Game \<Rightarrow> string set" where
  "members g = {pID p | i p. player_at g i = Inr p}"

definition at_rest :: "string \<Rightarrow> GameConfig \<Rightarrow> string set \<Rightarrow> world \<Rightarrow> Game \<Rightarrow> bool" where
  "at_rest gid cfg U w g \<longleftrightarrow> (\<exists>n. reachable True cfg False n g) \<and> fresh_cell gid w g \<and> no_deck g \<and>
     GET (clock w) (kv w) (lock_key gid) = None \<and> members g \<subseteq> U"

lemma fresh_saved:
  assumes "no_deck g" "gID g = gid" "kv w' = kv (saved g (unlocked gid w))" "clock w' = clock w"
  shows "fresh_cell gid w' g \<and> GET (clock w') (kv w') (lock_key gid) = None"
  using assms by (simp add: fresh_cell_def stored_def cell_load_def GET_def saved_def unlocked_def ttlMillis_def marshal_no_deck)

lemma members_roster: "roster g' = roster g \<Longrightarrow> members g' = members g"
proof -
  have "members g = {x. \<exists>i name s. 0 \<le> i \<and> i < int (length (roster g)) \<and> roster g ! nat i = Some (x, name, s)}" for g
    by (auto simp: members_def player_at_Inr roster_def nat_less_iff) blast
  then show "roster g' = roster g \<Longrightarrow> members g' = members g" by simp
qed

lemma mover_member: "ValidateMove g uid mt pl = None \<Longrightarrow> uid \<in> members g"
  by (erule ValidateMove_player) (auto simp: members_def)

text \<open>The body of a move, and that the server reads it.\<close>

definition move_doc :: "Game \<Rightarrow> MoveType \<Rightarrow> payload \<Rightarrow> json" where
  "move_doc g mt pl = JObj [(''move_type'', JStr (move_text mt)), (''payload'', enc_payload pl),
     (''client_version'', JNum (sint (Version g)))]"

lemma lower_move [simp]:
  "ascii_lower ''move_type'' = ''move_type''" "ascii_lower ''payload'' = ''payload''"
  "ascii_lower ''client_version'' = ''client_version''"
  by code_simp+

lemma int64_sint: "int64 (sint (v :: 64 word))"
  using sint_range_size [of v] by (simp add: int64_def word_size)

lemma move_request_doc:
  assumes "payload_for mt pl"
  shows "move_request (post token (move_doc g mt pl)) =
    Some \<lparr>mrPlayerID = [], mrMoveType = mt, mrPayload = enc_payload pl, mrClientVersion = sint (Version g)\<rparr>"
proof -
  have t: "move_of_string (move_text mt) = mt"
    using assms by (cases mt) (simp_all add: move_of_string_def move_text_def)
  show ?thesis
    by (simp add: move_request_def post_def move_doc_def dec_struct_def move_fields_def dec_string_def dec_int_def int64_sint
        zeroMove_def t)
qed

text \<open>An accepted move, as a request.\<close>

lemma move_served:
  assumes rest: "at_rest gid cfg U w g" and d: "in_deal g" and k: "knows srv token U" and id: "gid \<noteq> []"
    and ch: "ch_net ch = Delivered"
  obtains r w' g' where "fst (serve srv ''POST'' [''games'', gid, ''move''] r s) = MoveHandler (srv_auth srv) (r\<lparr>PathID := gid\<rparr>)"
    "snd (serve srv ''POST'' [''games'', gid, ''move''] r s) = s"
    "run ch (MoveHandler (srv_auth srv) (r\<lparr>PathID := gid\<rparr>)) w = (ok_json (OneGame (Some g')), w')"
    "at_rest gid cfg U w' g'" "moves_left g' < moves_left g" "Status g' \<noteq> PhaseWaiting" "booked g g'"
    "length (moveRows w') = Suc (length (moveRows w))" "length (published w') = Suc (length (published w))"
proof -
  obtain n where n: "reachable True cfg False n g" and f: "fresh_cell gid w g" "no_deck g"
    "GET (clock w) (kv w) (lock_key gid) = None" "members g \<subseteq> U"
    using rest by (auto simp: at_rest_def)
  have inv: "round_inv True g" using reachable_inv [OF n] by simp
  obtain uid mt pl where v: "ValidateMove g uid mt pl = None" "careful mt pl" "\<not> thrown_in g mt" "payload_for mt pl"
    by (rule progress_on_wire [OF inv d])
  obtain g' where g': "reachable True cfg False (Suc n) g'" "moves_left g' < moves_left g" "Status g' \<noteq> PhaseWaiting"
    "ApplyMove (ch_env ch) g uid mt pl = Inr g'" "booked g g'" "table_kept g g'"
    by (rule accepted_in_deal [OF n d v(1-3)])
  have "uid \<in> U" using mover_member [OF v(1)] f(4) by blast
  then obtain name where au: "authenticate (srv_auth srv) ((post (token uid) (move_doc g mt pl))\<lparr>PathID := gid\<rparr>) =
      Inr \<lparr>UserID = uid, Username = name\<rparr>" using authenticate_post [OF k] by blast
  let ?r = "post (token uid) (move_doc g mt pl)"
  let ?w = "recorded gid uid mt pl (Version g) g' (saved g' (unlocked gid w))"
  have rq: "move_request (?r\<lparr>PathID := gid\<rparr>) = move_request ?r" by (simp add: move_request_def)
  have "run ch (svc_ProcessMove gid uid mt pl (Version g)) w = (Inr g', ?w)"
    using process_move_fresh [OF ch f(3,1), of uid mt pl "Version g"] v(1) g'(4) by simp
  then have run: "run ch (MoveHandler (srv_auth srv) (?r\<lparr>PathID := gid\<rparr>)) w = (ok_json (OneGame (Some g')), ?w)"
    by (simp add: MoveHandler_def au rq move_request_doc [OF v(4)] convert_enc [OF v(4)] run_bindP)
  have fr: "gID g' = gid" "no_deck g'" using ApplyMove_frame [OF g'(4)] f(1,2) by (auto simp: fresh_cell_def no_deck_def)
  have kc: "kv ?w = kv (saved g' (unlocked gid w))" "clock ?w = clock w" by (simp_all add: recorded_def unlocked_def)
  have "members g' \<subseteq> U" using members_roster [of g' g] g'(6) f(4) by (simp add: table_kept_def)
  then have "at_rest gid cfg U ?w g'" using fresh_saved [OF fr(2,1) kc] g'(1) fr(2) by (auto simp: at_rest_def)
  moreover have "serve srv ''POST'' [''games'', gid, ''move''] ?r s = (MoveHandler (srv_auth srv) (?r\<lparr>PathID := gid\<rparr>), s)"
    using id by (simp add: serve_def BodyLimitMiddleware_def mux_def path_routes_def run_route_def handler_func_def)
  ultimately show thesis using run g' by (intro that [of ?r g' ?w]) (simp_all add: recorded_def unlocked_def)
qed

section \<open>Taking a seat\<close>

definition free_seats :: "Game \<Rightarrow> int set" where
  "free_seats g = {i. 0 \<le> i \<and> i < numSeats g \<and> \<not> filled g i}"

lemma finite_free [simp]: "finite (free_seats g)"
  by (rule finite_subset [of _ "{0..<numSeats g}"]) (auto simp: free_seats_def)

lemma join_seated:
  assumes inv: "round_inv h g" and ph: "Status g = PhaseWaiting" and new: "uid \<notin> members g"
  obtains s g' where "join_table e g uid name = Seated s g'" "s \<in> free_seats g" "free_seats g' = free_seats g - {s}"
    "members g' = insert uid (members g)" "ScoreHistory g' = ScoreHistory g"
proof -
  have w: "waiting_inv g" using inv ph by (simp add: round_inv_def)
  then have sk: "seats_ok g" and ntab: "\<not> table_ok g" by (auto simp: waiting_inv_def)
  have n: "0 \<le> numSeats g" "numSeats g \<le> 5" and len: "length (Players g) = 5"
    using seats_range [OF sk] sk by (auto simp: seats_ok_def)
  have none: "find_player 0 (Players g) uid = None"
  proof (cases "find_player 0 (Players g) uid")
    case (Some i)
    then have "GetPlayer g uid = Some i" by (simp add: GetPlayer_def)
    from GetPlayer_Some [OF this] show ?thesis using new by (auto simp: members_def)
  qed
  have at: "Players g ! nat i = None \<longleftrightarrow> \<not> filled g i" if "0 \<le> i" "i < 5" for i
    using that len by (auto simp: filled_def player_at_Inr)
  obtain i where i: "0 \<le> i" "i < numSeats g" "\<not> filled g i" using ntab sk by (auto simp: table_ok_def)
  let ?ps = "take (nat (numSeats g)) (Players g)"
  have "?ps ! nat i = None" "nat i < length ?ps" using at [of i] i n len by auto
  then have "None \<in> set ?ps" by (metis nth_mem)
  then obtain s where s: "first_free 0 ?ps = Some s"
    using first_free_None [of 0 ?ps] by (cases "first_free 0 ?ps") auto
  have sr: "0 \<le> s" "s < numSeats g" "\<not> filled g s" using first_free_Some [OF s] at [of s] n len by auto
  let ?p = "newPlayer uid name s"
  let ?g = "touch e (set_player g s ?p)"
  have atp: "player_at ?g i = (if i = s then Inr ?p else player_at g i)" for i
    using player_at_new [of s g ?p i] sr n len by (simp add: player_at_cong [of ?g "set_player g s ?p"])
  have skg: "seats_ok ?g" using seats_ok_new [OF sk sr(1), of ?p] none sr n seats_ok_cong [of ?g "set_player g s ?p"]
    by (simp add: new_fields)
  define g' where "g' = (if IsFull ?g then Start e ?g else ?g)"
  have ro: "roster g' = roster ?g" and cf: "Config g' = Config g" and sc: "ScoreHistory g' = ScoreHistory g"
    using roster_Start [OF skg, of e] by (simp_all add: g'_def set_player_def)
  have fl: "filled g' i \<longleftrightarrow> i = s \<or> filled g i" for i
  proof -
    have "filled g' i = filled ?g i" by (rule filled_roster [OF ro])
    also have "\<dots> \<longleftrightarrow> i = s \<or> filled g i" unfolding filled_def atp by auto
    finally show ?thesis .
  qed
  have "members g' = members ?g" by (rule members_roster [OF ro])
  also have "\<dots> = insert uid (members g)"
  proof -
    have "player_at g s \<noteq> Inr q" for q using sr(3) by (auto simp: filled_def)
    moreover have "player_at (set_player g s ?p) i = (if i = s then Inr ?p else player_at g i)" for i using atp [of i] by simp
    ultimately show ?thesis by (auto simp: members_def new_fields split: if_splits) (metis new_fields(3))+
  qed
  finally have mem: "members g' = insert uid (members g)" .
  have "numSeats g' = numSeats g" using cf by (rule numSeats_cong)
  then have "free_seats g' = free_seats g - {s}" by (auto simp: free_seats_def fl)
  moreover have "join_table e g uid name = Seated s g'" using none s by (simp add: join_table_def Let_def g'_def)
  moreover have "s \<in> free_seats g" using sr by (simp add: free_seats_def)
  ultimately show thesis using mem sc that by blast
qed

text \<open>A join at a waiting table, as the game service runs it.\<close>

lemma join_at_rest:
  assumes rest: "at_rest gid cfg U w g" and ph: "Status g = PhaseWaiting" and u: "uid \<in> U" "uid \<notin> members g"
    and ch: "ch_net ch = Delivered"
  obtains w' g' where "run ch (svc_JoinGame gid uid name) w = (Inr g', w')" "at_rest gid cfg U w' g'"
    "card (free_seats g) = Suc (card (free_seats g'))" "members g' = insert uid (members g)"
    "Status g' = (if free_seats g' = {} then PhaseBidding else PhaseWaiting)" "ScoreHistory g' = ScoreHistory g"
    "length (moveRows w') = Suc (length (moveRows w))" "length (published w') = Suc (length (published w))"
proof -
  obtain n where n: "reachable True cfg False n g" and f: "fresh_cell gid w g" "no_deck g"
    "GET (clock w) (kv w) (lock_key gid) = None" "members g \<subseteq> U"
    using rest by (auto simp: at_rest_def)
  have inv: "round_inv True g" using reachable_inv [OF n] by simp
  obtain s g' where j: "join_table (ch_env ch) g uid name = Seated s g'" "s \<in> free_seats g"
    "free_seats g' = free_seats g - {s}" "members g' = insert uid (members g)" "ScoreHistory g' = ScoreHistory g"
    by (rule join_seated [OF inv ph u(2)])
  have r: "reachable True cfg False (Suc n) g'" by (rule reachable_step [OF n table_join [OF ph j(1)]])
  let ?w = "join_recorded gid uid name s g' (saved g' (unlocked gid w))"
  have run: "run ch (svc_JoinGame gid uid name) w = (Inr g', ?w)"
    using join_alone [OF ch f(3,1), of uid name] j(1) by simp
  have fr: "gID g' = gid" "no_deck g'" using join_frame [OF disjI2 [OF j(1)]] f(1,2) by (auto simp: fresh_cell_def no_deck_def)
  have kc: "kv ?w = kv (saved g' (unlocked gid w))" "clock ?w = clock w" by (simp_all add: join_recorded_def unlocked_def)
  have "at_rest gid cfg U ?w g'" using fresh_saved [OF fr(2,1) kc] r fr(2) j(4) f(4) u(1) by (auto simp: at_rest_def)
  moreover have "(\<forall>i. 0 \<le> i \<and> i < numSeats g \<and> i \<noteq> s \<longrightarrow> filled g i) \<longleftrightarrow> free_seats g' = {}"
    using j(3) by (auto simp: free_seats_def)
  then have "Status g' = (if free_seats g' = {} then PhaseBidding else PhaseWaiting)"
    using join_waiting(3) [OF inv ph j(1)] by simp
  moreover have "card (free_seats g) = Suc (card (free_seats g'))" using card_Suc_Diff1 [OF finite_free j(2)] j(3) by simp
  ultimately show thesis using run j(4,5) by (intro that [of g' ?w]) (simp_all add: join_recorded_def unlocked_def)
qed

section \<open>From an empty table to the scores\<close>

text \<open>Requests that are all answered with 200, each of which leaves one ledger row and one event.\<close>

definition all_well :: "'s server \<Rightarrow> (nat \<Rightarrow> choice) \<Rightarrow> nat \<Rightarrow> 's \<Rightarrow> (string list \<times> Request) list \<Rightarrow> world \<Rightarrow> world \<Rightarrow> bool" where
  "all_well srv ch k s rs w w' \<longleftrightarrow> (\<exists>resps. served srv ch k s rs w = (resps, w') \<and> (\<forall>resp \<in> set resps. code resp = 200)) \<and>
     length (moveRows w') = length (moveRows w) + length rs \<and> length (published w') = length (published w) + length rs"

lemma all_well_Nil: "all_well srv ch k s [] w w"
  by (simp add: all_well_def)

lemma all_well_Cons:
  assumes "serve srv ''POST'' path r s = (p, s')" "run (ch k) p w = (resp, w1)" "code resp = 200"
    "length (moveRows w1) = Suc (length (moveRows w))" "length (published w1) = Suc (length (published w))"
    "all_well srv ch (Suc k) s' rs w1 w'"
  shows "all_well srv ch k s ((path, r) # rs) w w'"
  using assms by (auto simp: all_well_def)

lemma deal_served:
  assumes k: "knows srv token U" and id: "gid \<noteq> []" and ch: "\<forall>k. ch_net (ch k) = Delivered"
    and "at_rest gid cfg U w g" "in_deal g"
  shows "\<exists>rs w' g'. all_well srv ch k s rs w w' \<and> length rs \<le> moves_left g \<and> at_rest gid cfg U w' g' \<and>
    Status g' = PhaseFinished \<and> ScoreHistory g' = ScoreHistory g @ [Scores g']"
  using assms(4,5)
proof (induction "moves_left g" arbitrary: k w g rule: less_induct)
  case less
  obtain r w1 g1 where m: "fst (serve srv ''POST'' [''games'', gid, ''move''] r s) = MoveHandler (srv_auth srv) (r\<lparr>PathID := gid\<rparr>)"
    "snd (serve srv ''POST'' [''games'', gid, ''move''] r s) = s"
    "run (ch k) (MoveHandler (srv_auth srv) (r\<lparr>PathID := gid\<rparr>)) w = (ok_json (OneGame (Some g1)), w1)"
    "at_rest gid cfg U w1 g1" "moves_left g1 < moves_left g" "Status g1 \<noteq> PhaseWaiting" "booked g g1"
    "length (moveRows w1) = Suc (length (moveRows w))" "length (published w1) = Suc (length (published w))"
    by (rule move_served [OF less.prems assms(1) id ch [THEN spec, of k]])
  have sv: "serve srv ''POST'' [''games'', gid, ''move''] r s = (MoveHandler (srv_auth srv) (r\<lparr>PathID := gid\<rparr>), s)"
    using m(1,2) by (simp add: prod_eq_iff)
  have one: "all_well srv ch k s (([''games'', gid, ''move''], r) # rs) w w'" if "all_well srv ch (Suc k) s rs w1 w'" for rs w'
    by (rule all_well_Cons [OF sv m(3) _ m(8,9) that]) (simp add: ok_json_def)
  have b: "Status g1 \<noteq> PhaseFinished \<and> books g1 = books g \<or>
      Status g1 = PhaseFinished \<and> ScoreHistory g1 = ScoreHistory g @ [Scores g1]"
    by (rule booked_in_deal [OF m(7)]) (use less.prems(2) in \<open>simp add: in_deal_def\<close>)
  show ?case
  proof (cases "Status g1 = PhaseFinished")
    case True
    then show ?thesis using one [OF all_well_Nil] m(4,5) b by (intro exI conjI) auto
  next
    case False
    then have "in_deal g1" "ScoreHistory g1 = ScoreHistory g" using m(6) b by (auto simp: in_deal_def books_def)
    with less.hyps [OF m(5,4), of "Suc k"] obtain rs w' g' where x: "all_well srv ch (Suc k) s rs w1 w'"
      "length rs \<le> moves_left g1" "at_rest gid cfg U w' g'" "Status g' = PhaseFinished"
      "ScoreHistory g' = ScoreHistory g @ [Scores g']" by metis
    show ?thesis by (intro exI conjI, rule one [OF x(1)]) (use x m(5) in auto)
  qed
qed

text \<open>The free seats of a waiting table are taken one after the other, and then the deal is played.\<close>

lemma table_served:
  assumes k: "knows srv token U" and id: "gid \<noteq> []" and ch: "\<forall>k. ch_net (ch k) = Delivered"
    and "at_rest gid cfg U w g" "Status g = PhaseWaiting" "distinct us" "set us \<subseteq> U" "set us \<inter> members g = {}"
      "card (free_seats g) = length us" "us \<noteq> []"
  shows "\<exists>rs w' g'. all_well srv ch k s rs w w' \<and> at_rest gid cfg U w' g' \<and>
    Status g' = PhaseFinished \<and> ScoreHistory g' = ScoreHistory g @ [Scores g']"
  using assms(4-)
proof (induction us arbitrary: k w g)
  case (Cons u us)
  let ?r = "post (token u) JNull"
  obtain name where au: "authenticate (srv_auth srv) (?r\<lparr>PathID := gid\<rparr>) = Inr \<lparr>UserID = u, Username = name\<rparr>"
    using authenticate_post [OF assms(1), of u] Cons.prems(4) by fastforce
  have u: "u \<in> U" "u \<notin> members g" using Cons.prems(4,5) by auto
  obtain w1 g1 where j: "run (ch k) (svc_JoinGame gid u name) w = (Inr g1, w1)" "at_rest gid cfg U w1 g1"
    "card (free_seats g) = Suc (card (free_seats g1))" "members g1 = insert u (members g)"
    "Status g1 = (if free_seats g1 = {} then PhaseBidding else PhaseWaiting)" "ScoreHistory g1 = ScoreHistory g"
    "length (moveRows w1) = Suc (length (moveRows w))" "length (published w1) = Suc (length (published w))"
    by (rule join_at_rest [OF Cons.prems(1,2) u ch [THEN spec, of k]])
  have sv: "serve srv ''POST'' [''games'', gid, ''join''] ?r s = (JoinGameHandler (srv_auth srv) (?r\<lparr>PathID := gid\<rparr>), s)"
    using id by (simp add: serve_def BodyLimitMiddleware_def mux_def path_routes_def run_route_def handler_func_def)
  have run: "run (ch k) (JoinGameHandler (srv_auth srv) (?r\<lparr>PathID := gid\<rparr>)) w = (ok_json (OneGame (Some g1)), w1)"
    by (simp add: JoinGameHandler_def au run_bindP j(1))
  have one: "all_well srv ch k s (([''games'', gid, ''join''], ?r) # rs) w w'" if "all_well srv ch (Suc k) s rs w1 w'" for rs w'
    by (rule all_well_Cons [OF sv run _ j(7,8) that]) (simp add: ok_json_def)
  have c: "card (free_seats g1) = length us" using j(3) Cons.prems(6) by simp
  have "\<exists>rs w' g'. all_well srv ch (Suc k) s rs w1 w' \<and> at_rest gid cfg U w' g' \<and>
    Status g' = PhaseFinished \<and> ScoreHistory g' = ScoreHistory g1 @ [Scores g']"
  proof (cases "us = []")
    case True
    then have "Status g1 = PhaseBidding" using c j(5) by simp
    then show ?thesis using deal_served [OF assms(1) id ch j(2), where k = "Suc k" and s = s] by (auto simp: in_deal_def)
  next
    case False
    then have "free_seats g1 \<noteq> {}" using c by auto
    then have "Status g1 = PhaseWaiting" using j(5) by simp
    from Cons.IH [OF j(2) this _ _ _ c False, where k = "Suc k"] show ?thesis using Cons.prems(3-5) j(4) by auto
  qed
  then obtain rs w' g' where x: "all_well srv ch (Suc k) s rs w1 w'" "at_rest gid cfg U w' g'" "Status g' = PhaseFinished"
    "ScoreHistory g' = ScoreHistory g @ [Scores g']" using j(6) by metis
  show ?case by (intro exI conjI, rule one [OF x(1)]) (use x in auto)
qed simp

text \<open>The creation of a table, and its first player.\<close>

lemma create_at_rest:
  fixes r :: Request
  assumes au: "authenticate authSvc r = Inr \<lparr>UserID = u, Username = name\<rparr>" and ch: "ch_net ch = Delivered"
    and un: "unused gid w" and u: "u \<in> U"
  obtains w' g where "run ch (CreateGameHandler authSvc gid r) w = (ok_json (OneGame (Some g)), w')"
    "at_rest gid (requested_config r) U w' g" "Status g = PhaseWaiting" "members g = {u}"
    "card (free_seats g) = nat (NumPlayers (requested_config r)) - 1" "ScoreHistory g = []"
    "length (moveRows w') = Suc (length (moveRows w))" "length (published w') = Suc (length (published w))"
proof -
  let ?cfg = "requested_config r"
  let ?g = "NewWithConfig (ch_env ch) gid ?cfg"
  let ?w = "saved ?g (with_row ?g w)"
  have cfg: "NumPlayers ?cfg = 4 \<or> NumPlayers ?cfg = 5" and fd: "FailDistribution ?cfg \<in> {FailEqualSplit, FailDeclarerAlone, FailTwoOneSplit}"
    using requested_config_fields [of r] by auto
  note c = create_alone [OF ch un, of ?cfg]
  have g: "Players ?g = replicate 5 None" "Config ?g = ?cfg" "Status ?g = PhaseWaiting" "ScoreHistory ?g = []" "no_deck ?g"
    using cfg fd by (auto simp: NewWithConfig_def Let_def emptyPlayers_def no_deck_def)
  have none: "player_at ?g i \<noteq> Inr p" for i p by (auto simp: player_at_Inr g(1))
  have mem: "members ?g = {}" using none by (simp add: members_def)
  have n: "numSeats ?g = NumPlayers ?cfg" using cfg g(2) by (auto simp: numSeats_def)
  have "free_seats ?g = {0..<NumPlayers ?cfg}" using none by (auto simp: free_seats_def filled_def n)
  then have card: "card (free_seats ?g) = nat (NumPlayers ?cfg)" by simp
  have "reachable True ?cfg False 0 ?g" by (rule reachable.new) (use cfg in \<open>simp add: config_ok_def\<close>)
  then have rest: "at_rest gid ?cfg U ?w ?g"
    using c(2,3) g(5) mem by (auto simp: at_rest_def GET_def)
  obtain w' g' where j: "run ch (svc_JoinGame gid u name) ?w = (Inr g', w')" "at_rest gid ?cfg U w' g'"
    "card (free_seats ?g) = Suc (card (free_seats g'))" "members g' = insert u (members ?g)"
    "Status g' = (if free_seats g' = {} then PhaseBidding else PhaseWaiting)" "ScoreHistory g' = ScoreHistory ?g"
    "length (moveRows w') = Suc (length (moveRows ?w))" "length (published w') = Suc (length (published ?w))"
    by (rule join_at_rest [OF rest g(3) u _ ch]) (simp add: mem)
  have "run ch (CreateGameHandler authSvc gid r) w = (ok_json (OneGame (Some g')), w')"
    by (simp add: CreateGameHandler_def au run_bindP c(1) j(1))
  moreover have "free_seats g' \<noteq> {}" using j(3) card cfg by auto
  ultimately show thesis using j card mem g(4)
    by (intro that [of g' w']) (simp_all add: with_row_def)
qed

text \<open>
  C9. A round can be played over HTTP. Take four or five users with tokens, as many as the body of the first request asks for. For
  all shuffles, clocks and lock tokens (with no message lost, and the limiter letting the creation pass) there is a list of
  POST requests, which depends on the cards, the first of them \<^verbatim>\<open>/games\<close>: the users create a table, take its seats and play a
  deal to its end, the server answers 200 to every request, and after them the stored game is finished with its scores in
  the history, under a free lock, and the ledger and the channel have one entry for every request.
\<close>

theorem round_over_http:
  assumes k: "knows srv token (set (u # us))" and d: "distinct (u # us)"
    and n: "length us = nat (NumPlayers (requested_config (post (token u) body))) - 1"
    and un: "unused (srv_uuid srv) w" "srv_uuid srv \<noteq> []" and ch: "\<forall>k. ch_net (ch k) = Delivered"
    and lim: "\<And>allow. srv_limit srv = Some allow \<Longrightarrow> Allowed (fst (allow (create_key u) (PerHour 10) s))"
  shows "\<exists>rs resps w' g.
    served srv ch 0 s (([''games''], post (token u) body) # rs) w = (resps, w') \<and> (\<forall>resp \<in> set resps. code resp = 200) \<and>
    fresh_cell (srv_uuid srv) w' g \<and> GET (clock w') (kv w') (lock_key (srv_uuid srv)) = None \<and>
    Status g = PhaseFinished \<and> ScoreHistory g = [Scores g] \<and> members g \<subseteq> set (u # us) \<and>
    length (moveRows w') = length (moveRows w) + Suc (length rs) \<and>
    length (published w') = length (published w) + Suc (length rs)"
proof -
  let ?r = "post (token u) body" and ?gid = "srv_uuid srv" and ?U = "set (u # us)"
  obtain name where au: "authenticate (srv_auth srv) ?r = Inr \<lparr>UserID = u, Username = name\<rparr>"
    using authenticate_post [OF k, of u] by fastforce
  let ?rc = "?r\<lparr>ContextClaims := Some \<lparr>UserID = u, Username = name\<rparr>\<rparr>"
  have au2: "authenticate (srv_auth srv) ?rc = Inr \<lparr>UserID = u, Username = name\<rparr>" by (simp add: authenticate_def)
  note path = serve_def BodyLimitMiddleware_def mux_def path_routes_def run_route_def RequireAuth_def RateLimitByUser_def
    handler_func_def au
  obtain s' where sv: "serve srv ''POST'' [''games''] ?r s = (CreateGameHandler (srv_auth srv) ?gid ?rc, s')"
  proof (cases "srv_limit srv")
    case None
    show thesis by (rule that [of s]) (simp add: path None)
  next
    case (Some allow)
    show thesis
      by (rule that [of "snd (allow (create_key u) (PerHour 10) s)"])
         (use lim [OF Some] in \<open>simp add: path Some create_key_def Let_def case_prod_unfold\<close>)
  qed
  have cfg: "requested_config ?rc = requested_config ?r" by (simp add: requested_config_def)
  have nn: "NumPlayers (requested_config ?r) = 4 \<or> NumPlayers (requested_config ?r) = 5"
    using requested_config_fields [of ?r] by auto
  obtain w1 g1 where c: "run (ch 0) (CreateGameHandler (srv_auth srv) ?gid ?rc) w = (ok_json (OneGame (Some g1)), w1)"
    "at_rest ?gid (requested_config ?rc) ?U w1 g1" "Status g1 = PhaseWaiting" "members g1 = {u}"
    "card (free_seats g1) = nat (NumPlayers (requested_config ?rc)) - 1" "ScoreHistory g1 = []"
    "length (moveRows w1) = Suc (length (moveRows w))" "length (published w1) = Suc (length (published w))"
    by (rule create_at_rest [OF au2 ch [THEN spec, of 0] un(1), of ?U]) simp_all
  have "card (free_seats g1) = length us" "us \<noteq> []" using c(5) n nn cfg by auto
  then obtain rs w' g where x: "all_well srv ch (Suc 0) s' rs w1 w'" "at_rest ?gid (requested_config ?rc) ?U w' g"
    "Status g = PhaseFinished" "ScoreHistory g = ScoreHistory g1 @ [Scores g]"
    using table_served [OF k un(2) ch c(2,3), where us = us and k = "Suc 0" and s = s'] d c(4) by auto
  have "all_well srv ch 0 s (([''games''], ?r) # rs) w w'"
    by (rule all_well_Cons [OF sv c(1) _ c(7,8) x(1)]) (simp add: ok_json_def)
  then show ?thesis using x(2-4) c(6) unfolding all_well_def at_rest_def by fastforce
qed

text \<open>Five users whose tokens are their names.\<close>

lemma round_over_http_witness:
  "\<exists>rs resps w g. served demo_server (\<lambda>_. demo_choice) 0 (\<lambda>_. None) (([''games''], post ''a'' JNull) # rs) demo_world = (resps, w) \<and>
     (\<forall>resp \<in> set resps. code resp = 200) \<and> fresh_cell ''g'' w g \<and> Status g = PhaseFinished \<and> ScoreHistory g = [Scores g]"
proof -
  let ?us = "[''b'', ''c'', ''d'', ''e'']"
  have p: "plain_token uid" if "uid \<in> set (''a'' # ?us)" for uid
    using that by (auto simp: plain_token_def is_space_def)
  have k: "knows demo_server (\<lambda>u. u) (set (''a'' # ?us))"
    unfolding knows_def by (rule exI [of _ "\<lambda>t. Inr \<lparr>UserID = t, Username = t\<rparr>"]) (use p in \<open>simp add: demo_server_def\<close>)
  have n: "length ?us = nat (NumPlayers (requested_config (post ''a'' JNull))) - 1"
    by (simp add: requested_config_def post_def dec_struct_def create_config_def DefaultConfig_def fail_dist_of_string_def Let_def)
  have u: "unused (srv_uuid demo_server) demo_world" "srv_uuid demo_server = ''g''" "srv_limit demo_server = None"
    by (simp_all add: unused_def demo_world_def demo_server_def)
  show ?thesis
    using round_over_http [OF k _ n u(1), of "\<lambda>_. demo_choice" "\<lambda>_. None"] u(2,3) by (auto simp: demo_choice_def)
qed

end
