(* ===== verification/Wire.thy ===== *)
theory Wire
  imports Codec Deployment Ledger
begin

text \<open>
  Every game that the rules can produce survives its JSON: cards and suits are the constants of the code, numbers fit
  64 bits, maps have one entry for each key, and scores stay within 640 points for each step of the
  table. So what \<^verbatim>\<open>LoadGame\<close> decodes from the document that \<^verbatim>\<open>SaveGame\<close> wrote is the game that was saved.
\<close>

section \<open>Cards, texts and numbers\<close>

lemma suit_proper_plain: "\<forall>t. s \<noteq> OtherSuit t \<Longrightarrow> suit_proper s"
  by (cases s) (simp_all add: suit_proper_def suit_of_string_def)

lemma empty_suit_proper [simp]: "suit_proper EmptySuit"
  by (simp add: suit_proper_def suit_of_string_def)

lemma ranked_suit_proper: "suitRank s \<noteq> None \<Longrightarrow> suit_proper s"
  by (rule suit_proper_plain) auto

lemma int64_small: "0 \<le> n \<Longrightarrow> n \<le> 2 ^ 62 \<Longrightarrow> int64 n"
  by (simp add: int64_def)

lemma go_rem_int64: "n = 4 \<or> n = 5 \<Longrightarrow> int64 (go_rem a n)"
proof -
  assume n: "n = 4 \<or> n = 5"
  then have "\<bar>go_rem a n\<bar> < 5" by (auto simp: go_rem_def abs_mult abs_sgn_eq)
  then show ?thesis by (auto simp: int64_def abs_less_iff)
qed

lemma seats_proper_iff: "seats_proper m \<longleftrightarrow> distinct (map fst m) \<and> (\<forall>k \<in> fst ` set m. int64 k)"
  by (auto simp: seats_proper_def)

lemma seats_proper_set [simp]: "seats_proper m \<Longrightarrow> int64 k \<Longrightarrow> seats_proper (gm_set k v m)"
  by (auto simp: seats_proper_iff distinct_update dom_map_of_conv_image_fst [symmetric] update_conv')

lemma next_bidder_int64:
  assumes ret: "next_bidder passed n t = Some r" and n: "n = 4 \<or> n = 5"
  shows "int64 r"
proof -
  have "n = 4 \<or> n = 5 \<longrightarrow> int64 r"
  proof (rule next_bidder.raw_induct [where P = "\<lambda>passed n t r. n = 4 \<or> n = 5 \<longrightarrow> int64 r", OF _ ret])
    fix f :: "(int, bool) gomap \<Rightarrow> int \<Rightarrow> int \<Rightarrow> int option" and passed n t r
    assume IH: "\<And>passed n t r. f passed n t = Some r \<Longrightarrow> n = 4 \<or> n = 5 \<longrightarrow> int64 r"
      and eq: "(let turn' = go_rem (t + 1) n in if \<not> gm_has passed turn' then Some turn' else f passed n turn') = Some r"
    show "n = 4 \<or> n = 5 \<longrightarrow> int64 r"
      using IH [of passed n "go_rem (t + 1) n" r] go_rem_int64 [of n "t + 1"] eq by (auto simp: Let_def split: if_splits)
  qed
  with n show ?thesis by blast
qed

section \<open>The invariant\<close>

definition wire_ok :: "Game \<Rightarrow> bool" where
  "wire_ok g \<longleftrightarrow>
     config_proper (Config g) \<and> list_all (pred_option player_proper) (Players g) \<and> list_all card_proper (Kitty g) \<and>
     int64 (CurrentTurn g) \<and> int64 (Dealer g) \<and> list_all bid_proper (Bids g) \<and> pred_option bid_proper (CurrentBid g) \<and>
     int64 (Declarer g) \<and> seats_proper (PassedPlayers g) \<and> pred_option bid_proper (Contract g) \<and>
     pred_option card_proper (PartnerCard g) \<and> int64 (PartnerSeat g) \<and> suit_proper (Trump g) \<and>
     list_all trick_proper (Tricks g) \<and> seats_proper (PlayAgainVotes g)"

lemma int64_consts [simp]: "int64 0" "int64 (-1)" by (simp_all add: int64_def)

lemma seats_proper_Nil [simp]: "seats_proper []" by (simp add: seats_proper_def)

definition dist_proper :: "FailDist \<Rightarrow> bool" where
  "dist_proper d \<longleftrightarrow> fail_dist_read (fail_dist_string d) = d"

lemma dist_proper_known: "d \<in> {FailEqualSplit, FailDeclarerAlone, FailTwoOneSplit} \<Longrightarrow> dist_proper d"
  by (auto simp: dist_proper_def fail_dist_read_def fail_dist_of_string_def fail_dist_string_def)

lemma config_proper_iff: "config_proper c \<longleftrightarrow> int64 (NumPlayers c) \<and> dist_proper (FailDistribution c)"
  by (simp add: config_proper_def dist_proper_def)

lemma wire_new:
  assumes "config_ok cfg" "dist_proper (FailDistribution cfg)"
  shows "wire_ok (NewWithConfig e gid cfg)"
proof -
  have "config_proper (Config (NewWithConfig e gid cfg))"
    using assms dist_proper_known [of FailEqualSplit]
    by (auto simp: NewWithConfig_def Let_def config_proper_iff config_ok_def int64_def)
  then show ?thesis by (simp add: wire_ok_def NewWithConfig_def Let_def emptyPlayers_def list_all_iff)
qed

lemma wire_player: "wire_ok g \<Longrightarrow> player_at g i = Inr p \<Longrightarrow> player_proper p"
proof -
  assume "wire_ok g" "player_at g i = Inr p"
  then have "list_all (pred_option player_proper) (Players g)" "Some p \<in> set (Players g)"
    by (auto simp: wire_ok_def player_at_Inr) (metis nat_less_iff nth_mem)
  then show ?thesis by (auto simp: list_all_iff)
qed

lemma wire_set_player: "wire_ok g \<Longrightarrow> player_proper p \<Longrightarrow> wire_ok (set_player g i p)"
proof -
  assume w: "wire_ok g" and p: "player_proper p"
  have "set ((Players g)[nat i := Some p]) \<subseteq> insert (Some p) (set (Players g))" by (rule set_update_subset_insert)
  then have "list_all (pred_option player_proper) ((Players g)[nat i := Some p])"
    using w p unfolding wire_ok_def list_all_iff by fastforce
  then show ?thesis using w by (simp add: wire_ok_def set_player_def)
qed

lemma hand_out_proper:
  "list_all (list_all card_proper) hs \<Longrightarrow> list_all (pred_option player_proper) ps \<Longrightarrow>
    list_all (pred_option player_proper) (hand_out ps hs)"
  by (induction ps hs rule: hand_out.induct) (auto simp: player_proper_def)

lemma list_all_take_drop: "list_all P xs \<Longrightarrow> list_all P (take n xs)" "list_all P xs \<Longrightarrow> list_all P (drop n xs)"
  by (auto simp: list_all_iff dest: in_set_takeD in_set_dropD)

lemma deal_hands_proper:
  "list_all P d \<Longrightarrow> list_all (list_all P) (fst (deal_hands n d)) \<and> list_all P (snd (deal_hands n d))"
proof (induction n arbitrary: d)
  case (Suc n)
  from Suc.IH [OF list_all_take_drop(2) [OF Suc.prems, of 10]] Suc.prems show ?case
    by (simp add: case_prod_beta list_all_take_drop(1))
qed simp

lemma Deal_proper: "list_all P d \<Longrightarrow> Deal d n = (hs, k) \<Longrightarrow> list_all (list_all P) hs \<and> list_all P k"
  using deal_hands_proper [of P d "nat n"]
  by (auto simp: Deal_def case_prod_beta Let_def list_all_take_drop(1) split: if_splits)

lemma wire_Start: "wire_ok g \<Longrightarrow> wire_ok (Start e g)"
proof -
  assume w: "wire_ok g"
  let ?d = "Shuffle (draws e) (NewDeckFor (numSeats g))"
  obtain hs k where d: "Deal ?d (numSeats g) = (hs, k)" by fastforce
  have "set ?d = set (NewDeckFor (numSeats g))" by (metis mset_Shuffle set_mset_mset)
  then have "list_all card_proper ?d" using deck_proper by (simp add: list_all_iff)
  from Deal_proper [OF this d] have k: "list_all (list_all card_proper) hs" "list_all card_proper k" by simp_all
  have "list_all (pred_option player_proper) (hand_out (Players g) hs)"
    by (rule hand_out_proper [OF k(1)]) (use w in \<open>simp add: wire_ok_def\<close>)
  then show ?thesis using w k(2) by (simp add: Start_def Let_def d wire_ok_def)
qed

section \<open>The operations\<close>

lemma wire_touch [simp]: "wire_ok (touch e g) = wire_ok g"
  by (simp add: wire_ok_def touch_def)

lemma wire_advance: "advanceToNextBidder g = Inr g' \<Longrightarrow> seats_ok g \<Longrightarrow> wire_ok g \<Longrightarrow> wire_ok g'"
  using next_bidder_int64 seats_range by (auto simp: advanceToNextBidder_def wire_ok_def split: if_splits option.splits)

lemma wire_settle: 
  assumes "settle_contract g = Inr g'" "wire_ok g"
  shows "wire_ok g'"
proof -
  let ?k = "\<lambda>b. g\<lparr>Status := PhaseExchanging, Contract := CurrentBid g, CurrentTurn := Declarer g, Trump := bSuit b\<rparr>"
  obtain b p where b: "CurrentBid g = Some b" "player_at (?k b) (Declarer g) = Inr p"
    "g' = set_player (?k b) (Declarer g) (p\<lparr>Hand := Hand p @ Kitty g\<rparr>)\<lparr>Kitty := []\<rparr>"
    using assms(1) by (auto simp: settle_contract_def Let_def split: option.splits)
  have w: "wire_ok (?k b)" using assms(2) b(1) by (simp add: wire_ok_def bid_proper_def)
  have "player_proper (p\<lparr>Hand := Hand p @ Kitty g\<rparr>)"
    using wire_player [OF w b(2)] assms(2) by (simp add: player_proper_def wire_ok_def)
  from wire_set_player [OF w this] show ?thesis by (simp add: b(3) wire_ok_def)
qed

lemma wire_bid:
  assumes "apply_bid g p b = Inr g'" "wire_ok g" "seats_ok g" "player_proper p" "bid_proper b"
  shows "wire_ok g'"
proof -
  let ?b = "b\<lparr>bPlayerID := pID p\<rparr>"
  let ?k = "g\<lparr>CurrentBid := Some ?b, Declarer := Seat p, Bids := Bids g @ [?b]\<rparr>"
  have "wire_ok ?k" using assms(2,4,5) by (simp add: wire_ok_def bid_proper_def player_proper_def)
  moreover have "seats_ok ?k" using assms(3) seats_ok_cong [of ?k g] by simp
  moreover have "settle_contract ?k = Inr g' \<or> advanceToNextBidder ?k = Inr g'"
    using assms(1) by (auto simp: apply_bid_def Let_def split: if_splits)
  ultimately show ?thesis using wire_settle wire_advance by blast
qed

lemma wire_throw_in: "wire_ok g \<Longrightarrow> wire_ok (throw_in e g)"
  unfolding throw_in_def by (rule wire_Start) (simp add: wire_ok_def)

lemma wire_pass:
  assumes "apply_pass e g p = Inr g'" "wire_ok g" "seats_ok g" "player_proper p"
  shows "wire_ok g'"
proof -
  let ?k = "g\<lparr>PassedPlayers := gm_set (Seat p) True (PassedPlayers g), Bids := Bids g @ [passBid p]\<rparr>"
  obtain g1 where g1: "advanceToNextBidder ?k = Inr g1"
    and r: "settle_contract g1 = Inr g' \<or> g' = throw_in e g1 \<or> g' = g1"
    using assms(1) by (auto simp: apply_pass_def split: if_splits)
  have "wire_ok ?k" using assms(2,4) by (simp add: wire_ok_def passBid_def bid_proper_def player_proper_def)
  moreover have "seats_ok ?k" using assms(3) seats_ok_cong [of ?k g] by simp
  ultimately have "wire_ok g1" using wire_advance [OF g1] by blast
  then show ?thesis using r wire_settle wire_throw_in by blast
qed

lemma wire_discard:
  assumes "wire_ok g" "player_proper p"
  shows "wire_ok (apply_discard g i p cards)"
proof -
  let ?p = "p\<lparr>Hand := filter (\<lambda>c. c \<notin> set cards) (Hand p),
    Points := Points p @ filter (\<lambda>c. c \<in> set cards \<and> IsPointCard c) (Hand p)\<rparr>"
  have "player_proper ?p" using assms(2) by (auto simp: player_proper_def list_all_iff)
  from wire_set_player [OF assms(1) this, of i] show ?thesis by (simp add: apply_discard_def Let_def wire_ok_def)
qed

lemma newTrick_proper [simp]: "trick_proper newTrick"
  by (simp add: trick_proper_def newTrick_def)

lemma wire_call:
  assumes "wire_ok g" "\<And>c. cpCard m = Some c \<Longrightarrow> card_proper c"
  shows "wire_ok (apply_call_partner g m)"
  using assms by (cases "cpCard m") (auto simp: apply_call_partner_def wire_ok_def)

lemma wire_reset: "wire_ok g \<Longrightarrow> seats_ok g \<Longrightarrow> wire_ok (resetForNextRound e g)"
proof -
  assume w: "wire_ok g" and s: "seats_ok g"
  let ?k = "g\<lparr>PlayAgainVotes := [], Tricks := [], Bids := [], CurrentBid := None,
    Contract := None, Declarer := -1, PartnerCard := None, PartnerSeat := -1,
    PassedPlayers := [], Scores := [], IsNoFriend := False,
    Dealer := go_rem (Dealer g + 1) (NumPlayers (Config g)), Players := clear_points (Players g)\<rparr>"
  have "list_all (pred_option player_proper) (clear_points (Players g))"
    using w by (auto simp: wire_ok_def clear_points_def list_all_iff player_proper_def option.pred_map o_def
        elim!: option.pred_mono_strong)
  moreover have "int64 (go_rem (Dealer g + 1) (NumPlayers (Config g)))"
    by (rule go_rem_int64) (use s in \<open>auto simp: seats_ok_def\<close>)
  ultimately have "wire_ok ?k" using w by (simp add: wire_ok_def)
  from wire_Start [OF this] show ?thesis by (simp add: resetForNextRound_def Let_def wire_ok_def)
qed

lemma wire_again: "wire_ok g \<Longrightarrow> seats_ok g \<Longrightarrow> player_proper p \<Longrightarrow> wire_ok (apply_play_again e g p)"
proof -
  assume w: "wire_ok g" and s: "seats_ok g" and p: "player_proper p"
  let ?k = "g\<lparr>PlayAgainVotes := gm_set (Seat p) True (PlayAgainVotes g)\<rparr>"
  have "wire_ok ?k" using w p by (simp add: wire_ok_def player_proper_def)
  moreover have "seats_ok ?k" using s seats_ok_cong [of ?k g] by simp
  ultimately show ?thesis using wire_reset by (simp add: apply_play_again_def Let_def)
qed

lemma wire_change_config: "wire_ok g \<Longrightarrow> wire_ok (apply_change_config g pl)"
  by (auto simp: apply_change_config_def Let_def wire_ok_def config_proper_iff int64_def)


lemma lay_card_proper:
  assumes "trick_proper t" "player_proper p" "card_proper (pmCard m)"
    and "tCards t = [] \<Longrightarrow> Rank (pmCard m) = Joker \<Longrightarrow> suit_proper (CalledSuit m)"
  shows "trick_proper (lay_card g t p m)"
  using assms by (auto simp: lay_card_def Let_def trick_proper_def played_proper_def player_proper_def card_proper_def)

lemma hand_holder_proper: "list_all (pred_option player_proper) ps \<Longrightarrow> hand_holder c ps = Some s \<Longrightarrow> int64 s"
  by (induction c ps rule: hand_holder.induct) (auto simp: player_proper_def split: if_splits)

lemma played_by_proper: "list_all played_proper xs \<Longrightarrow> played_by c xs = Some s \<Longrightarrow> int64 s"
  by (induction c xs rule: played_by.induct) (auto simp: played_proper_def split: if_splits)

lemma friendSeat_int64: "wire_ok g \<Longrightarrow> int64 (friendSeat g)"
proof -
  assume w: "wire_ok g"
  then have "list_all played_proper (concat (map tCards (Tricks g)))"
    by (auto simp: wire_ok_def trick_proper_def list_all_iff)
  then show ?thesis using w hand_holder_proper played_by_proper
    by (auto simp: friendSeat_def wire_ok_def split: option.splits)
qed

lemma resolve_proper:
  assumes "trick_proper t" "ResolveTrick g t = Inr (w, points)"
  shows "int64 w" "list_all card_proper points"
proof -
  let ?l = "resolve_loop (\<lambda>c. CalculatePower g c t (int (length (Tricks g)))) (tCards t) 0 0 (-1) []"
  have r: "fst ?l < length (tCards t)" "w = pcSeat (tCards t ! fst ?l)" "points = snd ?l"
    using assms(2) by (auto simp: ResolveTrick_def Let_def case_prod_beta split: if_splits)
  then show "int64 w" using assms(1) by (simp add: trick_proper_def list_all_length played_proper_def)
  have "points = filter IsPointCard (map pcCard (tCards t))" using r(3) by (simp add: trick.resolve_loop_points)
  then show "list_all card_proper points" using assms(1) by (auto simp: trick_proper_def list_all_iff played_proper_def)
qed

lemma wire_finish_round: "wire_ok g \<Longrightarrow> wire_ok (finish_round g)"
  by (simp add: finish_round_def Let_def wire_ok_def)

lemma wire_last: "wire_ok g \<Longrightarrow> Tricks g \<noteq> [] \<Longrightarrow> trick_proper (last (Tricks g))"
  by (simp add: wire_ok_def list_all_iff)

lemma wire_set_last: "wire_ok g \<Longrightarrow> trick_proper t \<Longrightarrow> wire_ok (g\<lparr>Tricks := butlast (Tricks g) @ [t]\<rparr>)"
  by (auto simp: wire_ok_def list_all_iff dest: in_set_butlastD)

text \<open>The two states between the winner of a trick and the end of the trick.\<close>

lemma finish_trick_shape:
  fixes g :: Game
  assumes "finish_trick g = Inr g'"
  defines "won s \<equiv> g\<lparr>Tricks := butlast (Tricks g) @ [last (Tricks g)\<lparr>Winner := s\<rparr>]\<rparr>"
  obtains s points k p where "ResolveTrick g (last (Tricks g)) = Inr (s, points)"
    "k = won s \<or> k = won s\<lparr>PartnerSeat := friendSeat (won s)\<rparr>" "player_at k s = Inr p"
    "g' = (let l = (set_player k s (p\<lparr>Points := Points p @ points\<rparr>))\<lparr>CurrentTurn := s\<rparr>
      in if length (Tricks l) = 10 then finish_round l else l\<lparr>Tricks := Tricks l @ [newTrick]\<rparr>)"
proof -
  obtain s points where r: "ResolveTrick g (last (Tricks g)) = Inr (s, points)"
    using assms(1) by (cases "ResolveTrick g (last (Tricks g))") (auto simp: finish_trick_def Let_def)
  define k where "k = (if PartnerSeat (won s) < 0 \<and> friendSeat (won s) \<ge> 0 \<and> s = friendSeat (won s)
      \<and> trickRevealsFriend (last (Tricks (won s))) (friendSeat (won s))
      then won s\<lparr>PartnerSeat := friendSeat (won s)\<rparr> else won s)"
  let ?fin = "\<lambda>l. if length (Tricks l) = 10 then finish_round l else l\<lparr>Tricks := Tricks l @ [newTrick]\<rparr>"
  have f: "finish_trick g = bindE (player_at k s)
      (\<lambda>p. Inr (?fin ((set_player k s (p\<lparr>Points := Points p @ points\<rparr>))\<lparr>CurrentTurn := s\<rparr>)))"
    by (simp only: finish_trick_def Let_def r bindE_simps prod.case k_def won_def)
  then obtain p where p: "player_at k s = Inr p"
    "g' = ?fin ((set_player k s (p\<lparr>Points := Points p @ points\<rparr>))\<lparr>CurrentTurn := s\<rparr>)"
    using assms(1) by (cases "player_at k s") auto
  have "k = won s \<or> k = won s\<lparr>PartnerSeat := friendSeat (won s)\<rparr>" by (simp only: k_def split: if_split) blast
  from that [OF r this p(1)] p(2) show thesis by (simp only: Let_def)
qed

lemma wire_finish_trick:
  assumes "finish_trick g = Inr g'" "wire_ok g" "Tricks g \<noteq> []"
  shows "wire_ok g'"
  using assms(1)
proof (cases rule: finish_trick_shape)
  case (1 s points k p)
  note t = wire_last [OF assms(2,3)] and rp = resolve_proper [OF wire_last [OF assms(2,3)] 1(1)]
  let ?g1 = "g\<lparr>Tricks := butlast (Tricks g) @ [last (Tricks g)\<lparr>Winner := s\<rparr>]\<rparr>"
  have w1: "wire_ok ?g1" by (rule wire_set_last [OF assms(2)]) (use t rp(1) in \<open>simp add: trick_proper_def\<close>)
  have "wire_ok (?g1\<lparr>PartnerSeat := friendSeat ?g1\<rparr>)" using w1 friendSeat_int64 [OF w1] by (simp add: wire_ok_def)
  then have w2: "wire_ok k" using w1 1(2) by blast
  have "player_proper (p\<lparr>Points := Points p @ points\<rparr>)"
    using wire_player [OF w2 1(3)] rp(2) by (simp add: player_proper_def)
  then have w3: "wire_ok ((set_player k s (p\<lparr>Points := Points p @ points\<rparr>))\<lparr>CurrentTurn := s\<rparr>)"
    using wire_set_player [OF w2, of _ s] rp(1) by (simp add: wire_ok_def)
  show ?thesis using w3 wire_finish_round [OF w3] by (simp add: 1(4) Let_def wire_ok_def)
qed

lemma wire_play:
  assumes "apply_play_card g i p m = Inr g'" "wire_ok g" "seats_ok g" "player_proper p" "pmCard m \<in> set (Hand p)"
    and lead: "tCards (last (Tricks g)) = [] \<Longrightarrow> check_lead g p m = None"
  shows "wire_ok g'"
proof -
  let ?g1 = "set_player g i (p\<lparr>Hand := filter (\<lambda>h. h \<noteq> pmCard m) (Hand p)\<rparr>)"
  let ?t = "lay_card ?g1 (last (Tricks ?g1)) p m"
  let ?g2 = "?g1\<lparr>Tricks := butlast (Tricks ?g1) @ [?t], CurrentTurn := go_rem (CurrentTurn ?g1 + 1) (numSeats ?g1)\<rparr>"
  have ne: "Tricks g \<noteq> []" and g': "finish_trick ?g2 = Inr g' \<or> g' = ?g2"
    using assms(1) by (auto simp: apply_play_card_def Let_def set_player_def split: if_splits)
  have "player_proper (p\<lparr>Hand := filter (\<lambda>h. h \<noteq> pmCard m) (Hand p)\<rparr>)"
    using assms(4) by (auto simp: player_proper_def list_all_iff)
  then have w1: "wire_ok ?g1" by (rule wire_set_player [OF assms(2)])
  have "trick_proper ?t"
  proof (rule lay_card_proper [OF _ assms(4)])
    show "trick_proper (last (Tricks ?g1))" using wire_last [OF assms(2) ne] by (simp add: set_player_def)
    show "card_proper (pmCard m)" using assms(4,5) by (simp add: player_proper_def list_all_iff)
    assume "tCards (last (Tricks ?g1)) = []" "Rank (pmCard m) = Joker"
    then have "suitRank (CalledSuit m) \<noteq> None" using lead by (auto simp: check_lead_def Let_def set_player_def split: if_splits)
    then show "suit_proper (CalledSuit m)" by (rule ranked_suit_proper)
  qed
  from wire_set_last [OF w1 this] have "wire_ok ?g2"
    using go_rem_int64 [of "numSeats g"] seats_range [OF assms(3)] by (auto simp: wire_ok_def set_player_def numSeats_def)
  then show ?thesis using g' wire_finish_trick by auto
qed

section \<open>Joining\<close>

lemma wire_join:
  assumes "join_table e g uid name = Seated s g' \<or> join_table e g uid name = Rejoined g'" "wire_ok g" "seats_ok g"
  shows "wire_ok g'"
proof (cases "find_player 0 (Players g) uid")
  case (Some i)
  then obtain p where p: "Players g ! nat i = Some p" "g' = touch e (set_player g i (p\<lparr>pName := name, IsConnected := True\<rparr>))"
    using assms(1) by (auto simp: join_table_def split: option.splits)
  have "player_at g i = Inr p" using find_player_Some [OF Some] p(1) by (auto simp: player_at_def)
  from wire_player [OF assms(2) this] have "player_proper (p\<lparr>pName := name, IsConnected := True\<rparr>)"
    by (simp add: player_proper_def)
  then show ?thesis using wire_set_player [OF assms(2)] by (simp add: p(2))
next
  case None
  then obtain seat where f: "first_free 0 (take (nat (numSeats g)) (Players g)) = Some seat"
    and g': "g' = (let k = touch e (set_player g seat (newPlayer uid name seat)) in if IsFull k then Start e k else k)"
    using assms(1) by (auto simp: join_table_def Let_def split: option.splits)
  have "0 \<le> seat \<and> seat < 5" using first_free_Some [OF f] assms(3) by (auto simp: seats_ok_def)
  then have "player_proper (newPlayer uid name seat)" by (simp add: player_proper_def newPlayer_def int64_def)
  then have "wire_ok (touch e (set_player g seat (newPlayer uid name seat)))" using wire_set_player [OF assms(2)] by simp
  then show ?thesis using wire_Start by (simp add: g' Let_def)
qed


section \<open>Every move\<close>

lemma bid_ok_proper: "bid_ok g b \<Longrightarrow> bid_proper b"
proof -
  assume b: "bid_ok g b"
  have "int64 (bPoints b)" using b minBidPoints_pos [of g] by (auto simp: bid_ok_def int64_def)
  moreover have "suit_proper (bSuit b)"
    using b ranked_suit_proper suit_proper_plain [of NoneSuit] by (simp add: bid_ok_def split: if_splits)
  ultimately show ?thesis by (simp add: bid_proper_def)
qed

lemma round_seats: "round_inv h g \<Longrightarrow> seats_ok g"
  by (cases "Status g") (simp_all add: round_inv_def waiting_inv_def bidding_inv_def deal_inv_def exchanging_inv_def
      calling_inv_def playing_inv_def playing_core_def finished_inv_def table_ok_def)

lemma wire_move:
  assumes inv: "round_inv h g" and w: "wire_ok g"
    and v: "ValidateMove g uid mt pl = None" and a: "ApplyMove e g uid mt pl = Inr g'"
  shows "wire_ok g'"
proof -
  obtain i p where p: "player_at g i = Inr p" "resolve_pointer g uid = Inr (i, p)" by (rule ValidateMove_player [OF v])
  note d = ValidateMove_dispatch [OF v p(2)] and pp = wire_player [OF w p(1)]
  have s: "seats_ok g" by (rule round_seats [OF inv])
  show ?thesis
  proof (cases mt)
    case MoveBid
    then obtain b where b: "pl = PBid b" "bid_ok g b" "Status g = PhaseBidding" using validateBid_accept d(1) by metis
    then obtain k where "apply_bid g p b = Inr k" "g' = touch e k"
      using a p(2) MoveBid by (auto simp: ApplyMove_def asBid_def)
    then show ?thesis using wire_bid [OF _ w s pp bid_ok_proper [OF b(2)]] by simp
  next
    case MovePass
    then have "Status g = PhaseBidding" using accepted_phase(1) [OF v] by simp
    then obtain k where "apply_pass e g p = Inr k" "g' = touch e k"
      using a p(2) MovePass by (auto simp: ApplyMove_def)
    then show ?thesis using wire_pass [OF _ w s pp] by simp
  next
    case MoveDiscard
    then have "Status g = PhaseExchanging" using accepted_phase(2) [OF v] by simp
    then obtain cards where "g' = touch e (apply_discard g i p cards)"
      using a p(2) MoveDiscard by (auto simp: ApplyMove_def)
    then show ?thesis using wire_discard [OF w pp] by simp
  next
    case MoveCallPartner
    then have ph: "Status g = PhaseCalling" using accepted_phase(3) [OF v] by simp
    then have c: "calling_inv h g" using inv by (simp add: round_inv_def)
    obtain m where m: "\<And>c. cpCard m = Some c \<Longrightarrow> c \<in> set NewDeck"
      "ApplyMove e g uid MoveCallPartner pl = Inr (touch e (apply_call_partner g m))"
      using accepted_call [OF c v [unfolded MoveCallPartner], of e] by metis
    have "wire_ok (apply_call_partner g m)"
      by (rule wire_call [OF w]) (use m(1) deck_proper in \<open>simp add: NewDeck_def\<close>)
    moreover have "g' = touch e (apply_call_partner g m)" using a m(2) MoveCallPartner by simp
    ultimately show ?thesis by (simp only: wire_touch)
  next
    case MovePlayCard
    obtain m where m: "asPlayCardMove pl = Some m" "Status g = PhasePlaying" "pmCard m \<in> set (Hand p)"
      "if tCards (last (Tricks g)) = [] then check_lead g p m = None else check_follow g p (last (Tricks g)) m = None"
      by (rule validatePlayCard_accept [OF d(5) [OF MovePlayCard]])
    then obtain k where k: "apply_play_card g i p m = Inr k" "g' = touch e k"
      using a p(2) MovePlayCard by (auto simp: ApplyMove_def asPlay_def)
    have "wire_ok k" by (rule wire_play [OF k(1) w s pp m(3)]) (use m(4) in simp)
    then show ?thesis using k(2) by simp
  next
    case MovePlayAgain
    then have "g' = touch e (apply_play_again e g p)" using a p(2) d(6) by (simp add: ApplyMove_def)
    then show ?thesis using wire_again [OF w s pp] by simp
  next
    case MoveChangeConfig
    then have "g' = touch e (apply_change_config g pl)" using a d(6) by (simp add: ApplyMove_def)
    then show ?thesis using wire_change_config [OF w] by simp
  next
    case (OtherMove x)
    then show ?thesis using d(7) by blast
  qed
qed

section \<open>The books fit\<close>

definition fine :: "int \<Rightarrow> (string, int) gomap \<Rightarrow> bool" where
  "fine N m \<longleftrightarrow> distinct (map fst m) \<and> (\<forall>n \<in> snd ` set m. \<bar>n\<bar> \<le> N)"

lemma fine_proper: "fine N m \<Longrightarrow> N < 2 ^ 63 \<Longrightarrow> scores_proper m"
  by (force simp: fine_def scores_proper_def int64_def abs_le_iff)

lemma fine_mono: "fine N m \<Longrightarrow> N \<le> M \<Longrightarrow> fine M m"
  by (force simp: fine_def)

lemma fine_get: "fine N m \<Longrightarrow> 0 \<le> N \<Longrightarrow> \<bar>gm_get m k 0\<bar> \<le> N"
  by (force simp: fine_def gm_get_def split: option.split dest: map_of_SomeD)

lemma fine_total:
  assumes "fine N totals" "fine M scores" "0 \<le> N" "0 \<le> M"
  shows "fine (N + M) (add_scores totals scores)"
proof -
  have k: "distinct (map fst (add_scores t sc))" if "distinct (map fst t)" for t and sc :: "(string, int) gomap"
    using that by (induction sc arbitrary: t) (auto simp: add_scores_def distinct_update split: prod.splits)
  have "\<bar>n\<bar> \<le> N + M" if "(q, n) \<in> set (add_scores totals scores)" for q n
  proof -
    have "distinct (map fst (add_scores totals scores))" using k assms(1) by (simp add: fine_def)
    then have "gm_get (add_scores totals scores) q 0 = n" using that by (simp add: gm_get_def)
    moreover have "gm_get (add_scores totals scores) q 0 = gm_get totals q 0 + gm_get scores q 0"
      using assms(2) by (intro add_scores_get) (simp add: fine_def)
    ultimately show ?thesis using fine_get [OF assms(1,3), of q] fine_get [OF assms(2,4), of q] by simp
  qed
  then show ?thesis using k assms(1) by (auto simp: fine_def)
qed

definition books_fine :: "nat \<Rightarrow> Game \<Rightarrow> bool" where
  "books_fine n g \<longleftrightarrow> fine 640 (Scores g) \<and> fine (640 * int n) (TotalScores g) \<and> list_all (fine 640) (ScoreHistory g)"

lemma finish_round_fine:
  assumes "table_ok k" "contract_ok k" "size (all_points k) \<le> 20"
  shows "fine 640 (Scores (finish_round k))"
proof -
  obtain b where "Contract k = Some b" using assms(2) by (auto simp: contract_ok_def)
  from round_scores(2) [OF table_seats [OF assms(1)] this] round_bounded [OF assms] show ?thesis by (auto simp: fine_def)
qed

text \<open>The scores of the round stay, are cleared, or are those of the round that ends.\<close>

definition score_step :: "Game \<Rightarrow> Game \<Rightarrow> bool" where
  "score_step g g' \<longleftrightarrow> Scores g' = Scores g \<or> Scores g' = []"

lemma score_settle: "settle_contract g = Inr g' \<Longrightarrow> Scores g' = Scores g"
  by (auto simp: settle_contract_def Let_def set_player_def split: option.splits)

lemma score_advance: "advanceToNextBidder g = Inr g' \<Longrightarrow> Scores g' = Scores g"
  by (auto simp: advanceToNextBidder_def split: if_splits option.splits)

lemma score_Start [simp]: "Scores (Start e g) = Scores g"
  by (simp add: Start_def Let_def case_prod_beta)

lemma score_bid: "apply_bid g p b = Inr g' \<Longrightarrow> Scores g' = Scores g"
  by (auto simp: apply_bid_def Let_def split: if_splits dest!: score_settle score_advance)

lemma score_pass: "apply_pass e g p = Inr g' \<Longrightarrow> Scores g' = Scores g"
  by (auto simp: apply_pass_def throw_in_def split: if_splits dest!: score_settle score_advance)

lemma score_again: "score_step g (apply_play_again e g p)"
  by (simp add: score_step_def apply_play_again_def resetForNextRound_def Let_def)

lemma score_finish_trick: "finish_trick g = Inr g' \<Longrightarrow> Scores g' = Scores g \<or> Status g' = PhaseFinished"
  by (erule finish_trick_shape) (auto simp: Let_def set_player_def finish_round_def)

lemma score_play: "apply_play_card g i p m = Inr g' \<Longrightarrow> Scores g' = Scores g \<or> Status g' = PhaseFinished"
  by (auto simp: apply_play_card_def Let_def set_player_def split: if_splits dest!: score_finish_trick)

lemma score_simps:
  "Scores (touch e g) = Scores g" "Status (touch e g) = Status g" "Scores (apply_discard g i p cards) = Scores g"
  "Scores (apply_call_partner g m) = Scores g" "Scores (apply_change_config g pl) = Scores g"
  by (simp_all add: touch_def apply_discard_def set_player_def apply_call_partner_def apply_change_config_def Let_def)

lemma score_move:
  assumes "ApplyMove e g uid mt pl = Inr g'"
  shows "score_step g g' \<or> Status g \<noteq> PhaseFinished \<and> Status g' = PhaseFinished"
proof (cases "Status g = PhaseFinished")
  case True
  have "score_step g (touch e k) = score_step g k" "score_step g (apply_change_config g pl)" for k
    by (simp_all add: score_step_def score_simps)
  then show ?thesis using assms True score_again by (cases mt) (auto simp: ApplyMove_def)
next
  case False
  then obtain k where "g' = touch e k" "Scores k = Scores g \<or> Status k = PhaseFinished"
    using assms
    by (cases mt) (auto simp: ApplyMove_def score_simps dest: score_bid score_pass score_play)
  then show ?thesis using False by (auto simp: score_step_def score_simps)
qed


section \<open>Every reachable table\<close>

lemma join_scores:
  "join_table e g uid name = Rejoined g' \<or> join_table e g uid name = Seated s g' \<Longrightarrow> Scores g' = Scores g"
  by (auto simp: join_table_def Let_def touch_def set_player_def split: option.splits if_splits)

lemma books_fine_kept: "books_fine n g \<Longrightarrow> books g' = books g \<Longrightarrow> score_step g g' \<Longrightarrow> books_fine (Suc n) g'"
  by (auto simp: books_fine_def books_def score_step_def fine_def)

lemma books_fine_move:
  assumes inv: "round_inv h g" and b: "books_fine n g"
    and v: "ValidateMove g uid mt pl = None" "h \<longrightarrow> careful mt pl" and a: "ApplyMove e g uid mt pl = Inr g'"
  shows "books_fine (Suc n) g'"
proof -
  have bk: "booked g g'" using accepted_move [OF inv v, of e] a by (auto simp: moves_to_def)
  show ?thesis
  proof (cases "\<exists>k. table_ok k \<and> contract_ok k \<and> size (all_points k) \<le> 20 \<and> books k = books g \<and>
      books g' = books (finish_round k) \<and> Scores g' = Scores (finish_round k)")
    case True
    then obtain k where k: "table_ok k" "contract_ok k" "size (all_points k) \<le> 20" "books k = books g"
      "books g' = books (finish_round k)" "Scores g' = Scores (finish_round k)" by blast
    have f: "fine 640 (Scores (finish_round k))" by (rule finish_round_fine [OF k(1-3)])
    have "TotalScores g' = add_scores (TotalScores g) (Scores g')" "ScoreHistory g' = ScoreHistory g @ [Scores g']"
      using k(4-6) by (simp_all add: books_def finish_round_def Let_def)
    moreover have "fine (640 * int n + 640) (add_scores (TotalScores g) (Scores g'))"
      by (rule fine_total) (use b f k(6) in \<open>simp_all add: books_fine_def\<close>)
    ultimately show ?thesis using b f k(6) by (simp add: books_fine_def algebra_simps)
  next
    case False
    then have "books g' = books g" "\<not> (Status g \<noteq> PhaseFinished \<and> Status g' = PhaseFinished)"
      using bk unfolding booked_def by blast+
    moreover from this(2) have "score_step g g'" using score_move [OF a] by blast
    ultimately show ?thesis using books_fine_kept [OF b] by blast
  qed
qed

lemma reachable_wire:
  assumes "reachable h cfg False n g" "dist_proper (FailDistribution cfg)"
  shows "wire_ok g \<and> books_fine n g"
  using assms(1)
proof (induction rule: reachable_legal_induct)
  case (new e gid)
  have "books_fine 0 (NewWithConfig e gid cfg)" by (simp add: books_fine_def fine_def NewWithConfig_def Let_def)
  then show ?case using wire_new [OF new assms(2)] by blast
next
  case (step n g g')
  have inv: "round_inv h g" by (rule reachable_inv [OF step.hyps(1)])
  have w: "wire_ok g" and b: "books_fine n g" using step.IH by auto
  have j: "wire_ok g' \<and> books_fine (Suc n) g'"
    if "join_table e g uid name = Seated s g' \<or> join_table e g uid name = Rejoined g'" for e uid name s
  proof -
    have "books g' = books g" "score_step g g'" using that join_books join_scores unfolding score_step_def by metis+
    then show ?thesis using wire_join [OF that w round_seats [OF inv]] books_fine_kept [OF b] by blast
  qed
  from step.hyps(2) show ?case
  proof cases
    case (move uid mt pl e)
    then show ?thesis using wire_move [OF inv w] books_fine_move [OF inv b] by blast
  qed (use j in blast)+
qed

lemma reachable_codable:
  assumes "reachable h cfg False n g" "dist_proper (FailDistribution cfg)" "n < 2 ^ 53"
    and t: "parse (time_text (CreatedAt g)) = Some (CreatedAt g)" "parse (time_text (UpdatedAt g)) = Some (UpdatedAt g)"
  shows "codable time_text parse g"
proof -
  have w: "wire_ok g" and b: "books_fine n g" using reachable_wire [OF assms(1,2)] by auto
  have "640 * int n < 2 ^ 63" using assms(3) by simp
  moreover have "fine (640 * int n) (TotalScores g)" using b by (simp add: books_fine_def)
  ultimately have "scores_proper (TotalScores g)" by (rule fine_proper [rotated])
  moreover have "scores_proper (Scores g)" "list_all scores_proper (ScoreHistory g)"
    using b fine_proper [of 640] by (auto simp: books_fine_def list_all_iff)
  moreover have "length (Players g) = 5" using round_seats reachable_inv [OF assms(1)] by (auto simp: seats_ok_def)
  ultimately show ?thesis using w t by (simp add: codable_def wire_ok_def)
qed


section \<open>Every stored game\<close>

lemma served_json:
  assumes "game_history gid H" "length H < 2 ^ 53" "\<forall>k \<in> set H. not_widened k" "g \<in> set H"
    and t: "parse (time_text (CreatedAt g)) = Some (CreatedAt g)" "parse (time_text (UpdatedAt g)) = Some (UpdatedAt g)"
  shows "dec_game parse (enc_game time_text g) = Some g"
proof -
  obtain i where i: "i < length H" "g = H ! i" using assms(4) by (metis in_set_conv_nth)
  have "H \<noteq> []" using assms(4) by auto
  from history_reachable [OF assms(1,3) this] obtain cfg where c: "offered cfg" "reachable False cfg False i g" using i by metis
  have "dist_proper (FailDistribution cfg)" using c(1) dist_proper_known by (simp add: offered_def)
  from reachable_codable [OF c(2) this _ t] have "codable time_text parse g" using i(1) assms(2) by simp
  moreover have "g\<lparr>Deck := []\<rparr> = g" using history_nth [OF assms(1) i(1)] i(2) by (simp add: no_deck_def)
  ultimately show ?thesis using dec_enc_game by metis
qed

text \<open>
  C27. A game's JSON carries all of it. However requests and sessions interleave: every game that the store holds, that a
  response shows or that a published event carries is in one history, and while no finished table in it is widened, the JSON of
  each of its games, as \<^verbatim>\<open>SaveGame\<close> writes it, unmarshals in \<^verbatim>\<open>LoadGame\<close> to the very same game, with every player,
  hand, bid, trick, score table and the version; so does the text of the event of a move, on
  which every client can thus see the hands of all players and the kitty. The only hypothesis is that the
  text of an instant reads back as that instant.
\<close>

theorem game_json_carries_all:
  assumes "hub_reach n ((w, ps), sks)" "n < 2 ^ 53"
  shows "\<exists>H. game_history gid H \<and> length H \<le> n \<and> (\<forall>g. stored gid w = Some g \<longrightarrow> H \<noteq> [] \<and> g = last H) \<and>
    (\<forall>resp g. Return (Answered resp) \<in> set ps \<longrightarrow> g \<in> shown resp \<longrightarrow> gID g = gid \<longrightarrow> g \<in> set H) \<and>
    (\<forall>ev. (events_channel gid, ev) \<in> set (published w) \<longrightarrow> event_from ev H) \<and>
    ((\<forall>k \<in> set H. not_widened k) \<longrightarrow> (\<forall>g \<in> set H.
      parse (time_text (CreatedAt g)) = Some (CreatedAt g) \<longrightarrow> parse (time_text (UpdatedAt g)) = Some (UpdatedAt g) \<longrightarrow>
      dec_game parse (enc_game time_text g) = Some g \<and>
      client_game parse (enc_event time_text (MoveMade mt uid pl v g)) = Some g))"
proof -
  obtain m where m: "m \<le> n" "live_reach m (w, ps)" using hub_reach_inv [OF assms(1)] by auto
  have "m < 2 ^ 63" using m(1) assms(2) by simp
  then obtain H owner where inv: "sys_inv gid (seen gid) (w, ps) H owner" and l: "length H \<le> m"
    using live_reach_inv [OF m(2)] by metis
  have l: "length H < 2 ^ 53" "length H < 2 ^ 63" "length H \<le> n" using l m(1) assms(2) by simp_all
  note h = sys_inv_stored [OF inv]
  have a: "g \<in> set H" if "Return (Answered resp) \<in> set ps" "g \<in> shown resp" "gID g = gid" for resp g
    using sys_inv_answer [OF inv l(2) that(1)] that(2,3) by (auto simp: seen_def)
  have e: "client_game parse (enc_event time_text (MoveMade mt uid pl v g)) = dec_game parse (enc_game time_text g)" for g
    by (simp add: client_game_def enc_event_def)
  show ?thesis using h a l(3) sys_inv_event [OF inv] served_json [OF h(1) l(1)] e by (intro exI [of _ H]) auto
qed

text \<open>A table created over HTTP, with instants written in decimal.\<close>

definition read_int :: "string \<Rightarrow> int option" where
  "read_int s = (case s of [] \<Rightarrow> None | c # cs \<Rightarrow> if c = CHR ''-'' then map_option uminus (decimal cs) else decimal s)"

lemma read_int_text: "read_int (int_text t) = Some t"
proof (cases "t < 0")
  case True
  then show ?thesis by (simp add: read_int_def int_text_def decimal_itoa)
next
  case False
  obtain c cs where c: "itoa (nat t) = c # cs" using itoa_digits(2) by (meson list.exhaust)
  then have "is_digit c" using itoa_digits(1) [of "nat t"] by simp
  then have "c \<noteq> CHR ''-''" by (auto simp: is_digit_def)
  then show ?thesis using False c decimal_itoa [of "nat t"] by (simp add: read_int_def int_text_def)
qed

lemma young_history:
  assumes "game_history gid H" "H \<noteq> []" "length H \<le> 21" "Version (last H) = 2" "Status (last H) = PhaseWaiting"
  shows "\<forall>k \<in> set H. not_widened k"
proof -
  have "(of_nat (length H) :: 64 word) = 2" using history_last [OF assms(1,2)] assms(4) by simp
  moreover have "unat (of_nat (length H) :: 64 word) = length H"
    using assms(3) by (simp add: unsigned_of_nat take_bit_nat_eq_self)
  moreover have "unat (2 :: 64 word) = 2" by simp
  ultimately have "length H = 2" by simp
  then obtain g0 g1 where H: "H = [g0, g1]" by (metis length_0_conv length_Suc_conv numeral_2_eq_2)
  then have "Status g0 = PhaseWaiting" using assms(1) by (auto simp: game_history_def NewWithConfig_def Let_def)
  then show ?thesis using assms(5) H by (simp add: not_widened_def)
qed

theorem game_json_carries_all_witness:
  "\<exists>g. Players g ! 0 = Some (newPlayer ''b'' ''b'' 0) \<and> Version g = 2 \<and> dec_game read_int (enc_game int_text g) = Some g"
proof -
  obtain n w g sk where h: "hub_reach n ((w, [Return (Answered (ok_json (OneGame (Some g))))]), [sk])" "n \<le> 21"
    and g: "stored ''g'' w = Some g" "Version g = 2" "Players g ! 0 = Some (newPlayer ''b'' ''b'' 0)" "Status g = PhaseWaiting"
    using demo_hub by blast
  have "n < 2 ^ 53" using h(2) by simp
  from game_json_carries_all [OF h(1) this, of "''g''" read_int int_text] obtain H where
    H: "game_history ''g'' H" "length H \<le> n" "H \<noteq> []" "g = last H"
    and j: "(\<forall>k \<in> set H. not_widened k) \<Longrightarrow> dec_game read_int (enc_game int_text g) = Some g"
    using g(1) last_in_set read_int_text by metis
  have "\<forall>k \<in> set H. not_widened k" by (rule young_history [OF H(1,3)]) (use H g h(2) in auto)
  from j [OF this] g show ?thesis by blast
qed

end
