(* ===== verification/Faults.thy ===== *)
theory Faults
  imports Lease
begin

text \<open>
  A move that meets a fault: one of the messages of \<^verbatim>\<open>ProcessMove\<close> to Redis or Postgres is lost, on its way there or on
  its way back. What is answered, and what is stored, recorded, published and locked afterwards.
\<close>

section \<open>Programs under changing choices\<close>

primrec run_with :: "(cmd \<Rightarrow> choice) \<Rightarrow> 'a prog \<Rightarrow> world \<Rightarrow> 'a \<times> world" where
  "run_with f (Return x) w = (x, w)"
| "run_with f (Call c k) w = (let (r, w') = exec (f c) c w in run_with f (k r) w')"

lemma run_with_bindP: "run_with f (bindP p q) w = (let (x, w') = run_with f p w in run_with f (q x) w')"
  by (induction p arbitrary: w) (auto simp: Let_def split: prod.split)

lemma run_with_same: "run_with (\<lambda>_. ch) p w = run ch p w"
  by (induction p arbitrary: w) (auto simp: Let_def split: prod.split)

text \<open>The messages of a move, in their order.\<close>

datatype message = Locking | Loading | Saving | Recording | Publishing | Unlocking

definition message_of :: "cmd \<Rightarrow> message option" where
  "message_of c = (case c of SetNX k v px \<Rightarrow> Some Locking | Get k \<Rightarrow> Some Loading
     | EvalSave k1 k2 doc ver expv ttl \<Rightarrow> Some Saving | InsertMove row \<Rightarrow> Some Recording
     | Publish chn ev \<Rightarrow> Some Publishing | EvalRelease k tok \<Rightarrow> Some Unlocking | _ \<Rightarrow> None)"

definition losing :: "message \<Rightarrow> net \<Rightarrow> choice \<Rightarrow> cmd \<Rightarrow> choice" where
  "losing m n ch c = (if message_of c = Some m then ch\<lparr>ch_net := n\<rparr> else ch)"

definition lost :: "net \<Rightarrow> world \<Rightarrow> world \<Rightarrow> world" where
  "lost n w w' = (if n = LostRequest then w else w')"

section \<open>The messages one by one\<close>

lemmas fault_simps = losing_def message_of_def exec_def effect_def lost_def

lemma lose_lock:
  assumes "ch_net ch = Delivered" "GET (clock w) (kv w) (lock_key gid) = None" "n \<noteq> Delivered"
  shows "run_with (losing m n ch) (AcquireLock gid) w =
    (if m = Locking then (Inl (External (ch_error ch)), lost n w (locked ch gid w)) else (Inr (ch_token ch), locked ch gid w))"
  using assms
  by (cases n) (simp_all add: AcquireLock_def issue_def fault_simps lockBackoff_def lock_loop.simps SET_NX_def SET_PX_def
      locked_def)

lemma lose_load:
  assumes "ch_net ch = Delivered" "stored gid w = Some g" "n \<noteq> Delivered"
  shows "run_with (losing m n ch) (LoadGame gid) w =
    (if m = Loading then (Inl (External (ch_error ch)), w) else (Inr (Some g), w))"
  using assms
  by (cases n) (auto simp: LoadGame_def fault_simps stored_def cell_load_def split: option.splits rval.splits)

lemma lose_save:
  assumes "ch_net ch = Delivered" "GET (clock w) (kv w) (version_key (gID g)) = Some (RText (FormatInt y))" "n \<noteq> Delivered"
  shows "run_with (losing m n ch) (SaveGame g y) w =
    (if m = Saving then (Some (External (ch_error ch)), lost n w (saved g w)) else (None, saved g w))"
  using assms
  by (cases n) (simp_all add: SaveGame_def fault_simps saveScript_def Let_def saved_def SET_PX_def)

lemma lose_row:
  assumes "ch_net ch = Delivered" "n \<noteq> Delivered"
  shows "run_with (losing m n ch) (pg_SaveMove mt uid s v cv lp gid) w =
    (let w' = w\<lparr>moveRows := moveRows w @
        [\<lparr>mGame = gid, mPlayer = uid, mSeat = s, mVersion = v, mClientVersion = cv, mType = mt, mPayload = lp\<rparr>]\<rparr>
     in if m = Recording then (Some (External (ch_error ch)), lost n w w') else (None, w'))"
  using assms by (cases n) (simp_all add: pg_SaveMove_def fault_simps)

lemma lose_event:
  assumes "ch_net ch = Delivered" "n \<noteq> Delivered"
  shows "snd (run_with (losing m n ch) (PublishEvent gid ev) w) =
    (let w' = w\<lparr>published := published w @ [(events_channel gid, ev)]\<rparr> in if m = Publishing then lost n w w' else w')"
  using assms by (cases n) (simp_all add: PublishEvent_def fault_simps)

lemma lose_unlock:
  assumes "ch_net ch = Delivered" "n \<noteq> Delivered" "kv w (lock_key gid) = Some (RText (ch_token ch), x)" "clock w < x"
  shows "snd (run_with (losing m n ch) (ReleaseLock gid (ch_token ch)) w) =
    (if m = Unlocking then lost n w (unlocked gid w) else unlocked gid w)"
  using assms
  by (cases n) (simp_all add: ReleaseLock_def fault_simps releaseScript_def GET_def DEL_def unlocked_def)

lemma lose_withGameLock:
  assumes ch: "ch_net ch = Delivered" and free: "GET (clock w) (kv w) (lock_key gid) = None" and n: "n \<noteq> Delivered"
    and body: "run_with (losing m n ch) body (locked ch gid w) = (x, wb)"
    and lock: "kv wb (lock_key gid) = Some (RText (ch_token ch), clock w + 5000)" "clock wb = clock w"
  shows "run_with (losing m n ch) (withGameLock gid body) w =
    (if m = Locking then (Inl (Wrapped ''failed to acquire lock'' (External (ch_error ch))), lost n w (locked ch gid w))
     else (x, if m = Unlocking then lost n wb (unlocked gid wb) else unlocked gid wb))"
proof -
  let ?F = "losing m n ch"
  have e: "run_with ?F (bindP (ReleaseLock gid tok) (\<lambda>_. Return r)) u = (r, snd (run_with ?F (ReleaseLock gid tok) u))"
    for tok r u by (simp add: run_with_bindP split: prod.split)
  show ?thesis
    using lose_unlock [OF ch n lock(1), of m] lock(2)
    by (simp add: withGameLock_def run_with_bindP [of _ "AcquireLock gid"] lose_lock [OF ch free n] run_with_bindP [of _ body]
        body e)
qed

lemma keep_env: "ch_net ch = Delivered \<Longrightarrow> run_with (losing m n ch) (with_env k) w = run_with (losing m n ch) (k (ch_env ch)) w"
  by (simp add: with_env_def fault_simps)

section \<open>The move as a whole\<close>

definition move_entry :: "string \<Rightarrow> string \<Rightarrow> MoveType \<Rightarrow> payload \<Rightarrow> 64 word \<Rightarrow> Game \<Rightarrow> move_row" where
  "move_entry gid uid mt pl cv g' = \<lparr>mGame = gid, mPlayer = uid, mSeat = mover_seat g' uid, mVersion = Version g',
     mClientVersion = cv, mType = mt, mPayload = MovePayload pl\<rparr>"

lemma lose_commit:
  fixes w :: world and gid uid :: string and mt :: MoveType and pl :: payload and cv :: "64 word"
  assumes "ch_net ch = Delivered" "n \<noteq> Delivered"
    and "GET (clock w) (kv w) (version_key (gID g')) = Some (RText (FormatInt (Version g)))"
  defines "w1 \<equiv> saved g' w"
  defines "w2 \<equiv> w1\<lparr>moveRows := moveRows w @ [move_entry gid uid mt pl cv g']\<rparr>"
  defines "w3 \<equiv> w2\<lparr>published := published w @ [(events_channel gid, MoveMade mt uid pl (Version g') g')]\<rparr>"
  shows "run_with (losing m n ch) (commit_move gid uid mt pl cv g g') w =
    (case m of
       Saving \<Rightarrow> (Inl (External (ch_error ch)), lost n w w1)
     | Recording \<Rightarrow> (Inl (Wrapped ''failed to save move in db'' (External (ch_error ch))), lost n w1 w2)
     | Publishing \<Rightarrow> (Inr g', lost n w2 w3)
     | _ \<Rightarrow> (Inr g', w3))"
proof -
  have e: "run_with f (bindP (PublishEvent gid ev) (\<lambda>_. Return (Inr g'))) u = (Inr g', snd (run_with f (PublishEvent gid ev) u))"
    for f ev u by (simp add: run_with_bindP split: prod.split)
  show ?thesis
    using assms(1,2)
    by (cases m) (simp_all add: commit_move_def run_with_bindP [of _ "SaveGame g' y" for y] lose_save [OF assms(1,3,2)]
        run_with_bindP [of _ "pg_SaveMove a b c d e f h" for a b c d e f h] lose_row e lose_event Let_def
        w1_def w2_def w3_def move_entry_def lost_def)
qed

text \<open>The world after the move under the lock, before the lock is given back.\<close>

lemma stored_simps:
  "gID g = gid \<Longrightarrow> stored gid (saved g u) = Some (g\<lparr>Deck := []\<rparr>)"
  "stored gid (u\<lparr>moveRows := r\<rparr>) = stored gid u" "stored gid (u\<lparr>published := q\<rparr>) = stored gid u"
  by (simp_all add: stored_def cell_load_def GET_def saved_def marshal_def ttlMillis_def)

lemma lose_body:
  fixes w :: world
  assumes ch: "ch_net ch = Delivered" and g: "fresh_cell gid w g"
    and v: "ValidateMove g uid mt pl = None" and a: "ApplyMove (ch_env ch) g uid mt pl = Inr g'" and n: "n \<noteq> Delivered"
  obtains x wb where
    "run_with (losing m n ch) (bindP (LoadGame gid) (\<lambda>l. case l of Inl err \<Rightarrow> Return (Inl err)
          | Inr None \<Rightarrow> Return (Inl ErrGameNotFound)
          | Inr (Some k) \<Rightarrow> move_loaded gid uid mt pl (Version g) k)) (locked ch gid w) = (x, wb)"
    "kv wb (lock_key gid) = Some (RText (ch_token ch), clock w + 5000)" "clock wb = clock w"
    "x = Inr g' \<and> m \<notin> {Loading, Saving, Recording} \<or> (\<exists>err. x = Inl err) \<and> m \<in> {Loading, Saving, Recording}"
    "stored gid wb = Some (if m \<in> {Loading, Saving} \<and> \<not> (m = Saving \<and> n = LostReply) then g else g'\<lparr>Deck := []\<rparr>)"
    "moveRows wb = moveRows w @ (if m \<in> {Loading, Saving} \<or> m = Recording \<and> n = LostRequest then []
      else [move_entry gid uid mt pl (Version g) g'])"
    "published wb = published w @ (if m \<in> {Loading, Saving, Recording} \<or> m = Publishing \<and> n = LostRequest then []
      else [(events_channel gid, MoveMade mt uid pl (Version g') g')])"
proof -
  let ?F = "losing m n ch" and ?l = "locked ch gid w"
  let ?body = "bindP (LoadGame gid) (\<lambda>l. case l of Inl err \<Rightarrow> Return (Inl err)
          | Inr None \<Rightarrow> Return (Inl ErrGameNotFound)
          | Inr (Some k) \<Rightarrow> move_loaded gid uid mt pl (Version g) k)"
  have id: "gID g' = gid" using ApplyMove_frame [OF a] g by (simp add: fresh_cell_def)
  have st: "stored gid ?l = Some g" "stored gid w = Some g" using g by (simp_all add: fresh_cell_def)
  have ver: "GET (clock ?l) (kv ?l) (version_key (gID g')) = Some (RText (FormatInt (Version g)))"
    using g id by (simp add: locked_def GET_def fresh_cell_def)
  have lf: "moveRows ?l = moveRows w" "published ?l = published w" by (simp_all add: locked_def)
  have body: "run_with ?F ?body ?l = (if m = Loading then (Inl (External (ch_error ch)), ?l)
      else run_with ?F (commit_move gid uid mt pl (Version g) g g') ?l)"
    by (simp add: run_with_bindP lose_load [OF ch st(1) n] move_loaded_def v keep_env [OF ch] a)
  obtain x wb where b: "run_with ?F ?body ?l = (x, wb)" by fastforce
  note c = b [unfolded body lose_commit [OF ch n ver, of m gid uid mt pl "Version g"]]
  show thesis
    by (rule that [OF b]; use c n in \<open>cases m; cases n; auto simp: lost_def stored_simps id st lf locked_lock\<close>)
qed

text \<open>
  C13. An error does not mean that nothing happened. A legal move at the current version, alone at a free table, of whose
  messages one kind is lost: the answer is an error exactly when the lock, the load, the save or the ledger
  row is hit, but the new state is stored whenever the ledger row is hit, and when the reply of the save
  is lost; then no event tells anybody. The move has its ledger row or its event unless that message
  itself or an earlier one was lost, and the lock stays behind (until its lease ends) when the reply of the first or
  the request of the last message is lost.
\<close>

theorem one_lost_message:
  assumes ch: "ch_net ch = Delivered" and free: "GET (clock w) (kv w) (lock_key gid) = None" and g: "fresh_cell gid w g"
    and v: "ValidateMove g uid mt pl = None" and a: "ApplyMove (ch_env ch) g uid mt pl = Inr g'" and n: "n \<noteq> Delivered"
  shows "\<exists>ans w'. run_with (losing m n ch) (svc_ProcessMove gid uid mt pl (Version g)) w = (ans, w') \<and>
    (ans = Inr g' \<or> (\<exists>err. ans = Inl err)) \<and>
    ((\<exists>err. ans = Inl err) \<longleftrightarrow> m \<in> {Locking, Loading, Saving, Recording}) \<and>
    stored gid w' = Some (if m \<in> {Recording, Publishing, Unlocking} \<or> m = Saving \<and> n = LostReply then g'\<lparr>Deck := []\<rparr> else g) \<and>
    moveRows w' = moveRows w @ (if m \<in> {Publishing, Unlocking} \<or> m = Recording \<and> n = LostReply
      then [move_entry gid uid mt pl (Version g) g'] else []) \<and>
    published w' = published w @ (if m = Unlocking \<or> m = Publishing \<and> n = LostReply
      then [(events_channel gid, MoveMade mt uid pl (Version g') g')] else []) \<and>
    (GET (clock w') (kv w') (lock_key gid) = None \<longleftrightarrow> \<not> (m = Locking \<and> n = LostReply \<or> m = Unlocking \<and> n = LostRequest))"
proof -
  let ?l = "locked ch gid w"
  obtain x wb where wb: "run_with (losing m n ch) (bindP (LoadGame gid) (\<lambda>l. case l of Inl err \<Rightarrow> Return (Inl err)
          | Inr None \<Rightarrow> Return (Inl ErrGameNotFound)
          | Inr (Some k) \<Rightarrow> move_loaded gid uid mt pl (Version g) k)) ?l = (x, wb)"
    "kv wb (lock_key gid) = Some (RText (ch_token ch), clock w + 5000)" "clock wb = clock w"
    and rest: "x = Inr g' \<and> m \<notin> {Loading, Saving, Recording} \<or> (\<exists>err. x = Inl err) \<and> m \<in> {Loading, Saving, Recording}"
      "stored gid wb = Some (if m \<in> {Loading, Saving} \<and> \<not> (m = Saving \<and> n = LostReply) then g else g'\<lparr>Deck := []\<rparr>)"
      "moveRows wb = moveRows w @ (if m \<in> {Loading, Saving} \<or> m = Recording \<and> n = LostRequest then []
        else [move_entry gid uid mt pl (Version g) g'])"
      "published wb = published w @ (if m \<in> {Loading, Saving, Recording} \<or> m = Publishing \<and> n = LostRequest then []
        else [(events_channel gid, MoveMade mt uid pl (Version g') g')])"
    by (rule lose_body [OF ch g v a n, of m])
  have run: "run_with (losing m n ch) (svc_ProcessMove gid uid mt pl (Version g)) w =
    (if m = Locking then (Inl (Wrapped ''failed to acquire lock'' (External (ch_error ch))), lost n w ?l)
     else (x, if m = Unlocking then lost n wb (unlocked gid wb) else unlocked gid wb))"
    unfolding svc_ProcessMove_def by (rule lose_withGameLock [OF ch free n wb])
  have un: "stored gid (unlocked gid u) = stored gid u" "moveRows (unlocked gid u) = moveRows u"
    "published (unlocked gid u) = published u" "GET t (kv (unlocked gid u)) (lock_key gid) = None" for u t
    by (simp_all add: stored_def cell_load_def GET_def unlocked_def)
  have lf: "moveRows ?l = moveRows w" "published ?l = published w" "stored gid ?l = Some g" "stored gid w = Some g"
    using g by (simp_all add: fresh_cell_def) (simp_all add: locked_def)
  have held: "GET (clock ?l) (kv ?l) (lock_key gid) \<noteq> None" "GET (clock wb) (kv wb) (lock_key gid) \<noteq> None"
    using wb(2,3) by (simp_all add: GET_def locked_lock)
  show ?thesis
    unfolding run using rest lf un held free n
    by (cases m; cases n) (auto simp: lost_def)
qed

theorem one_lost_message_witness:
  "\<exists>g' err w'. run_with (losing Recording LostRequest demo_choice) (svc_ProcessMove ''g'' [] MovePass PNil 6)
      (saved demo_auction demo_world) = (Inl err, w') \<and>
    stored ''g'' w' = Some (g'\<lparr>Deck := []\<rparr>) \<and> Version g' = 7 \<and> moveRows w' = [] \<and> published w' = []"
proof -
  obtain g' where g: "ValidateMove demo_auction [] MovePass PNil = None"
    "ApplyMove demo_env demo_auction [] MovePass PNil = Inr g'" "Version g' = 7" using demo_pass by blast
  have v: "Version demo_auction = 6" by (simp add: demo_auction_def demo_joined_def)
  show ?thesis
    using one_lost_message [of demo_choice "saved demo_auction demo_world" "''g''" demo_auction "[]" MovePass PNil g'
        LostRequest Recording] demo_stored g v
    by (auto simp: demo_choice_def GET_def demo_world_def)
qed

end
