(* ===== verification/Spec2Isabelle.thy ===== *)
theory Spec2Isabelle
  imports Startup Playthrough Wire Faults
begin

text \<open>
  \<^bold>\<open>go-mighty: the server of the card game Mighty.\<close>

  The program is a Go server (src/cmd, src/internal). A request enters through the router of main.go and
  its middleware (internal/api), is authenticated against Cognito (internal/service/cognito_auth.go) and
  becomes one call of the game service (internal/service/game_service.go). The service takes a lock in
  Redis, loads the game, applies the rules (internal/game), saves the game with a compare-and-swap on its
  version (internal/store/redis), writes a row to the ledger in Postgres (internal/store/postgres) and
  publishes an event, which the WebSocket sessions of the game's clients forward.

  \<^bold>\<open>Theories and code\<close>

  The rules, internal/game, are pure functions on the record \<open>Game\<close>:

  \<^item> Prelude, GoMap: Go's errors, panics and remainder; Go maps as association lists behind the locale
    \<open>go_map\<close>.
  \<^item> Cards (card.go), GameState (config.go, game.go): suits and ranks are datatypes with the source's
    constants and one constructor for any other text; a pointer to a player is its index in \<open>Players\<close>.
  \<^item> TrickRules, Scoring, Validate, Apply (rules.go): strength of cards and winner of a trick (over the
    locale \<open>strength\<close>), the score of a round, \<open>ValidateMove\<close> with every guard in the order of the code,
    \<open>ApplyMove\<close> with one definition per move.
  \<^item> Table, Auction, Round, Bidding, Exchange, Play, Room: the invariant of each phase (\<open>round_inv\<close>) and
    that accepted moves keep it; the auction as a ring of bidders, which the turn counter and the map of
    passed seats refine.
  \<^item> Lobby, TableLife: the seat logic of \<open>JoinGame\<close>, the reachable tables (\<open>table_step\<close>: joins in any phase, returns and
    moves), and what holds of them. \<open>reachable h cfg w n g\<close> records with \<open>w\<close> whether someone was seated outside the waiting
    room, which a finished table widened to five seats allows and which leaves the invariant
    (\<open>join_after_reconfigure_keeps_old_round\<close>); \<open>h\<close> leaves out discards that repeat a card. Ledger: scores, history and
    totals over the rounds of a table, and that every deal can be played to its end.

  The service and the stores are programs: trees of commands to Redis, Postgres, the clock and the random
  generator (Program), so that the commands of many requests can interleave:

  \<^item> Redis (redis.go): keys with expiry, both Lua scripts, lock, load, save. The locale
    \<open>versioned_cell\<close> is the contract of a saved game; it is interpreted on the scripts.
  \<^item> Service (game_service.go, postgres.go): every handler, with every error return. Policy: which
    commands a program may issue (locales \<open>reading\<close>, \<open>locking\<close>, \<open>updating\<close>, \<open>creating\<close>). Solo: what a handler
    does when it runs alone, on each branch. Lease: what the lock guarantees, and what not. Faults: a
    move of which one message is lost (\<open>run_with\<close> lets every command meet its own fate).
  \<^item> Interleaving: any number of requests at once (\<open>sys_step\<close>), a rely-guarantee argument with the
    history of a game as the shared knowledge.

  The edge of the server:

  \<^item> RateLimit (internal/ratelimit), ConnLimit (connlimit.go), Users (user_store.go, cognito_auth.go, the
    locale \<open>user_store\<close> for the interface \<open>userUpserter\<close>), Payload (\<open>ConvertPayload\<close>), Http (the
    middleware), Handlers (handler.go, ws.go), Socket (ws.go in time: deadlines, pings, the write loop
    beside the read loop as a step relation), Infra (internal/infra), Codec (the JSON of a game and of
    events, over the locale \<open>codec\<close>), Server (main.go: every route, the WebSocket route with the session that runs after
    the upgrade, and how long each request takes, \<open>ends_within\<close>), Startup (the handler and its options, all sessions at
    its one registry, \<open>visits\<close>, the start-up and access log).
  \<^item> Deployment: HTTP requests and WebSocket sessions of all clients together (\<open>live_step\<close>), with the
    open sockets that forward what Redis publishes (\<open>hub_step\<close>). Playthrough: a whole round as a list of
    HTTP requests, from the creation of the table to the stored scores. Wire: every game of a history survives its
    JSON (\<open>wire_ok\<close>, an invariant of the rules beside \<open>round_inv\<close>; \<open>books_fine\<close>, the scores).

  \<^bold>\<open>What is shown\<close>

  \<^item> Of the rules: the round invariant on every table at which nobody was seated outside the waiting room and, on these, conservation
    of the cards (where no discard repeats one) and of the twenty points, no panic and no endless loop on a legal table, no deadlock, termination of a deal and
    that it can be finished, the winner of a trick, scores that add up to zero and totals that agree with
    the history, and the refinement of an abstract auction (a row of speakers).
  \<^item> Of the service: one history per game under any interleaving and any loss of messages, exclusion for
    the time of a lease, the answer and the writes of a move whatever the store holds and under each lost message,
    and an end of every request within a fixed number of commands and of milliseconds of waiting.
  \<^item> Of the edge: the limiter in Redis decides like the bucket in memory, the announced wait is exact,
    connections are counted exactly, payloads and stored games round-trip, an identity is the subject of
    its token, nobody moves for another player, nothing is written for a caller without a token (by a POST or by a
    session), a user creates a bounded number of games beyond those for which Redis fails the limiter, no environment switches
    these limits off, sockets show the published events in order, and who answers pings and keeps to the message rate stays
    connected.
  \<^item> Of the whole: whatever all clients do, everything that is stored, answered or delivered of a game
    comes from one legal history (Deployment), each of its games reads back from its JSON (Wire), and users with tokens can play a round from the creation
    of the table to its scores (Playthrough).

  Where the code falls short of its comments the theorem states what it does: a low lead that loses to an
  ace (\<open>low_lead_loses_to_offsuit\<close>), a discard of one card three times, a stale fifth seat in the scores, a
  widened table that deals over a finished round, an origin with a blank, a list of games that knows only
  waiting ones, a move that is applied although its answer is an error.

  \<^bold>\<open>Parameters and bounds\<close>

  The clock, the draws of the shuffle, the random lock tokens and fresh IDs, lost requests and replies, failed calls of the limiter,
  the JWT library, the key cache, Cognito, \<^verbatim>\<open>url.Parse\<close>, the WebSocket handshake and the transactions of
  other requests on the user table are parameters, unrestricted except where a theorem names what it
  assumes. Versions are \<open>64 word\<close>, so histories are bounded by fewer than 2^63 steps; for the JSON of the
  totals, of at most 640 points a step, by fewer than 2^53. The loop for the next
  bidder is a \<open>partial_function\<close>, and that it returns is proved; nothing else needs fuel. The lock is
  tried four times, with waits of 50, 100 and 200 ms, and expires after five seconds.

  \<^bold>\<open>Not modelled\<close>

  Floating-point numbers are exact rationals, so rounding is not covered. The store keeps a game as its
  record without the deck; that its JSON says the same is shown in Codec and Wire, for trees of JSON and not
  for their text, and texts are ASCII. The debug lines of the stores and the durations in the access log, the
  upgrade itself and the framing of a socket, listening, and the connections that the libraries open are
  left out. The frontends, migrations and deployment are not Go code
  of the server; the constraints of the migrations are used in Users.
\<close>

end
